(* ===== verification/Prelude.thy ===== *)
theory Prelude
  imports Main "HOL-Library.Monad_Syntax" "HOL-Library.Word" "HOL-Library.AList"
begin

text \<open>
  Shared vocabulary of the development.

  \<^item> Machine integers.  A Rust \<open>u64\<close> (and \<open>usize\<close>, on the 64-bit targets of the repository) is
    a \<open>nat\<close>, and every addition and subtraction of the source that can leave the range is a
    checked operation \<open>u64_add\<close>, \<open>u64_sub\<close> whose \<open>None\<close> is the arithmetic panic of the checked
    profile.  Where a checked operation returns \<open>Some\<close>, the wrapping operation of the release
    profile computes the same number (\<open>u64_add_wrap_free\<close>, \<open>u64_sub_wrap_free\<close>).
  \<^item> Panics.  A Rust function that can panic (\<open>unwrap\<close>, \<open>expect\<close>, slice bounds, arithmetic)
    returns an \<open>option\<close>, \<open>None\<close> being the panic, and is written in the option monad.
  \<^item> A \<open>HashMap\<close> whose values are iterated over is an association list with distinct keys.
\<close>

section \<open>Machine integers and bytes\<close>

type_synonym u64 = nat

type_synonym u8 = "8 word"

type_synonym bytes = "u8 list"

abbreviation u64_bound :: nat where
  "u64_bound \<equiv> 18446744073709551616"

definition u64_add :: "u64 \<Rightarrow> u64 \<Rightarrow> u64 option" where
  "u64_add a b = (if a + b < u64_bound then Some (a + b) else None)"

definition u64_sub :: "u64 \<Rightarrow> u64 \<Rightarrow> u64 option" where
  "u64_sub a b = (if b \<le> a then Some (a - b) else None)"

section \<open>Vectors and maps of the Rust standard library\<close>

text \<open>\<open>&v[from..to]\<close>, which panics unless \<open>from \<le> to \<le> v.len()\<close>.\<close>

definition vec_slice :: "'a list \<Rightarrow> nat \<Rightarrow> nat \<Rightarrow> 'a list option" where
  "vec_slice xs from to =
     (if from \<le> to \<and> to \<le> length xs then Some (take (to - from) (drop from xs)) else None)"

text \<open>\<open>v.drain(..n)\<close>, which panics when \<open>n > v.len()\<close>; the result is what stays in \<open>v\<close>.\<close>

definition vec_drain_to :: "'a list \<Rightarrow> nat \<Rightarrow> 'a list option" where
  "vec_drain_to xs n = (if n \<le> length xs then Some (drop n xs) else None)"

text \<open>\<open>iter.map(f).collect()\<close> for an \<open>f\<close> that can panic.\<close>

primrec map_opt :: "('a \<Rightarrow> 'b option) \<Rightarrow> 'a list \<Rightarrow> 'b list option" where
  "map_opt f [] = Some []"
| "map_opt f (x # xs) = do { y \<leftarrow> f x; ys \<leftarrow> map_opt f xs; Some (y # ys) }"

text \<open>\<open>if let Some(a) = o { actions.extend(a) }\<close> on an empty \<open>actions\<close>.\<close>

definition opt_list :: "'a list option \<Rightarrow> 'a list" where
  "opt_list a = (case a of None \<Rightarrow> [] | Some xs \<Rightarrow> xs)"

text \<open>\<open>map.entry(k).and_modify(|v| *v = x)\<close>.\<close>

definition and_modify :: "'k \<Rightarrow> 'v \<Rightarrow> ('k \<times> 'v) list \<Rightarrow> ('k \<times> 'v) list" where
  "and_modify k x al = AList.map_entry k (\<lambda>_. x) al"

section \<open>Lemma collections\<close>

named_theorems checked \<open>unfolding of checked arithmetic and slices\<close>

named_theorems exec \<open>definitions unfolded when the model is run on a concrete input\<close>

named_theorems opt_bind \<open>elimination of successful binds\<close>

declare Option.bind_eq_Some_conv [opt_bind]

lemma bind_SomeE:
  assumes "Option.bind m f = Some x"
  obtains y where "m = Some y" and "f y = Some x"
  using assms by (cases m) auto

lemma bind_pair_SomeE:
  assumes "Option.bind m (\<lambda>(a, b). f a b) = Some x"
  obtains a b where "m = Some (a, b)" and "f a b = Some x"
  using assms by (cases m) auto

lemmas prelude_exec [exec] =
  u64_add_def u64_sub_def vec_slice_def vec_drain_to_def and_modify_def Let_def

section \<open>Checked arithmetic\<close>

lemma u64_add_eq_Some [checked]: "u64_add a b = Some c \<longleftrightarrow> c = a + b \<and> a + b < u64_bound"
  by (auto simp: u64_add_def)

lemma u64_sub_eq_Some [checked]: "u64_sub a b = Some c \<longleftrightarrow> b \<le> a \<and> c = a - b"
  by (auto simp: u64_sub_def)

lemma u64_add_ok [simp]: "a + b < u64_bound \<Longrightarrow> u64_add a b = Some (a + b)"
  by (simp add: u64_add_def)

lemma u64_sub_ok [simp]: "b \<le> a \<Longrightarrow> u64_sub a b = Some (a - b)"
  by (simp add: u64_sub_def)

text \<open>The checked operations agree with the wrapping ones wherever they return.\<close>

lemma u64_add_wrap_free:
  fixes x y :: "64 word"
  assumes "u64_add (unat x) (unat y) = Some n"
  shows "unat (x + y) = n"
  using assms by (simp add: checked unat_word_ariths)

lemma u64_sub_wrap_free:
  fixes x y :: "64 word"
  assumes "u64_sub (unat x) (unat y) = Some n"
  shows "unat (x - y) = n"
  using assms by (simp add: checked unat_sub word_le_nat_alt)

section \<open>Slices, maps over options, association lists\<close>

lemma vec_slice_eq_Some [checked]:
  "vec_slice xs from to = Some ys \<longleftrightarrow>
     from \<le> to \<and> to \<le> length xs \<and> ys = take (to - from) (drop from xs)"
  by (auto simp: vec_slice_def)

lemma vec_drain_to_eq_Some [checked]:
  "vec_drain_to xs n = Some ys \<longleftrightarrow> n \<le> length xs \<and> ys = drop n xs"
  by (auto simp: vec_drain_to_def)

lemma map_opt_eq_Some:
  "map_opt f xs = Some ys \<longleftrightarrow> list_all2 (\<lambda>x y. f x = Some y) xs ys"
proof (induction xs arbitrary: ys)
  case Nil
  then show ?case by auto
next
  case (Cons x xs)
  then show ?case by (cases ys) (auto simp: opt_bind)
qed

lemma map_opt_total: "(\<And>x. x \<in> set xs \<Longrightarrow> \<exists>y. f x = Some y) \<Longrightarrow> \<exists>ys. map_opt f xs = Some ys"
proof (induction xs)
  case Nil
  then show ?case by simp
next
  case (Cons x xs)
  from Cons.IH Cons.prems obtain ys where ys: "map_opt f xs = Some ys" by auto
  from Cons.prems obtain y where "f x = Some y" by auto
  with ys show ?case by simp
qed

lemma map_opt_set:
  assumes "map_opt f xs = Some ys" and "y \<in> set ys"
  obtains x where "x \<in> set xs" and "f x = Some y"
proof -
  from assms obtain i where "i < length ys" "y = ys ! i" "i < length xs" "f (xs ! i) = Some (ys ! i)"
    by (auto simp: map_opt_eq_Some in_set_conv_nth list_all2_conv_all_nth)
  with that [of "xs ! i"] show thesis by simp
qed

lemma map_opt_all:
  assumes "map_opt f xs = Some ys" and "\<And>x y. x \<in> set xs \<Longrightarrow> f x = Some y \<Longrightarrow> P y"
  shows "list_all P ys"
  using assms by (auto simp: list_all_iff elim!: map_opt_set)

lemma opt_list_simps [simp]:
  "opt_list None = []" "opt_list (Some xs) = xs"
  by (simp_all add: opt_list_def)

lemma map_of_and_modify:
  "map_of (and_modify k x al) k' =
     (if k' = k \<and> map_of al k \<noteq> None then Some x else map_of al k')"
  by (simp add: and_modify_def map_of_map_entry split: option.splits)

lemma distinct_and_modify [simp]:
  "distinct (map fst al) \<Longrightarrow> distinct (map fst (and_modify k x al))"
  by (simp add: and_modify_def distinct_map_entry)

lemma set_update_subset: "set (AList.update k v al) \<subseteq> insert (k, v) (set al)"
  by (induction al) auto

lemma update_new: "k \<notin> fst ` set al \<Longrightarrow> AList.update k v al = al @ [(k, v)]"
  by (induction al) auto

lemma updates_new:
  assumes "length ks = length vs" and "distinct (map fst al @ ks)"
  shows "AList.updates ks vs al = al @ zip ks vs"
  using assms by (induction ks vs arbitrary: al rule: list_induct2) (auto simp: update_new)

section \<open>Order statistics\<close>

text \<open>At least \<open>length xs - k\<close> elements of a list are no smaller than the one at position \<open>k\<close> of
  its sorted version.\<close>

lemma sorted_nth_count:
  fixes xs :: "'a::linorder list"
  assumes "sorted xs" and "k < length xs"
  shows "length xs - k \<le> length (filter (\<lambda>x. xs ! k \<le> x) xs)"
proof -
  have "filter (\<lambda>x. xs ! k \<le> x) (drop k xs) = drop k xs"
    using assms by (auto simp: filter_id_conv in_set_conv_nth sorted_nth_mono)
  then have "length xs - k = length (filter (\<lambda>x. xs ! k \<le> x) (drop k xs))"
    by simp
  also have "\<dots> \<le> length (filter (\<lambda>x. xs ! k \<le> x) (take k xs @ drop k xs))"
    by (simp only: filter_append length_append le_add2)
  finally show ?thesis by simp
qed

lemma sort_nth_count:
  fixes xs :: "'a::linorder list"
  assumes "k < length xs"
  shows "length xs - k \<le> length (filter (\<lambda>x. sort xs ! k \<le> x) xs)"
proof -
  have "length (filter (\<lambda>x. sort xs ! k \<le> x) (sort xs)) = length (filter (\<lambda>x. sort xs ! k \<le> x) xs)"
    by (metis filter_sort length_sort)
  with sorted_nth_count [of "sort xs" k] assms show ?thesis by simp
qed

lemma sort_nth_ge_iff:
  fixes xs :: "'a::linorder list"
  assumes "k < length xs"
  shows "j \<le> sort xs ! k \<longleftrightarrow> length xs - k \<le> length (filter (\<lambda>x. j \<le> x) xs)"
proof
  assume "j \<le> sort xs ! k"
  then have "length (filter (\<lambda>x. sort xs ! k \<le> x) ys) \<le> length (filter (\<lambda>x. j \<le> x) ys)" for ys
    by (induction ys) auto
  with sort_nth_count [OF assms] show "length xs - k \<le> length (filter (\<lambda>x. j \<le> x) xs)"
    using le_trans by blast
next
  let ?ys = "sort xs"
  assume le: "length xs - k \<le> length (filter (\<lambda>x. j \<le> x) xs)"
  show "j \<le> ?ys ! k"
  proof (rule ccontr)
    assume less: "\<not> j \<le> ?ys ! k"
    have "x < j" if "x \<in> set (take (Suc k) ?ys)" for x
    proof -
      from that obtain i where "i \<le> k" "x = ?ys ! i" using assms by (auto simp: in_set_conv_nth less_Suc_eq_le)
      with assms have "x \<le> ?ys ! k" by (simp add: sorted_nth_mono)
      with less show ?thesis by auto
    qed
    then have "filter (\<lambda>x. j \<le> x) (take (Suc k) ?ys) = []" by (auto simp: filter_empty_conv not_le)
    then have "filter (\<lambda>x. j \<le> x) ?ys = filter (\<lambda>x. j \<le> x) (drop (Suc k) ?ys)"
      by (metis append_Nil append_take_drop_id filter_append)
    moreover have "length (filter (\<lambda>x. j \<le> x) ?ys) = length (filter (\<lambda>x. j \<le> x) xs)"
      by (metis filter_sort length_sort)
    moreover have "length (filter (\<lambda>x. j \<le> x) (drop (Suc k) ?ys)) \<le> length xs - Suc k"
      using length_filter_le [of _ "drop (Suc k) ?ys"] by simp
    ultimately show False using le assms by simp
  qed
qed

end
