(* ===== verification/RaftTypes.thy ===== *)
theory RaftTypes
  imports Prelude
begin

text \<open>
  The data exchanged between the consensus core and its environment
  (\<open>src/crates/raftcore/src/types.rs\<close>).  Structs are records; their fields carry a prefix
  (\<open>rv_\<close>, \<open>rvr_\<close>, \<open>le_\<close>, \<open>ae_\<close>, \<open>aer_\<close>, \<open>sm_\<close>, \<open>is_\<close>, \<open>isr_\<close>) because Isabelle has one name space
  for the selectors of all records.  The variant \<open>Message::InstallSnapshot\<close> is called
  \<open>InstallSnapshotMsg\<close>, since \<open>Action\<close> has a variant of the same name.
\<close>

type_synonym NodeId = u64

datatype RaftState = Leader | Follower | Candidate

record RequestVoteRPC =
  rv_term :: u64
  rv_candidate_id :: u64
  rv_last_log_index :: u64
  rv_last_log_term :: u64

record RequestVoteResponseRPC =
  rvr_id :: u64
  rvr_term :: u64
  rvr_vote_granted :: bool

record LogEntry =
  le_term :: u64
  le_command :: bytes

record AppendEntriesRPC =
  ae_term :: u64
  ae_leader_id :: NodeId
  ae_prev_log_index :: u64
  ae_prev_log_term :: u64
  ae_entries :: "LogEntry list"
  ae_leader_commit :: u64

record AppendEntriesResponseRPC =
  aer_id :: u64
  aer_term :: u64
  aer_match_index :: u64
  aer_success :: bool
  aer_first_conflicting_index :: "u64 option"
  aer_first_conflicting_term :: "u64 option"

record SnapshotMetadata =
  sm_last_applied :: u64
  sm_last_applied_term :: u64

record InstallSnapshotRPC =
  is_term :: u64
  is_leader_id :: NodeId
  is_last_included_index :: u64
  is_last_included_term :: u64
  is_data :: bytes

record InstallSnapshotResponseRPC =
  isr_id :: NodeId
  isr_term :: u64
  isr_last_included_index :: u64

datatype Message =
    RequestVote RequestVoteRPC
  | RequestVoteResponse RequestVoteResponseRPC
  | AppendEntries AppendEntriesRPC
  | AppendEntriesResponse AppendEntriesResponseRPC
  | InstallSnapshotMsg InstallSnapshotRPC
  | InstallSnapshotResponse InstallSnapshotResponseRPC

datatype Action =
    SendMessage NodeId Message
  | ApplyToStateMachine u64 bytes
  | PersistMetadata u64 "NodeId option"
  | PersistLogEntries u64 "LogEntry list"
  | SendInstallSnapshot NodeId u64 u64 u64
  | InstallSnapshot u64 u64 bytes
  | ReadBarrierReady u64

text \<open>The term a message carries; every handler compares it with its own first.\<close>

primrec msg_term :: "Message \<Rightarrow> u64" where
  "msg_term (RequestVote r) = rv_term r"
| "msg_term (RequestVoteResponse r) = rvr_term r"
| "msg_term (AppendEntries r) = ae_term r"
| "msg_term (AppendEntriesResponse r) = aer_term r"
| "msg_term (InstallSnapshotMsg r) = is_term r"
| "msg_term (InstallSnapshotResponse r) = isr_term r"

end
