(* ===== verification/RaftLog.thy ===== *)
theory RaftLog
  imports RaftTypes
begin

text \<open>
  The state of \<open>RaftCore\<close> (\<open>src/crates/raftcore/src/lib.rs\<close>), its constructors, and the
  accessors of the log, whose in-memory part starts behind the snapshot: the entry of logical
  index \<open>i\<close> is \<open>log[i - last_included_index - 1]\<close>.  The theory relates the accessors to one
  abstract view, the partial map \<open>log_term_at\<close> on the interval from \<open>last_included_index\<close> to
  \<open>lli s\<close>, and shows when they panic.

  The random number generator of the \<open>rand\<close> crate is a parameter \<open>rng\<close>: the value drawn from a
  range, \<open>None\<close> when \<open>random_range\<close> panics.  An operation draws at most one value that stays
  observable, so one function per call loses nothing.
\<close>

section \<open>State\<close>

record RaftCore =
  node_id :: NodeId
  peers :: "NodeId list"
  state :: RaftState
  current_term :: u64
  voted_for :: "NodeId option"
  log :: "LogEntry list"
  commit_index :: u64
  last_applied :: u64
  current_leader :: "NodeId option"
  next_index :: "(NodeId \<times> u64) list"
  match_index :: "(NodeId \<times> u64) list"
  votes_received :: "NodeId set"
  last_included_index :: u64
  last_included_term :: u64
  ticks_since_last_heartbeat :: u64
  election_timeout_range :: "u64 \<times> u64"
  election_timeout :: u64
  heartbeat_interval :: u64
  append_entries_count :: u64
  next_read_barrier_id :: u64
  read_barriers :: "(u64 \<times> u64) list"

type_synonym rng = "u64 \<times> u64 \<Rightarrow> u64 option"

text \<open>What \<open>rand\<close> documents of \<open>random_range\<close>: a non-empty range yields one of its elements.\<close>

definition rng_ok :: "rng \<Rightarrow> bool" where
  "rng_ok rng \<longleftrightarrow> (\<forall>lo hi. lo < hi \<longrightarrow> (\<exists>v. rng (lo, hi) = Some v \<and> lo \<le> v \<and> v < hi))"

text \<open>A generator with this behaviour, which always returns the smallest element.\<close>

definition demo_rng :: rng where
  "demo_rng r = (if fst r < snd r then Some (fst r) else None)"

section \<open>Constructors\<close>

definition DEFAULT_HEARTBEAT :: u64 where
  "DEFAULT_HEARTBEAT = 5"

definition new :: "rng \<Rightarrow> NodeId \<Rightarrow> NodeId list \<Rightarrow> u64 option \<Rightarrow> u64 \<times> u64 \<Rightarrow> RaftCore option" where
  "new rng nid nodes hb erange = do {
     timeout \<leftarrow> rng erange;
     Some \<lparr> node_id = nid, peers = filter (\<lambda>x. x \<noteq> nid) nodes, state = Follower,
       current_term = 0, voted_for = None, log = [],
       commit_index = 0, last_applied = 0, current_leader = None,
       next_index = [], match_index = [], votes_received = {},
       last_included_index = 0, last_included_term = 0,
       ticks_since_last_heartbeat = 0, election_timeout_range = erange,
       election_timeout = timeout,
       heartbeat_interval = (case hb of None \<Rightarrow> DEFAULT_HEARTBEAT | Some h \<Rightarrow> h),
       append_entries_count = 0, next_read_barrier_id = 0, read_barriers = [] \<rparr> }"

definition restore ::
  "rng \<Rightarrow> NodeId \<Rightarrow> NodeId list \<Rightarrow> u64 option \<Rightarrow> u64 \<times> u64 \<Rightarrow> u64 \<Rightarrow> NodeId option \<Rightarrow>
   LogEntry list \<Rightarrow> RaftCore option" where
  "restore rng nid nodes hb erange cterm vote entries = do {
     s \<leftarrow> new rng nid nodes hb erange;
     Some (s\<lparr>current_term := cterm, voted_for := vote, log := entries\<rparr>) }"

definition restore_with_snapshot ::
  "rng \<Rightarrow> NodeId \<Rightarrow> NodeId list \<Rightarrow> u64 option \<Rightarrow> u64 \<times> u64 \<Rightarrow> u64 \<Rightarrow> NodeId option \<Rightarrow>
   LogEntry list \<Rightarrow> u64 \<Rightarrow> u64 \<Rightarrow> RaftCore option" where
  "restore_with_snapshot rng nid nodes hb erange cterm vote entries lii lit = do {
     s \<leftarrow> restore rng nid nodes hb erange cterm vote entries;
     Some (s\<lparr>last_included_index := lii, last_included_term := lit,
             commit_index := lii, last_applied := lii\<rparr>) }"

lemma demo_rng_ok: "rng_ok demo_rng"
  by (simp add: rng_ok_def demo_rng_def)

lemma new_Some:
  "new rng nid nodes hb erange = Some s \<Longrightarrow>
     node_id s = nid \<and> peers s = filter (\<lambda>x. x \<noteq> nid) nodes \<and> state s = Follower \<and>
     current_term s = 0 \<and> voted_for s = None \<and> log s = [] \<and> next_index s = [] \<and> match_index s = [] \<and>
     read_barriers s = [] \<and> commit_index s = 0 \<and> last_applied s = 0 \<and> last_included_index s = 0 \<and>
     last_included_term s = 0 \<and> election_timeout_range s = erange \<and> rng erange = Some (election_timeout s)"
  by (auto simp: new_def opt_bind)

section \<open>Accessors\<close>

definition is_leader :: "RaftCore \<Rightarrow> bool" where
  "is_leader s \<longleftrightarrow> state s = Leader"

definition last_log_index :: "RaftCore \<Rightarrow> u64 option" where
  "last_log_index s = u64_add (last_included_index s) (length (log s))"

definition log_entry_at :: "RaftCore \<Rightarrow> u64 \<Rightarrow> LogEntry option" where
  "log_entry_at s index =
     (if index \<le> last_included_index s then None
      else let adjusted_index = index - last_included_index s - 1
           in if length (log s) \<le> adjusted_index then None
              else Some (log s ! adjusted_index))"

definition log_term_at :: "RaftCore \<Rightarrow> u64 \<Rightarrow> u64 option" where
  "log_term_at s index =
     (if index < last_included_index s then None
      else if index = last_included_index s then Some (last_included_term s)
      else map_option le_term (log_entry_at s index))"

text \<open>\<open>None\<close> is the panic of the \<open>unwrap\<close> (or of the addition in \<open>last_log_index\<close>).\<close>

definition last_log_term :: "RaftCore \<Rightarrow> u64 option" where
  "last_log_term s = do { index \<leftarrow> last_log_index s; log_term_at s index }"

definition log_slice :: "RaftCore \<Rightarrow> u64 \<Rightarrow> u64 \<Rightarrow> LogEntry list option" where
  "log_slice s from to =
     (if from \<le> last_included_index s then Some []
      else do {
        f \<leftarrow> u64_sub from (last_included_index s);
        f \<leftarrow> u64_sub f 1;
        t \<leftarrow> u64_sub to (last_included_index s);
        t \<leftarrow> u64_sub t 1;
        vec_slice (log s) f (min t (length (log s))) })"

section \<open>The abstract view of the log\<close>

text \<open>The last logical index as a number, without the range check.\<close>

definition lli :: "RaftCore \<Rightarrow> nat" where
  "lli s = last_included_index s + length (log s)"

lemma last_log_index_eq: "lli s < u64_bound \<Longrightarrow> last_log_index s = Some (lli s)"
  by (simp add: last_log_index_def lli_def)

lemma last_log_index_Some [checked]:
  "last_log_index s = Some i \<longleftrightarrow> i = lli s \<and> lli s < u64_bound"
  by (auto simp: last_log_index_def lli_def checked)

lemma log_entry_at_Some:
  "log_entry_at s i = Some e \<longleftrightarrow>
     last_included_index s < i \<and> i \<le> lli s \<and> e = log s ! (i - last_included_index s - 1)"
  by (auto simp: log_entry_at_def lli_def Let_def split: if_splits)

lemma log_term_at_None:
  "log_term_at s i = None \<longleftrightarrow> i < last_included_index s \<or> lli s < i"
  by (auto simp: log_term_at_def log_entry_at_def lli_def Let_def)

lemma log_term_at_in_range:
  "last_included_index s \<le> i \<Longrightarrow> i \<le> lli s \<Longrightarrow> \<exists>t. log_term_at s i = Some t"
  using log_term_at_None [of s i] by (auto simp: not_less)

lemma log_term_at_base [simp]:
  "log_term_at s (last_included_index s) = Some (last_included_term s)"
  by (simp add: log_term_at_def)

lemma log_term_at_above:
  "last_included_index s < i \<Longrightarrow> i \<le> lli s \<Longrightarrow>
     log_term_at s i = Some (le_term (log s ! (i - last_included_index s - 1)))"
  by (auto simp: log_term_at_def log_entry_at_def lli_def Let_def)

text \<open>\<open>log_slice\<close> returns exactly when the interval is in order; the elements are those of the
  logical indices \<open>from\<close>, \<open>from + 1\<close>, \<dots> below \<open>to\<close>.\<close>

lemma log_slice_Some:
  "last_included_index s < from \<Longrightarrow>
   log_slice s from to = Some es \<longleftrightarrow>
     from \<le> to \<and> from \<le> lli s + 1 \<and>
     es = take (to - from) (drop (from - last_included_index s - 1) (log s))"
  by (auto simp: log_slice_def lli_def opt_bind checked min_def take_all_iff)

lemma log_slice_ok:
  assumes "last_included_index s < from" and "from \<le> to" and "from \<le> lli s + 1"
  shows "log_slice s from to =
           Some (take (to - from) (drop (from - last_included_index s - 1) (log s)))"
  using assms by (simp add: log_slice_Some)

lemma log_slice_behind [simp]: "from \<le> last_included_index s \<Longrightarrow> log_slice s from to = Some []"
  by (simp add: log_slice_def)

lemma log_slice_last:
  assumes "log s \<noteq> []"
  shows "log_slice s (lli s) (lli s + 1) = Some [last (log s)]"
proof -
  have "0 < length (log s)" using assms by simp
  then have "last_included_index s < lli s" by (simp add: lli_def)
  then have "log_slice s (lli s) (lli s + 1) =
      Some (take 1 (drop (length (log s) - 1) (log s)))"
    by (subst log_slice_ok) (auto simp: lli_def)
  also have "drop (length (log s) - 1) (log s) = [last (log s)]"
    using assms by (metis append_butlast_last_id append_eq_conv_conj length_butlast)
  finally show ?thesis by simp
qed

lemma log_slice_tail:
  assumes "last_included_index s < from" and "from \<le> lli s + 1"
  shows "log_slice s from (lli s + 1) = Some (drop (from - last_included_index s - 1) (log s))"
  using assms by (subst log_slice_ok) (auto simp: lli_def)

lemma last_log_term_Some [checked]:
  "last_log_term s = Some t \<longleftrightarrow>
     lli s < u64_bound \<and> t = (if log s = [] then last_included_term s else le_term (last (log s)))"
proof (cases "log s = []")
  case True
  then have "lli s = last_included_index s" by (simp add: lli_def)
  with True show ?thesis by (auto simp: last_log_term_def opt_bind checked)
next
  case False
  then have "last_included_index s < lli s" by (simp add: lli_def)
  then have "log_term_at s (lli s) = Some (le_term (last (log s)))"
    using False by (simp add: log_term_at_above last_conv_nth lli_def)
  with False show ?thesis by (auto simp: last_log_term_def opt_bind checked)
qed

lemma log_entry_at_moved:
  assumes "log s' = log s" and "last_included_index s < i" and "last_included_index s \<le> last_included_index s'"
  shows "log_entry_at s' (i + (last_included_index s' - last_included_index s)) = log_entry_at s i"
proof -
  let ?i = "i + (last_included_index s' - last_included_index s)"
  have "\<not> ?i \<le> last_included_index s'" "?i - last_included_index s' = i - last_included_index s"
    using assms(2,3) by linarith+
  with assms(1,2) show ?thesis by (simp add: log_entry_at_def Let_def)
qed

end
