(* ===== verification/RaftContract.thy ===== *)
theory RaftContract
  imports RaftLog
begin

text \<open>
  What every operation of the core promises its driver, as predicates on the state before, the
  emitted actions and the state after: the configuration is fixed, the term never decreases, a
  vote is never changed within a term, the metadata is on disk before anything is sent, and a
  granted vote is sent only to the candidate recorded in \<open>voted_for\<close>.  The locale
  \<open>core_operation\<close> collects the promises; its lemmas lift them to sequences of operations.
  Separately, \<open>disk_replay\<close> is the effect of the persistence actions on a log of indexed frames.
\<close>

section \<open>Metadata and votes\<close>

type_synonym meta = "u64 \<times> NodeId option"

definition metadata :: "RaftCore \<Rightarrow> meta" where
  "metadata s = (current_term s, voted_for s)"

text \<open>The order in which metadata may follow each other on disk: terms grow, and within a term a vote
  stays.\<close>

fun meta_le :: "meta \<Rightarrow> meta \<Rightarrow> bool" where
  "meta_le (t, v) (t', v') \<longleftrightarrow> t \<le> t' \<and> (t' = t \<longrightarrow> v \<noteq> None \<longrightarrow> v' = v)"

text \<open>\<open>durable_sends final m actions\<close>: starting with metadata \<open>m\<close> on disk, the metadata on disk is
  \<open>final\<close> at every send and at the end, and never goes back.\<close>

fun durable_sends :: "meta \<Rightarrow> meta \<Rightarrow> Action list \<Rightarrow> bool" where
  "durable_sends final m [] \<longleftrightarrow> m = final"
| "durable_sends final m (PersistMetadata t v # as) \<longleftrightarrow>
     meta_le m (t, v) \<and> durable_sends final (t, v) as"
| "durable_sends final m (SendMessage _ _ # as) \<longleftrightarrow> m = final \<and> durable_sends final m as"
| "durable_sends final m (SendInstallSnapshot _ _ _ _ # as) \<longleftrightarrow>
     m = final \<and> durable_sends final m as"
| "durable_sends final m (_ # as) \<longleftrightarrow> durable_sends final m as"

fun honest_vote :: "NodeId \<Rightarrow> meta \<Rightarrow> Action \<Rightarrow> bool" where
  "honest_vote nid m (SendMessage c (RequestVoteResponse r)) \<longleftrightarrow>
     (rvr_vote_granted r \<longrightarrow> rvr_id r = nid \<and> rvr_term r = fst m \<and> snd m = Some c)"
| "honest_vote nid m _ \<longleftrightarrow> True"

fun persists_metadata :: "Action \<Rightarrow> bool" where
  "persists_metadata (PersistMetadata _ _) = True"
| "persists_metadata _ = False"

definition same_config :: "RaftCore \<Rightarrow> RaftCore \<Rightarrow> bool" where
  "same_config s s' \<longleftrightarrow>
     node_id s' = node_id s \<and> peers s' = peers s \<and>
     election_timeout_range s' = election_timeout_range s \<and>
     heartbeat_interval s' = heartbeat_interval s"

definition vote_kept :: "RaftCore \<Rightarrow> RaftCore \<Rightarrow> bool" where
  "vote_kept s s' \<longleftrightarrow>
     current_term s \<le> current_term s' \<and>
     (current_term s' = current_term s \<longrightarrow> voted_for s \<noteq> None \<longrightarrow> voted_for s' = voted_for s)"

definition op_contract :: "RaftCore \<Rightarrow> Action list \<Rightarrow> RaftCore \<Rightarrow> bool" where
  "op_contract s as s' \<longleftrightarrow>
     same_config s s' \<and> vote_kept s s' \<and>
     durable_sends (metadata s') (metadata s) as \<and>
     list_all (honest_vote (node_id s) (metadata s')) as"

text \<open>Running a list of operations, collecting what they emit.\<close>

primrec run_ops ::
  "('i \<Rightarrow> 's \<Rightarrow> ('a list \<times> 's) option) \<Rightarrow> 'i list \<Rightarrow> 's \<Rightarrow> ('a list \<times> 's) option" where
  "run_ops f [] s = Some ([], s)"
| "run_ops f (i # is) s = do {
     (as, s1) \<leftarrow> f i s;
     (bs, s2) \<leftarrow> run_ops f is s1;
     Some (as @ bs, s2) }"

section \<open>The log on disk\<close>

text \<open>A log file is a list of frames, each with its index.  Storing entries cuts the file before the
  first frame of the start index, or appends when there is none.\<close>

type_synonym frames = "(u64 \<times> LogEntry) list"

definition store_frames :: "u64 \<Rightarrow> LogEntry list \<Rightarrow> frames \<Rightarrow> frames" where
  "store_frames start es d = takeWhile (\<lambda>f. fst f \<noteq> start) d @ enumerate start es"

fun disk_step :: "Action \<Rightarrow> frames \<Rightarrow> frames" where
  "disk_step (PersistLogEntries start es) d = store_frames start es d"
| "disk_step (InstallSnapshot _ _ _) d = []"
| "disk_step _ d = d"

definition disk_replay :: "Action list \<Rightarrow> frames \<Rightarrow> frames" where
  "disk_replay as d = fold disk_step as d"

text \<open>The file a node's log is recovered from: one frame per entry, numbered from the first index
  behind the snapshot.\<close>

definition log_frames :: "RaftCore \<Rightarrow> frames" where
  "log_frames s = enumerate (last_included_index s + 1) (log s)"

section \<open>Facts about the contract\<close>

lemma durable_sends_append:
  "durable_sends m m0 as \<Longrightarrow> list_all (\<lambda>a. \<not> persists_metadata a) bs \<Longrightarrow>
     durable_sends m m0 (as @ bs)"
proof (induction m m0 as rule: durable_sends.induct)
  case (1 final m)
  then show ?case
  proof (induction bs)
    case (Cons b bs)
    then show ?case by (cases b) auto
  qed simp
qed auto

lemma durable_sends_silent:
  "list_all (\<lambda>a. \<not> persists_metadata a) bs \<Longrightarrow> durable_sends m m bs"
  using durable_sends_append [of m m "[]" bs] by simp

lemma meta_le_refl [simp]: "meta_le m m"
  by (cases m) simp

lemma meta_le_trans: "meta_le a b \<Longrightarrow> meta_le b c \<Longrightarrow> meta_le a c"
  by (cases a; cases b; cases c) auto

lemma meta_le_antisym: "meta_le a b \<Longrightarrow> meta_le b a \<Longrightarrow> a = b"
  by (cases a; cases b) auto

lemma meta_le_vote_kept: "meta_le (metadata s) (metadata s') \<longleftrightarrow> vote_kept s s'"
  by (simp add: metadata_def vote_kept_def)

text \<open>The metadata on disk after some actions.\<close>

fun disk_meta :: "meta \<Rightarrow> Action list \<Rightarrow> meta" where
  "disk_meta m [] = m"
| "disk_meta m (PersistMetadata t v # as) = disk_meta (t, v) as"
| "disk_meta m (_ # as) = disk_meta m as"

lemma durable_sends_le: "durable_sends final m as \<Longrightarrow> meta_le m final"
  by (induction final m as rule: durable_sends.induct) (auto intro: meta_le_trans)

lemma durable_sends_final: "durable_sends final m as \<Longrightarrow> disk_meta m as = final"
  by (induction final m as rule: durable_sends.induct) auto

text \<open>A crash in the middle: the metadata on disk lies between the old and the new one, and is the new
  one as soon as anything has been sent.\<close>

fun is_send :: "Action \<Rightarrow> bool" where
  "is_send (SendMessage _ _) = True"
| "is_send (SendInstallSnapshot _ _ _ _) = True"
| "is_send _ = False"

lemma durable_sends_prefix:
  assumes "durable_sends final m as"
  shows "meta_le m (disk_meta m (take k as)) \<and> meta_le (disk_meta m (take k as)) final \<and>
         (list_ex is_send (take k as) \<longrightarrow> disk_meta m (take k as) = final)"
  using assms
proof (induction as arbitrary: m k)
  case (Cons a as)
  show ?case
  proof (cases k)
    case 0
    with durable_sends_le [OF Cons.prems] show ?thesis by simp
  next
    case (Suc j)
    show ?thesis
    proof (cases "is_send a")
      case True
      with Cons.prems have m: "m = final" and d: "durable_sends final final as" by (cases a; auto)+
      from True have "disk_meta m (a # take j as) = disk_meta m (take j as)" by (cases a) auto
      with m Cons.IH [OF d, of j] Suc show ?thesis by (auto intro: meta_le_antisym)
    next
      case False
      show ?thesis
      proof (cases "\<exists>t v. a = PersistMetadata t v")
        case True
        then obtain t v where a: "a = PersistMetadata t v" by blast
        with Cons.prems Cons.IH [of "(t, v)" j] Suc show ?thesis by (auto intro: meta_le_trans)
      next
        case no: False
        with False Cons.prems Cons.IH [of m j] Suc show ?thesis by (cases a) simp_all
      qed
    qed
  qed
qed simp

lemma vote_kept_refl [simp]: "vote_kept s s"
  by (simp add: vote_kept_def)

lemma vote_kept_trans: "vote_kept s t \<Longrightarrow> vote_kept t u \<Longrightarrow> vote_kept s u"
  by (auto simp: vote_kept_def)

lemma same_config_refl [simp]: "same_config s s"
  by (simp add: same_config_def)

lemma same_config_trans: "same_config s t \<Longrightarrow> same_config t u \<Longrightarrow> same_config s u"
  by (simp add: same_config_def)

text \<open>An operation that leaves the metadata and the configuration alone, persists no metadata and
  sends no granted vote keeps the contract; and so does what it does after one that does.\<close>

definition quiet :: "Action \<Rightarrow> bool" where
  "quiet a \<longleftrightarrow> \<not> persists_metadata a \<and> (\<forall>c r. a \<noteq> SendMessage c (RequestVoteResponse r))"

lemma quiet_honest: "quiet a \<Longrightarrow> honest_vote nid m a"
  by (cases "(nid, m, a)" rule: honest_vote.cases) (auto simp: quiet_def)

lemma op_contract_quiet:
  assumes "op_contract s as s1" and "list_all quiet bs"
    and "same_config s1 s2" and "metadata s2 = metadata s1"
  shows "op_contract s (as @ bs) s2"
proof -
  have "vote_kept s s2"
    using assms(1,4) by (simp add: op_contract_def vote_kept_def metadata_def)
  moreover have "durable_sends (metadata s2) (metadata s) (as @ bs)"
    using assms by (auto simp: op_contract_def list_all_iff quiet_def intro!: durable_sends_append)
  ultimately show ?thesis
    using assms by (auto simp: op_contract_def list_all_iff intro: quiet_honest same_config_trans)
qed

lemma op_contract_refl [simp]: "op_contract s [] s"
  by (simp add: op_contract_def)

lemma op_contract_silent:
  assumes "list_all quiet as" and "same_config s s'" and "metadata s' = metadata s"
  shows "op_contract s as s'"
  using op_contract_quiet [OF op_contract_refl assms] by simp

section \<open>Frames\<close>

lemma disk_replay_simps [simp]:
  "disk_replay [] d = d"
  "disk_replay (a # as) d = disk_replay as (disk_step a d)"
  "disk_replay (as @ bs) d = disk_replay bs (disk_replay as d)"
  by (simp_all add: disk_replay_def)

fun touches_log :: "Action \<Rightarrow> bool" where
  "touches_log (PersistLogEntries _ _) = True"
| "touches_log (InstallSnapshot _ _ _) = True"
| "touches_log _ = False"

lemma disk_replay_untouched: "list_all (\<lambda>a. \<not> touches_log a) as \<Longrightarrow> disk_replay as d = d"
proof (induction as arbitrary: d)
  case (Cons a as)
  then show ?case by (cases a) auto
qed simp

lemma takeWhile_enumerate:
  "takeWhile (\<lambda>f. fst f \<noteq> n + k) (enumerate n xs) = enumerate n (take k xs)"
proof (induction xs arbitrary: n k)
  case (Cons x xs)
  show ?case
  proof (cases k)
    case (Suc j)
    then have "n + k = Suc n + j" by simp
    with Suc Cons.IH [of "Suc n" j] show ?thesis by simp
  qed simp
qed simp

lemma enumerate_append: "enumerate n (xs @ ys) = enumerate n xs @ enumerate (n + length xs) ys"
  by (induction xs arbitrary: n) auto

text \<open>Storing the tail of a log from an index on turns the frames of the old log into the frames of
  the new one, when the two agree below that index.\<close>

lemma store_frames_tail:
  assumes "take k xs = take k ys" and "k \<le> length ys"
  shows "store_frames (n + k) (drop k ys) (enumerate n xs) = enumerate n ys"
proof -
  have "enumerate n ys = enumerate n (take k ys) @ enumerate (n + k) (drop k ys)"
    using assms(2) enumerate_append [of n "take k ys" "drop k ys"] by simp
  then show ?thesis
    using assms(1) by (simp add: store_frames_def takeWhile_enumerate)
qed

lemma store_frames_push:
  "store_frames (n + length xs) [x] (enumerate n xs) = enumerate n (xs @ [x])"
  using store_frames_tail [of "length xs" xs "xs @ [x]" n] by simp

section \<open>Sequences of operations\<close>

locale core_operation =
  fixes op :: "'i \<Rightarrow> RaftCore \<Rightarrow> (Action list \<times> RaftCore) option"
  assumes contract: "op i s = Some (as, s') \<Longrightarrow> op_contract s as s'"
begin

lemma run_config: "run_ops op is s = Some (as, s') \<Longrightarrow> same_config s s'"
proof (induction "is" arbitrary: s as)
  case (Cons i "is")
  then obtain bs t cs where "op i s = Some (bs, t)" "run_ops op is t = Some (cs, s')"
    by (auto simp: opt_bind)
  with Cons.IH contract show ?case by (meson op_contract_def same_config_trans)
qed simp

lemma run_vote_kept: "run_ops op is s = Some (as, s') \<Longrightarrow> vote_kept s s'"
proof (induction "is" arbitrary: s as)
  case (Cons i "is")
  then obtain bs t cs where "op i s = Some (bs, t)" "run_ops op is t = Some (cs, s')"
    by (auto simp: opt_bind)
  with Cons.IH contract show ?case by (meson op_contract_def vote_kept_trans)
qed simp

text \<open>Every granted vote of a run carries the node's identity and a term the run passes through, and
  when that term is the first one, a vote recorded before the run names the same candidate.\<close>

lemma run_granted:
  assumes "run_ops op is s = Some (as, s')"
    and "SendMessage c (RequestVoteResponse r) \<in> set as" and "rvr_vote_granted r"
  shows "rvr_id r = node_id s \<and> current_term s \<le> rvr_term r \<and> rvr_term r \<le> current_term s' \<and>
     (rvr_term r = current_term s \<longrightarrow> voted_for s = None \<or> voted_for s = Some c) \<and>
     (rvr_term r = current_term s' \<longrightarrow> voted_for s' = Some c)"
  using assms
proof (induction "is" arbitrary: s as)
  case (Cons i "is")
  then obtain bs t cs where op: "op i s = Some (bs, t)" and run: "run_ops op is t = Some (cs, s')"
    and as: "as = bs @ cs"
    by (auto simp: opt_bind)
  from op have c: "op_contract s bs t" by (rule contract)
  from run have k: "vote_kept t s'" by (rule run_vote_kept)
  show ?case
  proof (cases "SendMessage c (RequestVoteResponse r) \<in> set bs")
    case True
    with c Cons.prems(3) have "honest_vote (node_id s) (metadata t) (SendMessage c (RequestVoteResponse r))"
      by (auto simp: op_contract_def list_all_iff)
    with c k Cons.prems(3) show ?thesis
      by (auto simp: op_contract_def vote_kept_def metadata_def)
  next
    case False
    with as Cons.prems(2) have "SendMessage c (RequestVoteResponse r) \<in> set cs" by simp
    from Cons.IH [OF run this Cons.prems(3)] c show ?thesis
      by (auto simp: op_contract_def vote_kept_def same_config_def)
  qed
qed simp

text \<open>A node votes for at most one candidate per term, over any sequence of operations.\<close>

lemma run_one_vote_per_term:
  assumes "run_ops op is s = Some (as, s')"
    and "SendMessage c (RequestVoteResponse r) \<in> set as" "rvr_vote_granted r"
    and "SendMessage c' (RequestVoteResponse r') \<in> set as" "rvr_vote_granted r'"
    and "rvr_term r = rvr_term r'"
  shows "c = c'"
  using assms
proof (induction "is" arbitrary: s as)
  case (Cons i "is")
  then obtain bs t cs where op: "op i s = Some (bs, t)" and run: "run_ops op is t = Some (cs, s')"
    and as: "as = bs @ cs"
    by (auto simp: opt_bind)
  from op have "op_contract s bs t" by (rule contract)
  then have early: "rvr_term q = current_term t \<and> voted_for t = Some d"
    if "SendMessage d (RequestVoteResponse q) \<in> set bs" "rvr_vote_granted q" for d q
    using that by (fastforce simp: op_contract_def list_all_iff metadata_def)
  note late = run_granted [OF run]
  from as Cons.prems(2,4) consider
      "SendMessage c (RequestVoteResponse r) \<in> set bs" "SendMessage c' (RequestVoteResponse r') \<in> set bs"
    | "SendMessage c (RequestVoteResponse r) \<in> set bs" "SendMessage c' (RequestVoteResponse r') \<in> set cs"
    | "SendMessage c (RequestVoteResponse r) \<in> set cs" "SendMessage c' (RequestVoteResponse r') \<in> set bs"
    | "SendMessage c (RequestVoteResponse r) \<in> set cs" "SendMessage c' (RequestVoteResponse r') \<in> set cs"
    by auto
  then show ?case
  proof cases
    case 1
    with early [of c r] early [of c' r'] Cons.prems(3,5) show ?thesis by simp
  next
    case 2
    with early [of c r] late [of c' r'] Cons.prems(3,5,6) show ?thesis by auto
  next
    case 3
    with early [of c' r'] late [of c r] Cons.prems(3,5,6) show ?thesis by auto
  next
    case 4
    with Cons.IH [OF run] Cons.prems(3,5,6) show ?thesis by blast
  qed
qed simp

end

end
