(* ===== verification/RaftSend.thy ===== *)
theory RaftSend
  imports RaftContract
begin

text \<open>
  The sending side of the core (\<open>src/crates/raftcore/src/lib.rs\<close>): the AppendEntries request or
  the snapshot announcement for one peer, the broadcast, the leader's first entry
  (\<open>initialize_leader_state\<close>), \<open>propose\<close> and \<open>heartbeat\<close>.
\<close>

section \<open>Requests for a peer\<close>

definition install_snapshot_for_peer :: "RaftCore \<Rightarrow> NodeId \<Rightarrow> Action" where
  "install_snapshot_for_peer s peer =
     SendInstallSnapshot peer (current_term s) (last_included_index s) (last_included_term s)"

definition build_append_entries_for_peer :: "RaftCore \<Rightarrow> NodeId \<Rightarrow> Action option" where
  "build_append_entries_for_peer s peer = do {
     default \<leftarrow> last_log_index s;
     let peer_next_index = (case map_of (next_index s) peer of Some n \<Rightarrow> n | None \<Rightarrow> default);
     let prev_log_index = (if 0 < peer_next_index then peer_next_index - 1 else 0);
     (case log_term_at s prev_log_index of
        None \<Rightarrow> Some (install_snapshot_for_peer s peer)
      | Some prev_log_term \<Rightarrow> do {
          lidx \<leftarrow> last_log_index s;
          to \<leftarrow> u64_add lidx 1;
          entries \<leftarrow> log_slice s peer_next_index to;
          Some (SendMessage peer (AppendEntries
            \<lparr> ae_term = current_term s, ae_leader_id = node_id s,
              ae_prev_log_index = prev_log_index, ae_prev_log_term = prev_log_term,
              ae_entries = entries, ae_leader_commit = commit_index s \<rparr>)) }) }"

definition append_entries :: "RaftCore \<Rightarrow> Action list option" where
  "append_entries s = map_opt (build_append_entries_for_peer s) (peers s)"

section \<open>Leader operations\<close>

text \<open>The loop \<open>for id in &self.peers\<close>; \<open>next\<close> is \<open>self.last_log_index() + 1\<close>, which the loop
  body does not change.\<close>

primrec init_peers :: "u64 \<Rightarrow> NodeId list \<Rightarrow> RaftCore \<Rightarrow> RaftCore" where
  "init_peers nxt [] s = s"
| "init_peers nxt (p # ps) s =
     init_peers nxt ps (s\<lparr>next_index := AList.update p nxt (next_index s),
                          match_index := AList.update p 0 (match_index s)\<rparr>)"

definition initialize_leader_state :: "RaftCore \<Rightarrow> (Action \<times> RaftCore) option" where
  "initialize_leader_state s = do {
     let s1 = s\<lparr>log := log s @ [\<lparr>le_term = current_term s, le_command = []\<rparr>]\<rparr>;
     lidx \<leftarrow> last_log_index s1;
     nxt \<leftarrow> u64_add lidx 1;
     let s2 = init_peers nxt (peers s1) s1;
     entries \<leftarrow> log_slice s2 lidx nxt;
     Some (PersistLogEntries lidx entries, s2) }"

text \<open>The outer option is the panic, the inner one the \<open>Option\<close> that \<open>propose\<close> returns.\<close>

definition propose :: "bytes \<Rightarrow> RaftCore \<Rightarrow> (Action list option \<times> RaftCore) option" where
  "propose command s =
     (if state s \<noteq> Leader then Some (None, s)
      else do {
        let s1 = s\<lparr>log := log s @ [\<lparr>le_term = current_term s, le_command = command\<rparr>],
                   ticks_since_last_heartbeat := 0\<rparr>;
        lidx \<leftarrow> last_log_index s1;
        to \<leftarrow> u64_add lidx 1;
        entries \<leftarrow> log_slice s1 lidx to;
        msgs \<leftarrow> append_entries s1;
        Some (Some (PersistLogEntries lidx entries # msgs), s1) })"

definition heartbeat :: "RaftCore \<Rightarrow> (Action list \<times> RaftCore) option" where
  "heartbeat s =
     (if heartbeat_interval s \<le> ticks_since_last_heartbeat s then do {
        actions \<leftarrow> append_entries s;
        Some (actions, s\<lparr>ticks_since_last_heartbeat := 0\<rparr>) }
      else Some ([], s))"

section \<open>What is sent\<close>

text \<open>The request for a peer: everything behind the entry at \<open>prev_log_index\<close>, up to the end of the
  log, or the announcement of a snapshot when that entry is no longer in the log.\<close>

lemma build_append_entries_cases:
  assumes "build_append_entries_for_peer s p = Some a"
  obtains (snapshot) "a = install_snapshot_for_peer s p"
    | (request) r where "a = SendMessage p (AppendEntries r)"
        "ae_term r = current_term s" "ae_leader_id r = node_id s"
        "ae_leader_commit r = commit_index s"
        "log_term_at s (ae_prev_log_index r) = Some (ae_prev_log_term r)"
  using assms
  by (auto simp: build_append_entries_for_peer_def opt_bind Let_def split: option.splits)

lemma build_append_entries_quiet:
  "build_append_entries_for_peer s p = Some a \<Longrightarrow> quiet a \<and> \<not> touches_log a"
  by (erule build_append_entries_cases) (auto simp: quiet_def install_snapshot_for_peer_def)

lemma append_entries_quiet: "append_entries s = Some as \<Longrightarrow> list_all quiet as"
  unfolding append_entries_def
  by (erule map_opt_all) (simp add: build_append_entries_quiet)

lemma append_entries_untouched: "append_entries s = Some as \<Longrightarrow> list_all (\<lambda>a. \<not> touches_log a) as"
  unfolding append_entries_def
  by (erule map_opt_all) (simp add: build_append_entries_quiet)

text \<open>A leader whose \<open>next_index\<close> entries do not run past its log can always build its requests.\<close>

definition next_bounded :: "RaftCore \<Rightarrow> bool" where
  "next_bounded s \<longleftrightarrow> list_all (\<lambda>e. snd e \<le> lli s + 1) (next_index s)"

lemma next_bounded_lookup:
  "next_bounded s \<Longrightarrow> map_of (next_index s) p = Some n \<Longrightarrow> n \<le> lli s + 1"
  by (auto simp: next_bounded_def list_all_iff dest!: map_of_SomeD)

lemma build_append_entries_total:
  assumes "lli s + 1 < u64_bound" and "next_bounded s"
  shows "\<exists>a. build_append_entries_for_peer s p = Some a"
proof -
  define n where "n = (case map_of (next_index s) p of Some n \<Rightarrow> n | None \<Rightarrow> lli s)"
  have "n \<le> lli s + 1"
    using next_bounded_lookup [OF assms(2), of p] by (auto simp: n_def split: option.splits)
  then have "\<exists>es. log_slice s n (lli s + 1) = Some es"
    by (cases "n \<le> last_included_index s") (auto simp: log_slice_Some)
  with assms(1) show ?thesis
    by (auto simp: build_append_entries_for_peer_def last_log_index_eq Let_def n_def
        split: option.splits)
qed

lemma append_entries_total:
  assumes "lli s + 1 < u64_bound" and "next_bounded s"
  shows "\<exists>as. append_entries s = Some as"
  unfolding append_entries_def
  by (rule map_opt_total) (rule build_append_entries_total [OF assms])

section \<open>The leader's first entry\<close>

lemma init_peers_frame:
  "init_peers nxt ps s = s\<lparr>next_index := next_index (init_peers nxt ps s),
                           match_index := match_index (init_peers nxt ps s)\<rparr>"
proof (induction ps arbitrary: s)
  case (Cons p ps)
  show ?case by (subst (1) init_peers.simps, subst Cons.IH) simp
qed simp

lemma init_peers_sel [simp]:
  "node_id (init_peers nxt ps s) = node_id s" "peers (init_peers nxt ps s) = peers s"
  "state (init_peers nxt ps s) = state s" "current_term (init_peers nxt ps s) = current_term s"
  "voted_for (init_peers nxt ps s) = voted_for s" "log (init_peers nxt ps s) = log s"
  "commit_index (init_peers nxt ps s) = commit_index s"
  "last_applied (init_peers nxt ps s) = last_applied s"
  "current_leader (init_peers nxt ps s) = current_leader s"
  "votes_received (init_peers nxt ps s) = votes_received s"
  "last_included_index (init_peers nxt ps s) = last_included_index s"
  "last_included_term (init_peers nxt ps s) = last_included_term s"
  "election_timeout_range (init_peers nxt ps s) = election_timeout_range s"
  "heartbeat_interval (init_peers nxt ps s) = heartbeat_interval s"
  "append_entries_count (init_peers nxt ps s) = append_entries_count s"
  "next_read_barrier_id (init_peers nxt ps s) = next_read_barrier_id s"
  "read_barriers (init_peers nxt ps s) = read_barriers s"
  by (subst init_peers_frame, simp)+

lemma init_peers_next:
  "map_of (next_index (init_peers nxt ps s)) p =
     (if p \<in> set ps then Some nxt else map_of (next_index s) p)"
  by (induction ps arbitrary: s) (auto simp: update_conv')

lemma init_peers_match:
  "map_of (match_index (init_peers nxt ps s)) p =
     (if p \<in> set ps then Some 0 else map_of (match_index s) p)"
  by (induction ps arbitrary: s) (auto simp: update_conv')

lemma init_peers_distinct:
  assumes "distinct (map fst (next_index s))" "distinct (map fst (match_index s))"
  shows "distinct (map fst (next_index (init_peers nxt ps s))) \<and>
         distinct (map fst (match_index (init_peers nxt ps s)))"
  using assms by (induction ps arbitrary: s) (auto simp: distinct_update)

lemma lli_cong:
  "last_included_index s' = last_included_index s \<Longrightarrow> length (log s') = length (log s) \<Longrightarrow>
     lli s' = lli s"
  by (simp add: lli_def)

lemma lli_push: "lli (s\<lparr>log := log s @ [e]\<rparr>) = lli s + 1"
  by (simp add: lli_def)

lemma initialize_leader_state_Some:
  assumes "initialize_leader_state s = Some (a, s')"
  shows "a = PersistLogEntries (lli s + 1) [\<lparr>le_term = current_term s, le_command = []\<rparr>]"
    and "s' = init_peers (lli s + 2) (peers s)
                (s\<lparr>log := log s @ [\<lparr>le_term = current_term s, le_command = []\<rparr>]\<rparr>)"
proof -
  let ?s1 = "s\<lparr>log := log s @ [\<lparr>le_term = current_term s, le_command = []\<rparr>]\<rparr>"
  let ?s2 = "init_peers (lli s + 2) (peers s) ?s1"
  have "log_slice ?s2 (lli s + 1) (lli s + 2) = Some [\<lparr>le_term = current_term s, le_command = []\<rparr>]"
    using log_slice_last [of ?s2] by (simp add: lli_def)
  with assms show "a = PersistLogEntries (lli s + 1) [\<lparr>le_term = current_term s, le_command = []\<rparr>]"
    and "s' = ?s2"
    by (auto simp: initialize_leader_state_def opt_bind checked Let_def lli_push)
qed

lemma initialize_leader_state_ok:
  assumes "lli s + 2 < u64_bound"
  shows "\<exists>a s'. initialize_leader_state s = Some (a, s')"
proof -
  let ?s1 = "s\<lparr>log := log s @ [\<lparr>le_term = current_term s, le_command = []\<rparr>]\<rparr>"
  let ?s2 = "init_peers (lli s + 2) (peers s) ?s1"
  have "log_slice ?s2 (lli s + 1) (lli s + 2) = Some [\<lparr>le_term = current_term s, le_command = []\<rparr>]"
    using log_slice_last [of ?s2] by (simp add: lli_def)
  with assms show ?thesis
    by (simp add: initialize_leader_state_def last_log_index_eq lli_push)
qed

section \<open>Proposals and heartbeats\<close>

lemma propose_Some:
  assumes "propose command s = Some (Some as, s')"
  shows "state s = Leader"
    and "s' = s\<lparr>log := log s @ [\<lparr>le_term = current_term s, le_command = command\<rparr>],
               ticks_since_last_heartbeat := 0\<rparr>"
    and "\<exists>msgs. append_entries s' = Some msgs \<and>
           as = PersistLogEntries (lli s + 1) [\<lparr>le_term = current_term s, le_command = command\<rparr>] # msgs"
proof -
  let ?e = "\<lparr>le_term = current_term s, le_command = command\<rparr>"
  let ?s1 = "s\<lparr>log := log s @ [?e], ticks_since_last_heartbeat := 0\<rparr>"
  have l: "lli ?s1 = lli s + 1" by (simp add: lli_def)
  have "log_slice ?s1 (lli s + 1) (lli s + 2) = Some [?e]"
    using log_slice_last [of ?s1] l by simp
  with assms l show "state s = Leader" and "s' = ?s1"
    and "\<exists>msgs. append_entries s' = Some msgs \<and> as = PersistLogEntries (lli s + 1) [?e] # msgs"
    by (auto simp: propose_def opt_bind checked Let_def split: if_splits)
qed

lemma propose_contract: "propose command s = Some (oas, s') \<Longrightarrow> op_contract s (opt_list oas) s'"
proof (cases oas)
  case None
  moreover assume "propose command s = Some (oas, s')"
  ultimately show ?thesis by (auto simp: propose_def opt_bind Let_def split: if_splits)
next
  case (Some as)
  assume "propose command s = Some (oas, s')"
  with Some have p: "propose command s = Some (Some as, s')" by simp
  note r = propose_Some [OF p]
  from r(3) obtain msgs where "append_entries s' = Some msgs"
    and as: "as = PersistLogEntries (lli s + 1) [\<lparr>le_term = current_term s, le_command = command\<rparr>] # msgs"
    by blast
  then have "list_all quiet as" by (auto simp: append_entries_quiet quiet_def)
  moreover have "same_config s s'" "metadata s' = metadata s"
    by (simp_all add: r(2) same_config_def metadata_def)
  ultimately show ?thesis using Some by (simp add: op_contract_silent)
qed

lemma heartbeat_Some:
  assumes "heartbeat s = Some (as, s')"
  shows "(as = [] \<and> s' = s) \<or>
         (append_entries s = Some as \<and> s' = s\<lparr>ticks_since_last_heartbeat := 0\<rparr>)"
proof (cases "heartbeat_interval s \<le> ticks_since_last_heartbeat s")
  case True
  with assms show ?thesis by (simp add: heartbeat_def opt_bind)
next
  case False
  with assms show ?thesis by (simp add: heartbeat_def)
qed

lemma heartbeat_contract: "heartbeat s = Some (as, s') \<Longrightarrow> op_contract s as s'"
  using heartbeat_Some [of s as s']
  by (auto intro!: op_contract_silent simp: append_entries_quiet same_config_def metadata_def)

section \<open>The operations of a leader do not panic\<close>

lemma heartbeat_total:
  assumes "lli s + 1 < u64_bound" and "next_bounded s"
  shows "\<exists>as s'. heartbeat s = Some (as, s')"
  using append_entries_total [OF assms] by (auto simp: heartbeat_def)

lemma propose_total:
  assumes "lli s + 2 < u64_bound" and "state s = Leader \<longrightarrow> next_bounded s"
  shows "\<exists>r s'. propose command s = Some (r, s')"
proof (cases "state s = Leader")
  case True
  let ?s1 = "s\<lparr>log := log s @ [\<lparr>le_term = current_term s, le_command = command\<rparr>],
               ticks_since_last_heartbeat := 0\<rparr>"
  have l: "lli ?s1 = lli s + 1" by (simp add: lli_def)
  have "next_bounded ?s1" using True assms(2) l by (auto simp: next_bounded_def list_all_iff)
  with l assms(1) obtain msgs where m: "append_entries ?s1 = Some msgs"
    using append_entries_total [of ?s1] by auto
  have "log_slice ?s1 (lli s + 1) (lli s + 2) = Some [last (log ?s1)]"
    using log_slice_last [of ?s1] l by simp
  with True m l assms(1) show ?thesis by (simp add: propose_def last_log_index_eq Let_def)
next
  case False
  then show ?thesis by (simp add: propose_def)
qed

text \<open>After \<open>initialize_leader_state\<close> every follower is assumed to hold nothing and is sent the
  leader's new entry first.\<close>

definition keyed :: "RaftCore \<Rightarrow> bool" where
  "keyed s \<longleftrightarrow>
     distinct (map fst (next_index s)) \<and> distinct (map fst (match_index s)) \<and>
     fst ` set (next_index s) \<subseteq> set (peers s) \<and> fst ` set (match_index s) \<subseteq> set (peers s)"

lemma init_peers_entries:
  fixes nxt :: u64
  assumes "keyed s" and "peers s = ps"
  defines "s' \<equiv> init_peers nxt ps s"
  shows "keyed s'" and "list_all (\<lambda>e. snd e = nxt) (next_index s')"
    and "list_all (\<lambda>e. snd e = 0) (match_index s')"
proof -
  have d: "distinct (map fst (next_index s'))" "distinct (map fst (match_index s'))"
    using init_peers_distinct [of s nxt ps] assms(1) by (auto simp: s'_def keyed_def)
  have n: "(k, v) \<in> set (next_index s') \<Longrightarrow> k \<in> set ps \<and> v = nxt" for k v
  proof -
    assume "(k, v) \<in> set (next_index s')"
    with d have m: "map_of (next_index s') k = Some v" by simp
    moreover from m have "k \<in> set ps"
      using assms(1,2) by (auto simp: s'_def init_peers_next keyed_def split: if_splits dest!: map_of_SomeD)
    ultimately show "k \<in> set ps \<and> v = nxt" by (simp add: s'_def init_peers_next)
  qed
  have "(k, v) \<in> set (match_index s') \<Longrightarrow> k \<in> set ps \<and> v = 0" for k v
  proof -
    assume "(k, v) \<in> set (match_index s')"
    with d have m: "map_of (match_index s') k = Some v" by simp
    moreover from m have "k \<in> set ps"
      using assms(1,2) by (auto simp: s'_def init_peers_match keyed_def split: if_splits dest!: map_of_SomeD)
    ultimately show "k \<in> set ps \<and> v = 0" by (simp add: s'_def init_peers_match)
  qed
  with n d assms(2) show "keyed s'" and "list_all (\<lambda>e. snd e = nxt) (next_index s')"
    and "list_all (\<lambda>e. snd e = 0) (match_index s')"
    by (auto simp: keyed_def list_all_iff s'_def)
qed

end
