(* ===== verification/RaftElection.thy ===== *)
theory RaftElection
  imports RaftSend
begin

text \<open>
  Elections (\<open>src/crates/raftcore/src/lib.rs\<close>): the tick counter, the election timeout, stepping
  down on a higher term, granting votes and counting them.
\<close>

section \<open>Timers and terms\<close>

definition reset_election_timeout :: "rng \<Rightarrow> RaftCore \<Rightarrow> RaftCore option" where
  "reset_election_timeout rng s = do {
     t \<leftarrow> rng (election_timeout_range s);
     Some (s\<lparr>ticks_since_last_heartbeat := 0, election_timeout := t\<rparr>) }"

text \<open>The method \<open>election_timeout\<close> shares its name with a field of the struct.\<close>

definition election_timeout_check :: "rng \<Rightarrow> RaftCore \<Rightarrow> (Action list \<times> RaftCore) option" where
  "election_timeout_check rng s =
     (if election_timeout s \<le> ticks_since_last_heartbeat s then do {
        t \<leftarrow> u64_add (current_term s) 1;
        let s1 = s\<lparr>current_term := t, state := Candidate, current_leader := None,
                   voted_for := Some (node_id s), votes_received := {node_id s}\<rparr>;
        s2 \<leftarrow> reset_election_timeout rng s1;
        lidx \<leftarrow> last_log_index s2;
        last_term \<leftarrow> last_log_term s2;
        let msg = RequestVote \<lparr> rv_term = current_term s2, rv_candidate_id = node_id s2,
                                rv_last_log_index = lidx, rv_last_log_term = last_term \<rparr>;
        Some (PersistMetadata (current_term s2) (voted_for s2) #
                map (\<lambda>p. SendMessage p msg) (peers s2), s2) }
      else Some ([], s))"

definition tick :: "rng \<Rightarrow> RaftCore \<Rightarrow> (Action list \<times> RaftCore) option" where
  "tick rng s = do {
     n \<leftarrow> u64_add (ticks_since_last_heartbeat s) 1;
     let s1 = s\<lparr>ticks_since_last_heartbeat := n\<rparr>;
     (case state s1 of
        Leader \<Rightarrow> heartbeat s1
      | Candidate \<Rightarrow> election_timeout_check rng s1
      | Follower \<Rightarrow> election_timeout_check rng s1) }"

definition check_msg_term ::
  "rng \<Rightarrow> u64 \<Rightarrow> RaftCore \<Rightarrow> (Action list option \<times> RaftCore) option" where
  "check_msg_term rng t s =
     (if current_term s < t then do {
        s1 \<leftarrow> reset_election_timeout rng
                (s\<lparr>current_term := t, state := Follower, voted_for := None\<rparr>);
        let s2 = s1\<lparr>read_barriers := [], current_leader := None\<rparr>;
        Some (Some [PersistMetadata (current_term s2) (voted_for s2)], s2) }
      else Some (None, s))"

section \<open>Votes\<close>

definition vote_response :: "RaftCore \<Rightarrow> NodeId \<Rightarrow> bool \<Rightarrow> Action" where
  "vote_response s candidate granted =
     SendMessage candidate (RequestVoteResponse
       \<lparr> rvr_id = node_id s, rvr_term = current_term s, rvr_vote_granted = granted \<rparr>)"

definition can_vote :: "RaftCore \<Rightarrow> NodeId \<Rightarrow> bool" where
  "can_vote s candidate =
     (case voted_for s of None \<Rightarrow> True | Some c \<Rightarrow> c = candidate)"

definition log_check :: "RequestVoteRPC \<Rightarrow> u64 \<Rightarrow> u64 \<Rightarrow> bool" where
  "log_check req lidx last_term \<longleftrightarrow>
     last_term < rv_last_log_term req \<or>
     (rv_last_log_term req = last_term \<and> lidx \<le> rv_last_log_index req)"

definition handle_request_vote ::
  "rng \<Rightarrow> RequestVoteRPC \<Rightarrow> RaftCore \<Rightarrow> (Action list \<times> RaftCore) option" where
  "handle_request_vote rng req s0 = do {
     (pa, s) \<leftarrow> check_msg_term rng (rv_term req) s0;
     let actions = opt_list pa;
     let false_response = vote_response s (rv_candidate_id req) False;
     (if rv_term req < current_term s then Some (actions @ [false_response], s)
      else do {
        lidx \<leftarrow> last_log_index s;
        last_term \<leftarrow> last_log_term s;
        let grant_vote = (can_vote s (rv_candidate_id req) \<and> log_check req lidx last_term);
        (if grant_vote then do {
           s1 \<leftarrow> reset_election_timeout rng s;
           let s2 = s1\<lparr>voted_for := Some (rv_candidate_id req)\<rparr>;
           Some (actions @ [PersistMetadata (current_term s2) (voted_for s2),
                            vote_response s2 (rv_candidate_id req) True], s2) }
         else Some (actions @ [false_response], s)) }) }"

text \<open>\<open>self.votes_received.len() > (self.peers.len() + 1) / 2\<close>.\<close>

definition has_quorum :: "RaftCore \<Rightarrow> bool" where
  "has_quorum s \<longleftrightarrow> (length (peers s) + 1) div 2 < card (votes_received s)"

definition become_leader ::
  "rng \<Rightarrow> RaftCore \<Rightarrow> (Action list \<times> RaftCore) option" where
  "become_leader rng s = do {
     let s1 = s\<lparr>state := Leader, current_leader := Some (node_id s)\<rparr>;
     (persist, s2) \<leftarrow> initialize_leader_state s1;
     s3 \<leftarrow> reset_election_timeout rng s2;
     msgs \<leftarrow> append_entries s3;
     Some (persist # msgs, s3) }"

definition handle_request_vote_response ::
  "rng \<Rightarrow> RequestVoteResponseRPC \<Rightarrow> RaftCore \<Rightarrow> (Action list \<times> RaftCore) option" where
  "handle_request_vote_response rng resp s0 = do {
     (pa, s) \<leftarrow> check_msg_term rng (rvr_term resp) s0;
     let actions = opt_list pa;
     (if state s \<noteq> Candidate then Some (actions, s)
      else if rvr_vote_granted resp then do {
        let s1 = s\<lparr>votes_received := insert (rvr_id resp) (votes_received s)\<rparr>;
        (if has_quorum s1 then do {
           (more, s2) \<leftarrow> become_leader rng s1;
           Some (actions @ more, s2) }
         else Some (actions, s1)) }
      else Some (actions, s)) }"

section \<open>Roles\<close>

text \<open>How an operation may change the role of a node: it ends up a follower, or it keeps its term, its
  vote and a non-follower role, counting at most the votes in \<open>V\<close> and leading only with a quorum,
  or it stands for election in the next term with its own vote.\<close>

definition role_step :: "NodeId set \<Rightarrow> RaftCore \<Rightarrow> RaftCore \<Rightarrow> bool" where
  "role_step V s s' \<longleftrightarrow>
     state s' = Follower \<or>
     (current_term s' = current_term s \<and> voted_for s' = voted_for s \<and> state s \<noteq> Follower \<and>
      votes_received s \<subseteq> votes_received s' \<and> votes_received s' \<subseteq> votes_received s \<union> V \<and>
      (state s' = Leader \<longrightarrow> state s = Leader \<or> has_quorum s') \<and>
      (state s' = Candidate \<longrightarrow> state s = Candidate)) \<or>
     (state s' = Candidate \<and> current_term s' = current_term s + 1 \<and>
      voted_for s' = Some (node_id s) \<and> votes_received s' = {node_id s})"

lemma role_step_same:
  "state s' = state s \<Longrightarrow> current_term s' = current_term s \<Longrightarrow> voted_for s' = voted_for s \<Longrightarrow>
   votes_received s' = votes_received s \<Longrightarrow> role_step V s s'"
  by (auto simp: role_step_def)

lemma role_step_target:
  "role_step V s s1 \<Longrightarrow> state s' = state s1 \<Longrightarrow> current_term s' = current_term s1 \<Longrightarrow>
   voted_for s' = voted_for s1 \<Longrightarrow> votes_received s' = votes_received s1 \<Longrightarrow> peers s' = peers s1 \<Longrightarrow>
   role_step V s s'"
  by (simp add: role_step_def has_quorum_def)

lemma role_step_refl [simp]: "role_step V s s"
  by (simp add: role_step_same)

section \<open>Stepping down\<close>

lemma reset_election_timeout_Some:
  "reset_election_timeout rng s = Some s' \<Longrightarrow>
     \<exists>t. rng (election_timeout_range s) = Some t \<and>
         s' = s\<lparr>ticks_since_last_heartbeat := 0, election_timeout := t\<rparr>"
  by (auto simp: reset_election_timeout_def opt_bind)

lemma reset_election_timeout_ok:
  assumes "rng_ok rng" and "fst (election_timeout_range s) < snd (election_timeout_range s)"
  obtains t where
    "reset_election_timeout rng s = Some (s\<lparr>ticks_since_last_heartbeat := 0, election_timeout := t\<rparr>)"
    and "fst (election_timeout_range s) \<le> t" and "t < snd (election_timeout_range s)"
proof -
  from assms obtain t where "rng (election_timeout_range s) = Some t"
    "fst (election_timeout_range s) \<le> t" "t < snd (election_timeout_range s)"
    unfolding rng_ok_def by (metis prod.collapse)
  with that show thesis by (simp add: reset_election_timeout_def)
qed

text \<open>A message of a higher term: the term is adopted, the vote and the pending reads are dropped.\<close>

definition stepped_down :: "u64 \<Rightarrow> u64 \<Rightarrow> RaftCore \<Rightarrow> RaftCore" where
  "stepped_down t timeout s =
     s\<lparr>current_term := t, state := Follower, voted_for := None,
       ticks_since_last_heartbeat := 0, election_timeout := timeout,
       read_barriers := [], current_leader := None\<rparr>"

lemma check_msg_term_low [simp]: "t \<le> current_term s \<Longrightarrow> check_msg_term rng t s = Some (None, s)"
  by (simp add: check_msg_term_def)

lemma check_msg_term_high:
  assumes "check_msg_term rng t s = Some (pa, s')" and "current_term s < t"
  shows "\<exists>timeout. pa = Some [PersistMetadata t None] \<and> s' = stepped_down t timeout s"
  using assms
  by (auto simp: check_msg_term_def opt_bind Let_def stepped_down_def
      dest!: reset_election_timeout_Some)

lemma stepped_down_sel [simp]:
  "node_id (stepped_down t tm s) = node_id s" "peers (stepped_down t tm s) = peers s"
  "state (stepped_down t tm s) = Follower" "current_term (stepped_down t tm s) = t"
  "voted_for (stepped_down t tm s) = None" "log (stepped_down t tm s) = log s"
  "commit_index (stepped_down t tm s) = commit_index s"
  "last_applied (stepped_down t tm s) = last_applied s"
  "next_index (stepped_down t tm s) = next_index s"
  "match_index (stepped_down t tm s) = match_index s"
  "votes_received (stepped_down t tm s) = votes_received s"
  "last_included_index (stepped_down t tm s) = last_included_index s"
  "last_included_term (stepped_down t tm s) = last_included_term s"
  "election_timeout_range (stepped_down t tm s) = election_timeout_range s"
  "election_timeout (stepped_down t tm s) = tm"
  "heartbeat_interval (stepped_down t tm s) = heartbeat_interval s"
  "append_entries_count (stepped_down t tm s) = append_entries_count s"
  "next_read_barrier_id (stepped_down t tm s) = next_read_barrier_id s"
  "read_barriers (stepped_down t tm s) = []"
  "current_leader (stepped_down t tm s) = None"
  "lli (stepped_down t tm s) = lli s"
  by (simp_all add: stepped_down_def lli_def)

lemma check_msg_term_Some:
  assumes "check_msg_term rng t s = Some (pa, s')"
  shows "(t \<le> current_term s \<and> pa = None \<and> s' = s) \<or>
         (current_term s < t \<and>
          (\<exists>timeout. pa = Some [PersistMetadata t None] \<and> s' = stepped_down t timeout s))"
proof (cases "current_term s < t")
  case True
  with check_msg_term_high [OF assms] show ?thesis by blast
next
  case False
  with assms show ?thesis by simp
qed

lemma check_msg_term_reaches: "check_msg_term rng t s = Some (pa, s') \<Longrightarrow> t \<le> current_term s'"
  by (auto dest: check_msg_term_Some)

lemma check_msg_term_contract:
  "check_msg_term rng t s = Some (pa, s') \<Longrightarrow> op_contract s (opt_list pa) s'"
  by (auto dest!: check_msg_term_Some
      simp: op_contract_def same_config_def vote_kept_def metadata_def)

lemma check_msg_term_role: "check_msg_term rng t s = Some (pa, s') \<Longrightarrow> role_step V s s'"
  by (auto dest!: check_msg_term_Some simp: role_step_def)

lemma check_msg_term_untouched:
  "check_msg_term rng t s = Some (pa, s') \<Longrightarrow>
     list_all (\<lambda>a. \<not> touches_log a) (opt_list pa) \<and> log_frames s' = log_frames s"
  by (auto dest!: check_msg_term_Some simp: log_frames_def)

lemma check_msg_term_ok:
  assumes "rng_ok rng" and "fst (election_timeout_range s) < snd (election_timeout_range s)"
  shows "\<exists>pa s'. check_msg_term rng t s = Some (pa, s')"
proof (cases "current_term s < t")
  case True
  let ?s = "s\<lparr>current_term := t, state := Follower, voted_for := None\<rparr>"
  from reset_election_timeout_ok [of rng ?s] assms obtain s1 where
    "reset_election_timeout rng ?s = Some s1" by auto
  with True show ?thesis by (simp add: check_msg_term_def)
qed simp

section \<open>Standing for election\<close>

text \<open>The state of a new candidate.\<close>

definition candidate_of :: "u64 \<Rightarrow> RaftCore \<Rightarrow> RaftCore" where
  "candidate_of timeout s =
     s\<lparr>current_term := current_term s + 1, state := Candidate, current_leader := None,
       voted_for := Some (node_id s), votes_received := {node_id s},
       ticks_since_last_heartbeat := 0, election_timeout := timeout\<rparr>"

lemma candidate_of_sel [simp]:
  "node_id (candidate_of tm s) = node_id s" "peers (candidate_of tm s) = peers s"
  "state (candidate_of tm s) = Candidate" "current_term (candidate_of tm s) = current_term s + 1"
  "voted_for (candidate_of tm s) = Some (node_id s)" "log (candidate_of tm s) = log s"
  "commit_index (candidate_of tm s) = commit_index s"
  "last_applied (candidate_of tm s) = last_applied s"
  "next_index (candidate_of tm s) = next_index s" "match_index (candidate_of tm s) = match_index s"
  "votes_received (candidate_of tm s) = {node_id s}"
  "last_included_index (candidate_of tm s) = last_included_index s"
  "last_included_term (candidate_of tm s) = last_included_term s"
  "election_timeout_range (candidate_of tm s) = election_timeout_range s"
  "election_timeout (candidate_of tm s) = tm" "ticks_since_last_heartbeat (candidate_of tm s) = 0"
  "heartbeat_interval (candidate_of tm s) = heartbeat_interval s"
  "append_entries_count (candidate_of tm s) = append_entries_count s"
  "next_read_barrier_id (candidate_of tm s) = next_read_barrier_id s"
  "read_barriers (candidate_of tm s) = read_barriers s"
  "lli (candidate_of tm s) = lli s"
  by (simp_all add: candidate_of_def lli_def)

lemma election_timeout_check_Some:
  assumes "election_timeout_check rng s = Some (as, s')"
  shows "(ticks_since_last_heartbeat s < election_timeout s \<and> as = [] \<and> s' = s) \<or>
    (election_timeout s \<le> ticks_since_last_heartbeat s \<and>
     (\<exists>timeout req. s' = candidate_of timeout s \<and>
        rv_term req = current_term s + 1 \<and> rv_candidate_id req = node_id s \<and>
        rv_last_log_index req = lli s \<and> last_log_term s = Some (rv_last_log_term req) \<and>
        as = PersistMetadata (current_term s + 1) (Some (node_id s)) #
             map (\<lambda>p. SendMessage p (RequestVote req)) (peers s)))"
proof (cases "election_timeout s \<le> ticks_since_last_heartbeat s")
  case True
  let ?s1 = "s\<lparr>current_term := current_term s + 1, state := Candidate, current_leader := None,
                voted_for := Some (node_id s), votes_received := {node_id s}\<rparr>"
  from assms True obtain s2 l t0 where
    r: "reset_election_timeout rng ?s1 = Some s2"
    and l: "last_log_index s2 = Some l" and t0: "last_log_term s2 = Some t0" and s': "s' = s2"
    and as: "as = PersistMetadata (current_term s2) (voted_for s2) #
       map (\<lambda>p. SendMessage p (RequestVote \<lparr> rv_term = current_term s2,
         rv_candidate_id = node_id s2, rv_last_log_index = l, rv_last_log_term = t0 \<rparr>)) (peers s2)"
    by (simp add: election_timeout_check_def opt_bind u64_add_eq_Some Let_def) blast
  from r obtain timeout where s2: "s2 = candidate_of timeout s"
    by (auto simp: candidate_of_def dest!: reset_election_timeout_Some)
  from l t0 have "lli s < u64_bound" "l = lli s" "last_log_term s = Some t0"
    by (simp_all add: checked s2)
  with as s2 s' have "s' = candidate_of timeout s" "last_log_term s = Some t0"
    "as = PersistMetadata (current_term s + 1) (Some (node_id s)) #
       map (\<lambda>p. SendMessage p (RequestVote \<lparr> rv_term = current_term s + 1,
         rv_candidate_id = node_id s, rv_last_log_index = lli s, rv_last_log_term = t0 \<rparr>)) (peers s)"
    by simp_all
  with True show ?thesis by force
next
  case False
  with assms show ?thesis by (simp add: election_timeout_check_def)
qed

lemma durable_sends_broadcast: "durable_sends m m (map (\<lambda>p. SendMessage p (msg p)) ps)"
  by (induction ps) auto

lemma election_timeout_check_contract:
  "election_timeout_check rng s = Some (as, s') \<Longrightarrow> op_contract s as s'"
  by (auto dest!: election_timeout_check_Some
      simp: op_contract_def same_config_def vote_kept_def metadata_def durable_sends_broadcast list_all_iff)

lemma election_timeout_check_role:
  "election_timeout_check rng s = Some (as, s') \<Longrightarrow> role_step V s s'"
  by (auto dest!: election_timeout_check_Some simp: role_step_def)

lemma tick_cases:
  assumes "tick rng s = Some (as, s')"
  defines "s1 \<equiv> s\<lparr>ticks_since_last_heartbeat := ticks_since_last_heartbeat s + 1\<rparr>"
  shows "(state s = Leader \<and> heartbeat s1 = Some (as, s')) \<or>
         (state s \<noteq> Leader \<and> election_timeout_check rng s1 = Some (as, s'))"
  using assms by (auto simp: tick_def opt_bind checked Let_def split: RaftState.splits)

lemma tick_waits:
  assumes "state s \<noteq> Leader" and "ticks_since_last_heartbeat s + 1 < election_timeout s"
    and "election_timeout s < u64_bound"
  shows "tick rng s = Some ([], s\<lparr>ticks_since_last_heartbeat := ticks_since_last_heartbeat s + 1\<rparr>)"
  using assms by (cases "state s") (simp_all add: tick_def election_timeout_check_def)

lemma op_contract_start:
  "op_contract (s\<lparr>ticks_since_last_heartbeat := n\<rparr>) as s' = op_contract s as s'"
  by (simp add: op_contract_def same_config_def vote_kept_def metadata_def)

lemma tick_contract: "tick rng s = Some (as, s') \<Longrightarrow> op_contract s as s'"
  using tick_cases [of rng s as s'] heartbeat_contract election_timeout_check_contract
  by (metis op_contract_start)

lemma role_step_start:
  "role_step V (s\<lparr>ticks_since_last_heartbeat := n\<rparr>) s' = role_step V s s'"
  by (simp add: role_step_def)

lemma heartbeat_role: "heartbeat s = Some (as, s') \<Longrightarrow> role_step V s s'"
  by (auto dest!: heartbeat_Some intro: role_step_same)

lemma tick_role: "tick rng s = Some (as, s') \<Longrightarrow> role_step V s s'"
  using tick_cases [of rng s as s'] heartbeat_role election_timeout_check_role
  by (metis role_step_start)

lemma propose_role: "propose command s = Some (oas, s') \<Longrightarrow> role_step V s s'"
  by (cases oas)
    (auto simp: propose_def opt_bind Let_def intro: role_step_same split: if_splits dest!: propose_Some(2))

section \<open>Granting a vote\<close>

lemma handle_request_vote_Some:
  assumes "handle_request_vote rng req s0 = Some (as, s')"
  obtains (rejected) pa s where "check_msg_term rng (rv_term req) s0 = Some (pa, s)"
      "s' = s" "as = opt_list pa @ [vote_response s (rv_candidate_id req) False]"
      "rv_term req < current_term s \<or> \<not> can_vote s (rv_candidate_id req) \<or>
       (\<exists>t. last_log_term s = Some t \<and> \<not> log_check req (lli s) t)"
    | (granted) pa s timeout t where "check_msg_term rng (rv_term req) s0 = Some (pa, s)"
      "rv_term req = current_term s" "can_vote s (rv_candidate_id req)"
      "last_log_term s = Some t" "log_check req (lli s) t"
      "s' = s\<lparr>ticks_since_last_heartbeat := 0, election_timeout := timeout,
              voted_for := Some (rv_candidate_id req)\<rparr>"
      "as = opt_list pa @ [PersistMetadata (current_term s) (Some (rv_candidate_id req)),
                           vote_response s (rv_candidate_id req) True]"
proof -
  from assms obtain pa s where c: "check_msg_term rng (rv_term req) s0 = Some (pa, s)"
    unfolding handle_request_vote_def by (rule bind_pair_SomeE)
  note rest = assms [unfolded handle_request_vote_def c Let_def, simplified]
  show thesis
  proof (cases "rv_term req < current_term s")
    case True
    with rest have "s' = s" "as = opt_list pa @ [vote_response s (rv_candidate_id req) False]" by auto
    with c True show thesis by (intro rejected) auto
  next
    case False
    with rest obtain t where t: "last_log_term s = Some t" and l: "last_log_index s = Some (lli s)"
      by (auto simp: opt_bind last_log_index_Some)
    show thesis
    proof (cases "can_vote s (rv_candidate_id req) \<and> log_check req (lli s) t")
      case True
      from False check_msg_term_reaches [OF c] have e: "rv_term req = current_term s" by simp
      from True False rest l t obtain s1 where r: "reset_election_timeout rng s = Some s1"
        and o: "s' = s1\<lparr>voted_for := Some (rv_candidate_id req)\<rparr>"
          "as = opt_list pa @ [PersistMetadata (current_term s') (voted_for s'),
                             vote_response s' (rv_candidate_id req) True]"
        by (auto simp: opt_bind)
      from reset_election_timeout_Some [OF r] o obtain timeout where
        "s' = s\<lparr>ticks_since_last_heartbeat := 0, election_timeout := timeout,
                voted_for := Some (rv_candidate_id req)\<rparr>"
        "as = opt_list pa @ [PersistMetadata (current_term s) (Some (rv_candidate_id req)),
                             vote_response s (rv_candidate_id req) True]"
        by (auto simp: vote_response_def)
      with c e t True show thesis by (intro granted) auto
    next
      case no: False
      with rest False l t have "s' = s" "as = opt_list pa @ [vote_response s (rv_candidate_id req) False]"
        by auto
      with c no t show thesis by (intro rejected) auto
    qed
  qed
qed

lemma vote_response_no_grant [simp]: "\<not> persists_metadata (vote_response s c g)"
  by (simp add: vote_response_def)

lemma handle_request_vote_contract:
  "handle_request_vote rng req s = Some (as, s') \<Longrightarrow> op_contract s as s'"
proof (erule handle_request_vote_Some)
  fix pa s1
  assume "check_msg_term rng (rv_term req) s = Some (pa, s1)" "s' = s1"
    "as = opt_list pa @ [vote_response s1 (rv_candidate_id req) False]"
  then show "op_contract s as s'"
    using check_msg_term_contract [of rng "rv_term req" s pa s1]
    by (auto simp: op_contract_def vote_response_def intro: durable_sends_append)
next
  fix pa s1 timeout t
  assume c: "check_msg_term rng (rv_term req) s = Some (pa, s1)"
    and v: "can_vote s1 (rv_candidate_id req)"
    and o: "s' = s1\<lparr>ticks_since_last_heartbeat := 0, election_timeout := timeout,
                     voted_for := Some (rv_candidate_id req)\<rparr>"
      "as = opt_list pa @ [PersistMetadata (current_term s1) (Some (rv_candidate_id req)),
                           vote_response s1 (rv_candidate_id req) True]"
  from check_msg_term_Some [OF c] show "op_contract s as s'"
  proof
    assume "rv_term req \<le> current_term s \<and> pa = None \<and> s1 = s"
    with v o show ?thesis
      by (auto simp: op_contract_def same_config_def vote_kept_def metadata_def can_vote_def
          vote_response_def split: option.splits)
  next
    assume "current_term s < rv_term req \<and>
      (\<exists>tm. pa = Some [PersistMetadata (rv_term req) None] \<and> s1 = stepped_down (rv_term req) tm s)"
    with o show ?thesis
      by (auto simp: op_contract_def same_config_def vote_kept_def metadata_def vote_response_def)
  qed
qed

text \<open>A candidate or leader has voted for itself and counts its own vote, so granting a vote in its
  own term can only confirm that vote.\<close>

definition self_vote :: "RaftCore \<Rightarrow> bool" where
  "self_vote s \<longleftrightarrow>
     (state s \<noteq> Follower \<longrightarrow> voted_for s = Some (node_id s) \<and> node_id s \<in> votes_received s)"

lemma handle_request_vote_role:
  assumes "handle_request_vote rng req s = Some (as, s')" and "self_vote s"
  shows "role_step V s s'"
  using assms(1)
proof (cases rule: handle_request_vote_Some)
  case (rejected pa s1)
  then show ?thesis by (simp add: check_msg_term_role)
next
  case (granted pa s1 timeout t)
  from check_msg_term_Some [OF granted(1)] show ?thesis
  proof
    assume "rv_term req \<le> current_term s \<and> pa = None \<and> s1 = s"
    with granted assms(2) show ?thesis
      by (auto simp: role_step_def self_vote_def can_vote_def)
  next
    assume "current_term s < rv_term req \<and>
      (\<exists>timeout. pa = Some [PersistMetadata (rv_term req) None] \<and> s1 = stepped_down (rv_term req) timeout s)"
    then have "state s1 = Follower" by auto
    then show ?thesis using granted by (simp add: role_step_def)
  qed
qed

section \<open>Counting votes\<close>

lemma become_leader_Some:
  assumes "become_leader rng s = Some (as, s')"
  shows "\<exists>timeout msgs. append_entries s' = Some msgs \<and>
     as = PersistLogEntries (lli s + 1) [\<lparr>le_term = current_term s, le_command = []\<rparr>] # msgs \<and>
     s' = (init_peers (lli s + 2) (peers s)
            (s\<lparr>state := Leader, current_leader := Some (node_id s),
               log := log s @ [\<lparr>le_term = current_term s, le_command = []\<rparr>]\<rparr>))
          \<lparr>ticks_since_last_heartbeat := 0, election_timeout := timeout\<rparr>"
proof -
  let ?s1 = "s\<lparr>state := Leader, current_leader := Some (node_id s)\<rparr>"
  from assms obtain a s2 s3 msgs where i: "initialize_leader_state ?s1 = Some (a, s2)"
    and r: "reset_election_timeout rng s2 = Some s3" and m: "append_entries s3 = Some msgs"
    and o: "as = a # msgs" "s' = s3"
    by (auto simp: become_leader_def opt_bind)
  have l: "lli ?s1 = lli s" by (simp add: lli_def)
  from initialize_leader_state_Some [OF i] l reset_election_timeout_Some [OF r] m o
  show ?thesis by auto
qed

lemma handle_request_vote_response_Some:
  assumes "handle_request_vote_response rng resp s0 = Some (as, s')"
  obtains (ignored) pa s where "check_msg_term rng (rvr_term resp) s0 = Some (pa, s)"
      "state s \<noteq> Candidate \<or> \<not> rvr_vote_granted resp" "as = opt_list pa" "s' = s"
    | (counted) s1 where "rvr_term resp \<le> current_term s0" "state s0 = Candidate"
      "rvr_vote_granted resp"
      "s1 = s0\<lparr>votes_received := insert (rvr_id resp) (votes_received s0)\<rparr>"
      "\<not> has_quorum s1" "as = []" "s' = s1"
    | (elected) s1 where "rvr_term resp \<le> current_term s0" "state s0 = Candidate"
      "rvr_vote_granted resp"
      "s1 = s0\<lparr>votes_received := insert (rvr_id resp) (votes_received s0)\<rparr>"
      "has_quorum s1" "become_leader rng s1 = Some (as, s')"
proof -
  from assms obtain pa s where c: "check_msg_term rng (rvr_term resp) s0 = Some (pa, s)"
    unfolding handle_request_vote_response_def by (rule bind_pair_SomeE)
  note rest = assms [unfolded handle_request_vote_response_def c Let_def, simplified]
  show thesis
  proof (cases "state s = Candidate \<and> rvr_vote_granted resp")
    case False
    with rest have "as = opt_list pa" "s' = s" by (auto split: if_splits)
    with c False show thesis by (intro ignored) auto
  next
    case True
    with check_msg_term_Some [OF c] have low: "rvr_term resp \<le> current_term s0" "pa = None" "s = s0"
      by auto
    with rest True show thesis
      by (cases "has_quorum (s0\<lparr>votes_received := insert (rvr_id resp) (votes_received s0)\<rparr>)")
        (auto simp: opt_bind Let_def intro: counted elected)
  qed
qed

lemma become_leader_contract: "become_leader rng s = Some (as, s') \<Longrightarrow> op_contract s as s'"
  by (auto dest!: become_leader_Some intro!: op_contract_silent
      simp: append_entries_quiet same_config_def metadata_def quiet_def)

lemma op_contract_votes:
  "op_contract (s\<lparr>votes_received := V\<rparr>) as s' = op_contract s as s'"
  by (simp add: op_contract_def same_config_def vote_kept_def metadata_def)

lemma handle_request_vote_response_contract:
  assumes "handle_request_vote_response rng resp s = Some (as, s')"
  shows "op_contract s as s'"
  using assms
proof (cases rule: handle_request_vote_response_Some)
  case (ignored pa s1)
  then show ?thesis by (simp add: check_msg_term_contract)
next
  case (counted s1)
  then show ?thesis by (simp add: op_contract_def same_config_def vote_kept_def metadata_def)
next
  case (elected s1)
  with become_leader_contract [of rng s1 as s'] show ?thesis by (simp add: op_contract_votes)
qed

lemma handle_request_vote_response_role:
  assumes "handle_request_vote_response rng resp s = Some (as, s')"
  shows "role_step {rvr_id resp} s s'"
  using assms
proof (cases rule: handle_request_vote_response_Some)
  case (ignored pa s1)
  then show ?thesis by (simp add: check_msg_term_role)
next
  case (counted s1)
  then show ?thesis by (auto simp: role_step_def)
next
  case (elected s1)
  from become_leader_Some [OF elected(6)] have
    "state s' = Leader" "current_term s' = current_term s1" "voted_for s' = voted_for s1"
    "votes_received s' = votes_received s1" "peers s' = peers s1"
    by auto
  with elected show ?thesis by (auto simp: role_step_def has_quorum_def)
qed

text \<open>A stale grant cannot count when the message's term is the node's own: the vote that enters the
  count was cast in the current term, or the count is unchanged.\<close>

lemma handle_request_vote_response_counts:
  assumes "handle_request_vote_response rng resp s = Some (as, s')" and "state s' \<noteq> Follower"
  shows "current_term s' = current_term s \<and> rvr_term resp \<le> current_term s \<and>
     (votes_received s' = votes_received s \<or>
      rvr_vote_granted resp \<and> votes_received s' = insert (rvr_id resp) (votes_received s))"
  using assms(1)
proof (cases rule: handle_request_vote_response_Some)
  case (ignored pa s1)
  with check_msg_term_Some [OF ignored(1)] assms(2) show ?thesis by auto
next
  case (counted s1)
  then show ?thesis by auto
next
  case (elected s1)
  with become_leader_Some [OF elected(6)] show ?thesis by auto
qed

section \<open>Elections do not panic\<close>

lemma election_timeout_check_total:
  assumes "rng_ok rng" and "fst (election_timeout_range s) < snd (election_timeout_range s)"
    and "lli s < u64_bound" and "current_term s + 1 < u64_bound"
  shows "\<exists>as s'. election_timeout_check rng s = Some (as, s')"
proof (cases "election_timeout s \<le> ticks_since_last_heartbeat s")
  case True
  let ?s1 = "s\<lparr>current_term := current_term s + 1, state := Candidate, current_leader := None,
                voted_for := Some (node_id s), votes_received := {node_id s}\<rparr>"
  from reset_election_timeout_ok [of rng ?s1] assms(1,2) obtain t where
    r: "reset_election_timeout rng ?s1 = Some (?s1\<lparr>ticks_since_last_heartbeat := 0, election_timeout := t\<rparr>)"
    by auto
  let ?s2 = "?s1\<lparr>ticks_since_last_heartbeat := 0, election_timeout := t\<rparr>"
  have "last_log_index ?s2 = Some (lli s)" using assms(3) by (simp add: last_log_index_def lli_def)
  moreover have "lli ?s2 < u64_bound" using assms(3) by (simp add: lli_def)
  then have "\<exists>u. last_log_term ?s2 = Some u" unfolding last_log_term_Some by blast
  ultimately show ?thesis
    using True r assms(4) by (auto simp: election_timeout_check_def Let_def)
next
  case False
  then show ?thesis by (simp add: election_timeout_check_def)
qed

lemma tick_total:
  assumes "rng_ok rng" and "fst (election_timeout_range s) < snd (election_timeout_range s)"
    and "lli s + 1 < u64_bound" and "current_term s + 1 < u64_bound"
    and "ticks_since_last_heartbeat s + 1 < u64_bound" and "state s = Leader \<longrightarrow> next_bounded s"
  shows "\<exists>as s'. tick rng s = Some (as, s')"
proof -
  let ?s1 = "s\<lparr>ticks_since_last_heartbeat := ticks_since_last_heartbeat s + 1\<rparr>"
  have l: "lli ?s1 = lli s" by (simp add: lli_def)
  show ?thesis
  proof (cases "state s = Leader")
    case True
    with assms(6) l have "next_bounded ?s1" by (simp add: next_bounded_def)
    with heartbeat_total [of ?s1] assms(3,5) l True show ?thesis by (simp add: tick_def Let_def)
  next
    case False
    then have "tick rng s = election_timeout_check rng ?s1"
      using assms(5) by (cases "state s") (simp_all add: tick_def Let_def)
    with election_timeout_check_total [of rng ?s1] assms l show ?thesis by simp
  qed
qed

lemma handle_request_vote_total:
  assumes "rng_ok rng" and "fst (election_timeout_range s) < snd (election_timeout_range s)"
    and "lli s < u64_bound"
  shows "\<exists>as s'. handle_request_vote rng req s = Some (as, s')"
proof -
  from check_msg_term_ok [OF assms(1,2)] obtain pa s1 where
    c: "check_msg_term rng (rv_term req) s = Some (pa, s1)" by blast
  have s1: "election_timeout_range s1 = election_timeout_range s" "lli s1 = lli s"
    using check_msg_term_Some [OF c] by auto
  with assms(3) have "last_log_index s1 = Some (lli s1)" by (simp add: last_log_index_eq)
  moreover from s1 assms(3) have "\<exists>u. last_log_term s1 = Some u" unfolding last_log_term_Some by simp
  moreover obtain s2 where "reset_election_timeout rng s1 = Some s2"
    using reset_election_timeout_ok [OF assms(1), of s1] assms(2) s1 by auto
  ultimately show ?thesis by (auto simp: handle_request_vote_def c Let_def)
qed

text \<open>A new leader's view of its followers.\<close>

lemma become_leader_total:
  assumes "rng_ok rng" and "fst (election_timeout_range s) < snd (election_timeout_range s)"
    and "lli s + 2 < u64_bound" and "keyed s"
  obtains as s' where "become_leader rng s = Some (as, s')" "keyed s'" "next_bounded s'"
    "list_all (\<lambda>e. snd e = 0) (match_index s')"
proof -
  let ?s1 = "s\<lparr>state := Leader, current_leader := Some (node_id s)\<rparr>"
  let ?e = "\<lparr>le_term = current_term s, le_command = []\<rparr>"
  have l1: "lli ?s1 = lli s" by (simp add: lli_def)
  with assms(3) obtain a s2 where i: "initialize_leader_state ?s1 = Some (a, s2)"
    using initialize_leader_state_ok [of ?s1] by auto
  have s2: "s2 = init_peers (lli s + 2) (peers s) (?s1\<lparr>log := log s @ [?e]\<rparr>)"
    using initialize_leader_state_Some(2) [OF i] l1 by simp
  have k: "keyed (?s1\<lparr>log := log s @ [?e]\<rparr>)" using assms(4) by (simp add: keyed_def)
  have s2k: "keyed s2" "list_all (\<lambda>e. snd e = lli s + 2) (next_index s2)"
    "list_all (\<lambda>e. snd e = 0) (match_index s2)"
    using init_peers_entries [OF k, of "peers s" "lli s + 2"] by (simp_all add: s2)
  have l2: "lli s2 = lli s + 1" by (simp add: s2 lli_def)
  have "election_timeout_range s2 = election_timeout_range s" by (simp add: s2)
  with reset_election_timeout_ok [OF assms(1), of s2] assms(2) obtain t where
    r: "reset_election_timeout rng s2 = Some (s2\<lparr>ticks_since_last_heartbeat := 0, election_timeout := t\<rparr>)"
    by auto
  let ?s3 = "s2\<lparr>ticks_since_last_heartbeat := 0, election_timeout := t\<rparr>"
  have l3: "lli ?s3 = lli s + 1" using l2 by (simp add: lli_def)
  with s2k have nb: "next_bounded ?s3" by (auto simp: next_bounded_def list_all_iff)
  with append_entries_total [of ?s3] l3 assms(3) obtain msgs where "append_entries ?s3 = Some msgs" by auto
  with i r have "become_leader rng s = Some (a # msgs, ?s3)" by (simp add: become_leader_def)
  moreover have "keyed ?s3" using s2k(1) by (simp add: keyed_def)
  ultimately show thesis using that nb s2k(3) by simp
qed

end
