(* ===== verification/RaftFollower.thy ===== *)
theory RaftFollower
  imports RaftElection
begin

text \<open>
  The receiving side of replication, \<open>handle_append_entries\<close> of
  \<open>src/crates/raftcore/src/lib.rs\<close>: the consistency check on \<open>prev_log_index\<close>, the search for
  the first index of a conflicting term, the loop that overwrites and appends, and the advance
  of the commit index.
\<close>

section \<open>Rejection\<close>

definition append_response :: "NodeId \<Rightarrow> AppendEntriesResponseRPC \<Rightarrow> Action" where
  "append_response leader r = SendMessage leader (AppendEntriesResponse r)"

text \<open>The response record prepared before any check.\<close>

definition base_response :: "RaftCore \<Rightarrow> u64 \<Rightarrow> AppendEntriesResponseRPC" where
  "base_response s lidx =
     \<lparr> aer_id = node_id s, aer_term = current_term s, aer_match_index = lidx,
       aer_success = False, aer_first_conflicting_index = None,
       aer_first_conflicting_term = None \<rparr>"

text \<open>\<open>self.log_term_at(i).unwrap_or(0)\<close>.\<close>

definition term_or_0 :: "RaftCore \<Rightarrow> u64 \<Rightarrow> u64" where
  "term_or_0 s i = (case log_term_at s i of None \<Rightarrow> 0 | Some t \<Rightarrow> t)"

text \<open>The loop \<open>for i in (0..prev_log_index).rev()\<close>, called with \<open>prev_log_index\<close>: the first \<open>i\<close>
  below, going down, whose term differs, plus one.\<close>

primrec find_conflict :: "RaftCore \<Rightarrow> u64 \<Rightarrow> nat \<Rightarrow> u64 option" where
  "find_conflict s t 0 = None"
| "find_conflict s t (Suc i) =
     (if term_or_0 s i \<noteq> t then Some (i + 1) else find_conflict s t i)"

definition ae_valid :: "AppendEntriesRPC \<Rightarrow> RaftCore \<Rightarrow> bool option" where
  "ae_valid req s =
     (if ae_prev_log_index req = 0 then Some True
      else do {
        lidx \<leftarrow> last_log_index s;
        Some (ae_prev_log_index req \<le> lidx \<and>
              log_term_at s (ae_prev_log_index req) = Some (ae_prev_log_term req)) })"

definition conflict_response ::
  "AppendEntriesRPC \<Rightarrow> RaftCore \<Rightarrow> AppendEntriesResponseRPC \<Rightarrow> AppendEntriesResponseRPC option" where
  "conflict_response req s response = do {
     lidx \<leftarrow> last_log_index s;
     (if lidx < ae_prev_log_index req then do {
        nxt \<leftarrow> u64_add lidx 1;
        Some (response\<lparr>aer_first_conflicting_index := Some nxt\<rparr>) }
      else do {
        let conflicting_term = term_or_0 s (ae_prev_log_index req);
        let conflicting_index = find_conflict s conflicting_term (ae_prev_log_index req);
        Some (response\<lparr>aer_first_conflicting_index := conflicting_index,
                       aer_first_conflicting_term := Some conflicting_term\<rparr>) }) }"

section \<open>Appending\<close>

text \<open>The loop \<open>for i in next..next + entries.len()\<close>; \<open>None\<close> is the \<open>unwrap\<close> of a term the log
  does not have, or the subtraction in \<open>truncate\<close>.\<close>

fun append_loop :: "nat \<Rightarrow> LogEntry list \<Rightarrow> RaftCore \<Rightarrow> RaftCore option" where
  "append_loop i [] s = Some s"
| "append_loop i (new_entry # es) s = do {
     lidx \<leftarrow> last_log_index s;
     s' \<leftarrow> (if i \<le> lidx then do {
              t \<leftarrow> log_term_at s i;
              (if t \<noteq> le_term new_entry then do {
                 n \<leftarrow> u64_sub i (last_included_index s);
                 n \<leftarrow> u64_sub n 1;
                 Some (s\<lparr>log := take n (log s) @ [new_entry]\<rparr>) }
               else Some s) }
            else Some (s\<lparr>log := log s @ [new_entry]\<rparr>));
     append_loop (i + 1) es s' }"

definition append_new_entries ::
  "AppendEntriesRPC \<Rightarrow> RaftCore \<Rightarrow> (Action list \<times> RaftCore) option" where
  "append_new_entries req s = do {
     nxt \<leftarrow> u64_add (ae_prev_log_index req) 1;
     _ \<leftarrow> u64_add nxt (length (ae_entries req));
     s1 \<leftarrow> append_loop nxt (ae_entries req) s;
     (if ae_entries req = [] then Some ([], s1)
      else do {
        lidx \<leftarrow> last_log_index s1;
        to \<leftarrow> u64_add lidx 1;
        entries \<leftarrow> log_slice s1 nxt to;
        Some ([PersistLogEntries nxt entries], s1) }) }"

section \<open>Commit index of a follower\<close>

text \<open>\<open>ApplyToStateMachine\<close> for the entries that follow index \<open>base\<close>.\<close>

definition apply_actions :: "u64 \<Rightarrow> LogEntry list \<Rightarrow> Action list" where
  "apply_actions base entries =
     map (\<lambda>(i, e). ApplyToStateMachine (i + base + 1) (le_command e)) (enumerate 0 entries)"

definition follower_commit :: "u64 \<Rightarrow> RaftCore \<Rightarrow> (Action list \<times> RaftCore) option" where
  "follower_commit leader_commit s =
     (if commit_index s < leader_commit then do {
        let old_commit = commit_index s;
        lidx \<leftarrow> last_log_index s;
        let s1 = s\<lparr>commit_index := min leader_commit lidx\<rparr>;
        from \<leftarrow> u64_add old_commit 1;
        to \<leftarrow> u64_add (commit_index s1) 1;
        entries \<leftarrow> log_slice s1 from to;
        Some (apply_actions old_commit entries, s1\<lparr>last_applied := commit_index s1\<rparr>) }
      else Some ([], s))"

section \<open>The handler\<close>

definition success_response :: "RaftCore \<Rightarrow> u64 \<Rightarrow> AppendEntriesResponseRPC" where
  "success_response s lidx =
     \<lparr> aer_id = node_id s, aer_term = current_term s, aer_match_index = lidx,
       aer_success = True, aer_first_conflicting_index = None,
       aer_first_conflicting_term = None \<rparr>"

definition accept_append_entries ::
  "AppendEntriesRPC \<Rightarrow> RaftCore \<Rightarrow> (Action list \<times> RaftCore) option" where
  "accept_append_entries req s = do {
     (persist, s1) \<leftarrow> append_new_entries req s;
     (apply, s2) \<leftarrow> follower_commit (ae_leader_commit req) s1;
     lidx \<leftarrow> last_log_index s2;
     Some (persist @ apply @ [append_response (ae_leader_id req) (success_response s2 lidx)], s2) }"

definition handle_append_entries ::
  "rng \<Rightarrow> AppendEntriesRPC \<Rightarrow> RaftCore \<Rightarrow> (Action list \<times> RaftCore) option" where
  "handle_append_entries rng req s0 = do {
     (pa, s1) \<leftarrow> check_msg_term rng (ae_term req) s0;
     let actions = opt_list pa;
     lidx \<leftarrow> last_log_index s1;
     let response = base_response s1 lidx;
     let s2 = (if ae_term req = current_term s1 \<and> state s1 = Candidate
               then s1\<lparr>state := Follower\<rparr> else s1);
     (if state s2 \<noteq> Follower then
        Some (actions @ [append_response (ae_leader_id req) response], s2)
      else if ae_term req < current_term s2 then
        Some (actions @ [append_response (ae_leader_id req) response], s2)
      else do {
        s3 \<leftarrow> reset_election_timeout rng s2;
        let s4 = s3\<lparr>current_leader := Some (ae_leader_id req)\<rparr>;
        valid \<leftarrow> ae_valid req s4;
        (if \<not> valid then do {
           r \<leftarrow> conflict_response req s4 response;
           Some (actions @ [append_response (ae_leader_id req) r], s4) }
         else do {
           (more, s5) \<leftarrow> accept_append_entries req s4;
           Some (actions @ more, s5) }) }) }"

section \<open>Reference: merging a suffix of the log with the entries of a request\<close>

text \<open>What the loop computes: entries of equal terms are kept, the first differing term replaces the
  rest of the log by the rest of the request, and a request that is exhausted changes nothing.\<close>

fun merge_entries :: "LogEntry list \<Rightarrow> LogEntry list \<Rightarrow> LogEntry list" where
  "merge_entries xs [] = xs"
| "merge_entries [] es = es"
| "merge_entries (x # xs) (e # es) =
     (if le_term x = le_term e then x # merge_entries xs es else e # es)"

text \<open>The request's entries from index \<open>i\<close> on contradict nothing up to the commit index.\<close>

definition respects_commit :: "AppendEntriesRPC \<Rightarrow> RaftCore \<Rightarrow> bool" where
  "respects_commit req s \<longleftrightarrow>
     list_all (\<lambda>(i, e). i \<le> commit_index s \<longrightarrow> log_term_at s i = Some (le_term e))
       (enumerate (ae_prev_log_index req + 1) (ae_entries req))"

text \<open>The indices of a node are in order: what the snapshot covers is committed, what is committed is
  in the log, and everything committed has been applied.\<close>

definition log_ok :: "RaftCore \<Rightarrow> bool" where
  "log_ok s \<longleftrightarrow>
     last_included_index s \<le> commit_index s \<and> commit_index s \<le> lli s \<and>
     last_applied s = commit_index s"

text \<open>The entries handed to the state machine, with their indices.\<close>

primrec applied :: "Action list \<Rightarrow> (u64 \<times> bytes) list" where
  "applied [] = []"
| "applied (a # as) =
     (case a of ApplyToStateMachine i c \<Rightarrow> (i, c) # applied as | _ \<Rightarrow> applied as)"

definition logged :: "RaftCore \<Rightarrow> u64 \<Rightarrow> u64 \<times> bytes" where
  "logged s i = (i, le_command (log s ! (i - last_included_index s - 1)))"

lemma merge_entries_Nil [simp]: "merge_entries [] es = es"
  by (cases es) auto

lemma length_merge_entries: "length es \<le> length (merge_entries xs es)"
  by (induction xs es rule: merge_entries.induct) auto

lemma merge_entries_le: "length (merge_entries xs es) \<le> length xs + length es"
  by (induction xs es rule: merge_entries.induct) auto

text \<open>After the merge every index of the request carries the request's term.\<close>

lemma merge_entries_terms:
  "j < length es \<Longrightarrow> le_term (merge_entries xs es ! j) = le_term (es ! j)"
  by (induction xs es arbitrary: j rule: merge_entries.induct) (auto simp: nth_Cons')

text \<open>A request that agrees with the log removes nothing, even when the log is longer.\<close>

lemma merge_entries_agree:
  assumes "length es \<le> length xs" and "\<And>j. j < length es \<Longrightarrow> le_term (xs ! j) = le_term (es ! j)"
  shows "merge_entries xs es = xs"
  using assms
proof (induction xs es rule: merge_entries.induct)
  case (3 x xs e es)
  from "3.prems"(2) [of 0] have t: "le_term x = le_term e" by simp
  have "merge_entries xs es = xs"
  proof (rule "3.IH" [OF t])
    show "length es \<le> length xs" using "3.prems"(1) by simp
    show "le_term (xs ! j) = le_term (es ! j)" if "j < length es" for j
      using "3.prems"(2) [of "Suc j"] that by simp
  qed
  with t show ?case by simp
qed auto

text \<open>Positions at which the two agree, and everything before them, stay.\<close>

lemma merge_entries_keep:
  assumes "\<And>j. j < length es \<Longrightarrow> j < k \<Longrightarrow> j < length xs \<Longrightarrow> le_term (xs ! j) = le_term (es ! j)"
    and "k \<le> length xs"
  shows "k \<le> length (merge_entries xs es) \<and> take k (merge_entries xs es) = take k xs"
  using assms
proof (induction xs es arbitrary: k rule: merge_entries.induct)
  case (3 x xs e es)
  show ?case
  proof (cases k)
    case (Suc m)
    from "3.prems"(1) [of 0] Suc have t: "le_term x = le_term e" by simp
    have "m \<le> length (merge_entries xs es) \<and> take m (merge_entries xs es) = take m xs"
    proof (rule "3.IH" [OF t])
      show "le_term (xs ! j) = le_term (es ! j)" if "j < length es" "j < m" "j < length xs" for j
        using "3.prems"(1) [of "Suc j"] that Suc by simp
      show "m \<le> length xs" using "3.prems"(2) Suc by simp
    qed
    with t Suc show ?thesis by simp
  qed simp
qed auto

section \<open>The loop computes the merge\<close>

lemma append_loop_eq:
  assumes "last_included_index s < i" and "i \<le> lli s + 1" and "lli s + length es < u64_bound"
  shows "append_loop i es s =
     Some (s\<lparr>log := take (i - last_included_index s - 1) (log s) @
                    merge_entries (drop (i - last_included_index s - 1) (log s)) es\<rparr>)"
  using assms
proof (induction es arbitrary: i s)
  case Nil
  then show ?case by simp
next
  case (Cons e es)
  define k where "k = i - last_included_index s - 1"
  have k: "i = last_included_index s + k + 1" "k \<le> length (log s)"
    using Cons.prems by (auto simp: k_def lli_def)
  have last: "last_log_index s = Some (lli s)"
    using Cons.prems by (simp add: last_log_index_eq)
  have "append_loop i (e # es) s =
      Some (s\<lparr>log := take k (log s) @ merge_entries (drop k (log s)) (e # es)\<rparr>)"
  proof (cases "i \<le> lli s")
    case True
    then have kl: "k < length (log s)" using k by (simp add: lli_def)
    have ti: "log_term_at s i = Some (le_term (log s ! k))"
      using True Cons.prems(1) by (simp add: log_term_at_above k_def)
    have d: "drop k (log s) = log s ! k # drop (Suc k) (log s)"
      using kl by (simp add: Cons_nth_drop_Suc)
    show ?thesis
    proof (cases "le_term (log s ! k) = le_term e")
      case same: True
      have "append_loop i (e # es) s = append_loop (i + 1) es s"
        using True last ti same by simp
      also have "\<dots> = Some (s\<lparr>log := take (Suc k) (log s) @ merge_entries (drop (Suc k) (log s)) es\<rparr>)"
        using Cons.IH [of s "i + 1"] True Cons.prems k by (simp add: lli_def)
      finally show ?thesis
        using same d kl by (simp del: append_loop.simps add: take_Suc_conv_app_nth)
    next
      case diff: False
      let ?s = "s\<lparr>log := take k (log s) @ [e]\<rparr>"
      have "append_loop i (e # es) s = append_loop (i + 1) es ?s"
        using True last ti diff k by simp
      also have "\<dots> = Some (?s\<lparr>log := take (Suc k) (log ?s) @ merge_entries (drop (Suc k) (log ?s)) es\<rparr>)"
        using Cons.IH [of ?s "i + 1"] Cons.prems k kl by (simp add: lli_def)
      finally show ?thesis
        using diff d kl by (simp del: append_loop.simps)
    qed
  next
    case False
    then have kl: "k = length (log s)" using k Cons.prems by (simp add: lli_def)
    let ?s = "s\<lparr>log := log s @ [e]\<rparr>"
    have "append_loop i (e # es) s = append_loop (i + 1) es ?s"
      using False last by simp
    also have "\<dots> = Some (?s\<lparr>log := take (Suc k) (log ?s) @ merge_entries (drop (Suc k) (log ?s)) es\<rparr>)"
      using Cons.IH [of ?s "i + 1"] Cons.prems k kl by (simp add: lli_def)
    finally show ?thesis
      using kl by (simp del: append_loop.simps)
  qed
  then show ?case by (simp only: k_def)
qed

lemma append_loop_frame: "append_loop i es s = Some s' \<Longrightarrow> s' = s\<lparr>log := log s'\<rparr>"
proof (induction i es s rule: append_loop.induct)
  case (2 i e es s)
  from "2.prems" obtain l s1 where l: "last_log_index s = Some l"
    and s1: "(if i \<le> l then do {
              t \<leftarrow> log_term_at s i;
              (if t \<noteq> le_term e then do {
                 n \<leftarrow> u64_sub i (last_included_index s);
                 n \<leftarrow> u64_sub n 1;
                 Some (s\<lparr>log := take n (log s) @ [e]\<rparr>) }
               else Some s) }
            else Some (s\<lparr>log := log s @ [e]\<rparr>)) = Some s1"
    and r: "append_loop (i + 1) es s1 = Some s'"
    by (auto simp: opt_bind)
  from s1 obtain xs where "s1 = s\<lparr>log := xs\<rparr>"
    by (auto simp: opt_bind split: if_splits) (metis RaftCore.surjective RaftCore.update_convs(6))
  moreover from "2.IH" [OF l s1 r] have "s' = s1\<lparr>log := log s'\<rparr>" .
  ultimately show ?case by simp
qed simp

section \<open>Applying committed entries\<close>

lemma applied_append [simp]: "applied (as @ bs) = applied as @ applied bs"
proof (induction as)
  case (Cons a as)
  then show ?case by (cases a) auto
qed simp

lemma apply_actions_Cons:
  "apply_actions base (e # es) =
     ApplyToStateMachine (base + 1) (le_command e) # apply_actions (base + 1) es"
proof -
  have "enumerate (Suc 0) es = map (\<lambda>(i, x). (Suc i, x)) (enumerate 0 es)"
    by (auto simp: enumerate_Suc_eq)
  then show ?thesis by (simp add: apply_actions_def case_prod_unfold comp_def)
qed

lemma apply_actions_Nil [simp]: "apply_actions base [] = []"
  by (simp add: apply_actions_def)

lemma applied_apply_actions:
  "applied (apply_actions base es) =
     map (\<lambda>i. (i, le_command (es ! (i - base - 1)))) [base + 1..<base + 1 + length es]"
proof (induction es arbitrary: base)
  case (Cons e es)
  have "[base + 1..<base + 1 + length (e # es)] = (base + 1) # [base + 2..<base + 2 + length es]"
    by (simp add: upt_rec)
  moreover have "map (\<lambda>i. (i, le_command (es ! (i - (base + 1) - 1)))) [base + 2..<base + 2 + length es]
      = map (\<lambda>i. (i, le_command ((e # es) ! (i - base - 1)))) [base + 2..<base + 2 + length es]"
    by (rule map_cong [OF refl]) (auto simp: nth_Cons')
  ultimately show ?case using Cons.IH [of "base + 1"] by (simp add: apply_actions_Cons)
qed simp

lemma apply_actions_quiet [simp]: "list_all quiet (apply_actions base es)"
  by (auto simp: apply_actions_def list_all_iff quiet_def)

lemma apply_actions_untouched [simp]: "list_all (\<lambda>a. \<not> touches_log a) (apply_actions base es)"
  by (auto simp: apply_actions_def list_all_iff)

text \<open>The entries between two indices of the log, applied in order.\<close>

lemma applied_log_range:
  assumes "last_included_index s \<le> a" and "a \<le> b" and "b \<le> lli s"
  shows "applied (apply_actions a (take (b - a) (drop (a - last_included_index s) (log s)))) =
         map (logged s) [a + 1..<b + 1]"
proof -
  let ?es = "take (b - a) (drop (a - last_included_index s) (log s))"
  have len: "length ?es = b - a" using assms by (simp add: lli_def)
  have "map (\<lambda>i. (i, le_command (?es ! (i - a - 1)))) [a + 1..<b + 1] = map (logged s) [a + 1..<b + 1]"
  proof (rule map_cong [OF refl])
    fix i assume "i \<in> set [a + 1..<b + 1]"
    then have "i - a - 1 < b - a" "a - last_included_index s + (i - a - 1) = i - last_included_index s - 1"
      using assms by auto
    then show "(i, le_command (?es ! (i - a - 1))) = logged s i"
      using assms by (simp add: logged_def lli_def)
  qed
  with len assms show ?thesis by (simp add: applied_apply_actions)
qed

section \<open>Commit index of a follower\<close>

lemma follower_commit_frame:
  "follower_commit lc s = Some (as, s') \<Longrightarrow>
     s' = s\<lparr>commit_index := commit_index s', last_applied := last_applied s'\<rparr> \<and>
     list_all quiet as \<and> list_all (\<lambda>a. \<not> touches_log a) as \<and> lli s' = lli s"
  by (auto simp: follower_commit_def opt_bind Let_def lli_def split: if_splits)

text \<open>On a node whose indices are in order: the commit index becomes the smaller of the leader's and
  the last index, never smaller than before, and exactly the entries in between are applied.\<close>

lemma follower_commit_applies:
  "follower_commit lc s = Some (as, s') \<Longrightarrow> \<exists>es. as = apply_actions (commit_index s) es"
  by (auto simp: follower_commit_def Let_def opt_bind split: if_splits intro: exI [of _ "[]"])

lemma follower_commit_ok:
  assumes "log_ok s" and "lli s + 1 < u64_bound"
  shows "\<exists>as s'. follower_commit lc s = Some (as, s') \<and>
     s' = s\<lparr>commit_index := max (commit_index s) (min lc (lli s)),
            last_applied := max (commit_index s) (min lc (lli s))\<rparr> \<and>
     applied as = map (logged s) [last_applied s + 1..<last_applied s' + 1]"
proof (cases "commit_index s < lc")
  case False
  with assms have "follower_commit lc s = Some ([], s)" by (simp add: follower_commit_def)
  with False assms show ?thesis by (simp add: log_ok_def)
next
  case True
  define n where "n = min lc (lli s)"
  have n: "commit_index s \<le> n" "n \<le> lli s" "n + 1 < u64_bound" "last_included_index s \<le> commit_index s"
    using True assms by (auto simp: n_def log_ok_def)
  let ?s1 = "s\<lparr>commit_index := n\<rparr>"
  have sl: "log_slice ?s1 (commit_index s + 1) (n + 1) =
      Some (take (n - commit_index s) (drop (commit_index s - last_included_index s) (log s)))"
    using n by (subst log_slice_ok) (auto simp: lli_def)
  have "follower_commit lc s =
      Some (apply_actions (commit_index s)
              (take (n - commit_index s) (drop (commit_index s - last_included_index s) (log s))),
            s\<lparr>commit_index := n, last_applied := n\<rparr>)"
    using True sl n assms(2) by (simp add: follower_commit_def last_log_index_eq n_def [symmetric] Let_def)
  moreover have "max (commit_index s) n = n" using n by simp
  ultimately show ?thesis
    using applied_log_range [of s "commit_index s" n] n assms(1)
    by (simp add: n_def [symmetric] log_ok_def)
qed

section \<open>Appending\<close>

lemma append_new_entries_frame:
  "append_new_entries req s = Some (as, s') \<Longrightarrow>
     s' = s\<lparr>log := log s'\<rparr> \<and> list_all quiet as \<and> applied as = []"
proof -
  assume a: "append_new_entries req s = Some (as, s')"
  then obtain nxt where l: "append_loop nxt (ae_entries req) s = Some s'"
    and "list_all quiet as" "applied as = []"
    by (auto simp: append_new_entries_def opt_bind quiet_def split: if_splits)
  with append_loop_frame [OF l] show ?thesis by simp
qed

lemma append_new_entries_ok:
  assumes "last_included_index s \<le> ae_prev_log_index req" and "ae_prev_log_index req \<le> lli s"
    and "lli s + length (ae_entries req) + 1 < u64_bound"
  defines "k \<equiv> ae_prev_log_index req - last_included_index s"
  defines "s' \<equiv> s\<lparr>log := take k (log s) @ merge_entries (drop k (log s)) (ae_entries req)\<rparr>"
  shows "append_new_entries req s =
     Some (if ae_entries req = [] then []
           else [PersistLogEntries (ae_prev_log_index req + 1) (drop k (log s'))], s')"
proof -
  have k: "ae_prev_log_index req + 1 - last_included_index s - 1 = k" by (simp add: k_def)
  have kl: "k \<le> length (log s)" using assms(1,2) by (simp add: k_def lli_def)
  have loop: "append_loop (ae_prev_log_index req + 1) (ae_entries req) s = Some s'"
    using append_loop_eq [of s "ae_prev_log_index req + 1" "ae_entries req"] assms(1-3)
    unfolding k s'_def by simp
  have "length (log s') \<le> length (log s) + length (ae_entries req)"
    using merge_entries_le [of "drop k (log s)" "ae_entries req"] kl by (simp add: s'_def)
  then have b: "lli s' + 1 < u64_bound" using assms(3) by (simp add: lli_def s'_def)
  have "k \<le> length (log s')" using kl by (simp add: s'_def)
  then have "log_slice s' (ae_prev_log_index req + 1) (lli s' + 1) = Some (drop k (log s'))"
    using assms(1) kl by (subst log_slice_tail) (auto simp: s'_def k_def lli_def)
  with loop b assms(2,3) show ?thesis
    by (auto simp: append_new_entries_def last_log_index_eq)
qed

text \<open>What is persisted turns the old log file into the new one.\<close>

lemma append_new_entries_disk:
  assumes "last_included_index s \<le> ae_prev_log_index req" and "ae_prev_log_index req \<le> lli s"
    and "lli s + length (ae_entries req) + 1 < u64_bound"
    and "append_new_entries req s = Some (as, s')"
  shows "disk_replay as (log_frames s) = log_frames s'"
proof -
  define k where "k = ae_prev_log_index req - last_included_index s"
  note o = append_new_entries_ok [OF assms(1-3), folded k_def] assms(4)
  have kl: "k \<le> length (log s)" using assms(1,2) by (simp add: k_def lli_def)
  have n: "ae_prev_log_index req + 1 = (last_included_index s + 1) + k"
    using assms(1) by (simp add: k_def)
  show ?thesis
  proof (cases "ae_entries req = []")
    case True
    with o show ?thesis by (auto simp: log_frames_def)
  next
    case False
    with o n store_frames_tail [of k "log s" "log s'" "last_included_index s + 1"] kl show ?thesis
      by (auto simp: log_frames_def)
  qed
qed

lemma respects_commit_nth:
  assumes "respects_commit req s" and "j < length (ae_entries req)"
    and "ae_prev_log_index req + 1 + j \<le> commit_index s"
  shows "log_term_at s (ae_prev_log_index req + 1 + j) = Some (le_term (ae_entries req ! j))"
proof -
  have "(ae_prev_log_index req + 1 + j, ae_entries req ! j) \<in>
      set (enumerate (ae_prev_log_index req + 1) (ae_entries req))"
    using assms(2) by (auto simp: in_set_enumerate_eq)
  with assms(1,3) show ?thesis by (auto simp: respects_commit_def list_all_iff)
qed

text \<open>A request that does not contradict committed entries leaves them in place.\<close>

lemma append_new_entries_committed:
  assumes "last_included_index s \<le> ae_prev_log_index req" and "ae_prev_log_index req \<le> lli s"
    and "lli s + length (ae_entries req) + 1 < u64_bound"
    and "log_ok s" and "respects_commit req s"
    and "append_new_entries req s = Some (as, s')"
  shows "commit_index s \<le> lli s'"
    and "take (commit_index s - last_included_index s) (log s') =
         take (commit_index s - last_included_index s) (log s)"
proof -
  define k where "k = ae_prev_log_index req - last_included_index s"
  define c where "c = commit_index s - last_included_index s"
  have s': "s' = s\<lparr>log := take k (log s) @ merge_entries (drop k (log s)) (ae_entries req)\<rparr>"
    using append_new_entries_ok [OF assms(1-3), folded k_def] assms(6) by auto
  have kl: "k \<le> length (log s)" and cl: "c \<le> length (log s)"
    using assms(1,2,4) by (auto simp: k_def c_def lli_def log_ok_def)
  have keep: "c - k \<le> length (merge_entries (drop k (log s)) (ae_entries req)) \<and>
    take (c - k) (merge_entries (drop k (log s)) (ae_entries req)) = take (c - k) (drop k (log s))"
  proof (rule merge_entries_keep)
    fix j assume j: "j < length (ae_entries req)" "j < c - k" "j < length (drop k (log s))"
    then have "ae_prev_log_index req + 1 + j \<le> commit_index s"
      using assms(1,4) by (simp add: c_def k_def log_ok_def)
    from respects_commit_nth [OF assms(5) j(1) this] j(3) assms(1,2)
    show "le_term (drop k (log s) ! j) = le_term (ae_entries req ! j)"
      by (simp add: log_term_at_above lli_def k_def)
  qed (use cl in simp)
  have "take c (log s') = take c (log s)"
  proof (cases "c \<le> k")
    case True
    with kl show ?thesis by (simp add: s' min_def)
  next
    case False
    then have "take c (log s) = take k (log s) @ take (c - k) (drop k (log s))"
      using take_add [of k "c - k" "log s"] by simp
    with False keep kl cl show ?thesis by (auto simp: s' min_def)
  qed
  then show "take (commit_index s - last_included_index s) (log s') =
      take (commit_index s - last_included_index s) (log s)"
    by (simp add: c_def)
  from keep show "commit_index s \<le> lli s'"
    using kl assms(4) by (auto simp: s' lli_def c_def log_ok_def)
qed

section \<open>The handler\<close>

text \<open>The state of a node that accepts the sender as the leader of its term.\<close>

definition following :: "NodeId \<Rightarrow> u64 \<Rightarrow> RaftCore \<Rightarrow> RaftCore" where
  "following leader timeout s =
     s\<lparr>state := Follower, ticks_since_last_heartbeat := 0, election_timeout := timeout,
       current_leader := Some leader\<rparr>"

lemma following_sel [simp]:
  "node_id (following l tm s) = node_id s" "peers (following l tm s) = peers s"
  "state (following l tm s) = Follower" "current_term (following l tm s) = current_term s"
  "voted_for (following l tm s) = voted_for s" "log (following l tm s) = log s"
  "commit_index (following l tm s) = commit_index s"
  "last_applied (following l tm s) = last_applied s"
  "next_index (following l tm s) = next_index s" "match_index (following l tm s) = match_index s"
  "votes_received (following l tm s) = votes_received s"
  "last_included_index (following l tm s) = last_included_index s"
  "last_included_term (following l tm s) = last_included_term s"
  "election_timeout_range (following l tm s) = election_timeout_range s"
  "heartbeat_interval (following l tm s) = heartbeat_interval s"
  "append_entries_count (following l tm s) = append_entries_count s"
  "next_read_barrier_id (following l tm s) = next_read_barrier_id s"
  "read_barriers (following l tm s) = read_barriers s"
  "current_leader (following l tm s) = Some l"
  "lli (following l tm s) = lli s" "metadata (following l tm s) = metadata s"
  "log_frames (following l tm s) = log_frames s"
  by (simp_all add: following_def lli_def metadata_def log_frames_def)

lemma log_term_at_cong:
  "log s' = log s \<Longrightarrow> last_included_index s' = last_included_index s \<Longrightarrow>
   last_included_term s' = last_included_term s \<Longrightarrow> log_term_at s' i = log_term_at s i"
  by (simp add: log_term_at_def log_entry_at_def Let_def)

lemma following_term_at [simp]: "log_term_at (following l tm s) i = log_term_at s i"
  by (rule log_term_at_cong) simp_all

lemma stepped_down_term_at [simp]: "log_term_at (stepped_down t tm s) i = log_term_at s i"
  by (rule log_term_at_cong) simp_all

lemma handle_append_entries_Some:
  assumes "handle_append_entries rng req s0 = Some (as, s')"
  obtains (refused) pa s where "check_msg_term rng (ae_term req) s0 = Some (pa, s)"
      "state s = Leader \<or> ae_term req < current_term s" "s' = s" "lli s < u64_bound"
      "as = opt_list pa @ [append_response (ae_leader_id req) (base_response s (lli s))]"
    | (conflict) pa s tm r where "check_msg_term rng (ae_term req) s0 = Some (pa, s)"
      "state s \<noteq> Leader" "ae_term req = current_term s" "s' = following (ae_leader_id req) tm s"
      "ae_valid req s' = Some False" "conflict_response req s' (base_response s (lli s)) = Some r"
      "as = opt_list pa @ [append_response (ae_leader_id req) r]"
    | (accepted) pa s tm more where "check_msg_term rng (ae_term req) s0 = Some (pa, s)"
      "state s \<noteq> Leader" "ae_term req = current_term s"
      "ae_valid req (following (ae_leader_id req) tm s) = Some True"
      "accept_append_entries req (following (ae_leader_id req) tm s) = Some (more, s')"
      "as = opt_list pa @ more"
proof -
  from assms obtain pa s where c: "check_msg_term rng (ae_term req) s0 = Some (pa, s)"
    unfolding handle_append_entries_def by (rule bind_pair_SomeE)
  note rest = assms [unfolded handle_append_entries_def c Let_def, simplified]
  from rest have b: "lli s < u64_bound" and l: "last_log_index s = Some (lli s)"
    by (auto simp: opt_bind last_log_index_Some)
  define s2 where
    "s2 = (if ae_term req = current_term s \<and> state s = Candidate then s\<lparr>state := Follower\<rparr> else s)"
  note rest2 = rest [unfolded l, folded s2_def, simplified]
  show thesis
  proof (cases "state s = Leader \<or> ae_term req < current_term s")
    case True
    then have "s2 = s" by (auto simp: s2_def)
    with rest2 True have "as = opt_list pa @ [append_response (ae_leader_id req) (base_response s (lli s))]"
      "s' = s"
      by (auto split: if_splits)
    with c True b show thesis by (intro refused) auto
  next
    case False
    with check_msg_term_reaches [OF c] have e: "ae_term req = current_term s" by simp
    have s2: "s2 = s\<lparr>state := Follower\<rparr>"
      using False e by (cases "state s") (auto simp: s2_def)
    with rest2 e obtain s3 where r: "reset_election_timeout rng s2 = Some s3"
      by (auto simp: opt_bind)
    from reset_election_timeout_Some [OF r] obtain tm where
      s4: "s3\<lparr>current_leader := Some (ae_leader_id req)\<rparr> = following (ae_leader_id req) tm s"
      by (auto simp: s2 following_def)
    let ?s4 = "following (ae_leader_id req) tm s"
    from rest2 s2 e r obtain v where v: "ae_valid req ?s4 = Some v"
      by (auto simp: opt_bind s4)
    show thesis
    proof (cases v)
      case True
      with rest2 s2 e r v obtain more where
        "accept_append_entries req ?s4 = Some (more, s')" "as = opt_list pa @ more"
        by (auto simp: opt_bind s4)
      with c False e v True show thesis by (intro accepted) auto
    next
      case no: False
      with rest2 s2 e r v obtain q where
        "conflict_response req ?s4 (base_response s (lli s)) = Some q"
        "as = opt_list pa @ [append_response (ae_leader_id req) q]" "s' = ?s4"
        by (auto simp: opt_bind s4)
      with c False e v no show thesis by (intro conflict) auto
    qed
  qed
qed

lemma append_response_quiet [simp]:
  "quiet (append_response l r)" "\<not> touches_log (append_response l r)"
  "applied [append_response l r] = []"
  by (simp_all add: append_response_def quiet_def)

lemma accept_append_entries_Some:
  assumes "accept_append_entries req s = Some (as, s')"
  obtains p s1 a where "append_new_entries req s = Some (p, s1)"
    "follower_commit (ae_leader_commit req) s1 = Some (a, s')" "lli s' < u64_bound"
    "as = p @ a @ [append_response (ae_leader_id req) (success_response s' (lli s'))]"
  using assms by (auto simp: accept_append_entries_def opt_bind last_log_index_Some)

lemma accept_append_entries_frame:
  assumes "accept_append_entries req s = Some (as, s')"
  shows "list_all quiet as \<and>
    s' = s\<lparr>log := log s', commit_index := commit_index s', last_applied := last_applied s'\<rparr>"
  using assms
proof (cases rule: accept_append_entries_Some)
  case (1 p s1 a)
  from append_new_entries_frame [OF 1(1)] obtain X where s1: "s1 = s\<lparr>log := X\<rparr>" and p: "list_all quiet p"
    by blast
  from follower_commit_frame [OF 1(2)] obtain c l where
    s': "s' = s1\<lparr>commit_index := c, last_applied := l\<rparr>" and a: "list_all quiet a"
    by blast
  show ?thesis using 1(4) p a by (simp add: s' s1)
qed

lemma handle_append_entries_contract:
  assumes "handle_append_entries rng req s = Some (as, s')"
  shows "op_contract s as s'"
  using assms
proof (cases rule: handle_append_entries_Some)
  case (refused pa s1)
  with check_msg_term_contract [OF refused(1)] show ?thesis
    by (auto intro: op_contract_quiet)
next
  case (conflict pa s1 tm r)
  with check_msg_term_contract [OF conflict(1)] show ?thesis
    by (auto intro!: op_contract_quiet simp: same_config_def)
next
  case (accepted pa s1 tm more)
  from accept_append_entries_frame [OF accepted(5)] obtain X c l where
    s': "s' = (following (ae_leader_id req) tm s1)\<lparr>log := X, commit_index := c, last_applied := l\<rparr>"
    and q: "list_all quiet more"
    by blast
  have "same_config s1 s'" "metadata s' = metadata s1"
    by (simp_all add: s' same_config_def metadata_def)
  with q check_msg_term_contract [OF accepted(1)] accepted(6) show ?thesis
    by (simp add: op_contract_quiet)
qed

lemma handle_append_entries_role:
  assumes "handle_append_entries rng req s = Some (as, s')"
  shows "role_step V s s'"
  using assms
proof (cases rule: handle_append_entries_Some)
  case (refused pa s1)
  then show ?thesis by (simp add: check_msg_term_role)
next
  case (conflict pa s1 tm r)
  then show ?thesis by (simp add: role_step_def)
next
  case (accepted pa s1 tm more)
  from accept_append_entries_frame [OF accepted(5)] obtain X c l where
    "s' = (following (ae_leader_id req) tm s1)\<lparr>log := X, commit_index := c, last_applied := l\<rparr>"
    by blast
  then show ?thesis by (simp add: role_step_def)
qed

section \<open>Accepted requests\<close>

text \<open>The request starts inside the log the node keeps in memory, or carries no entries.\<close>

definition starts_inside :: "AppendEntriesRPC \<Rightarrow> RaftCore \<Rightarrow> bool" where
  "starts_inside req s \<longleftrightarrow> last_included_index s \<le> ae_prev_log_index req \<or> ae_entries req = []"

definition merged_log :: "AppendEntriesRPC \<Rightarrow> RaftCore \<Rightarrow> LogEntry list" where
  "merged_log req s =
     (let k = ae_prev_log_index req - last_included_index s
      in take k (log s) @ merge_entries (drop k (log s)) (ae_entries req))"

lemma follower_transfer [simp]:
  "log_ok (following l tm s) = log_ok s" "log_ok (stepped_down t tm s) = log_ok s"
  "respects_commit req (following l tm s) = respects_commit req s"
  "respects_commit req (stepped_down t tm s) = respects_commit req s"
  "starts_inside req (following l tm s) = starts_inside req s"
  "starts_inside req (stepped_down t tm s) = starts_inside req s"
  "merged_log req (following l tm s) = merged_log req s"
  "merged_log req (stepped_down t tm s) = merged_log req s"
  "log_frames (stepped_down t tm s) = log_frames s"
  "logged (following l tm s) = logged s" "logged (stepped_down t tm s) = logged s"
  by (simp_all add: log_ok_def respects_commit_def starts_inside_def merged_log_def log_frames_def
      logged_def fun_eq_iff)

lemma ae_valid_prev:
  "ae_valid req s = Some True \<Longrightarrow> ae_prev_log_index req \<le> lli s"
  by (auto simp: ae_valid_def opt_bind last_log_index_Some split: if_splits)

lemma append_new_entries_total:
  assumes "starts_inside req s" and "ae_prev_log_index req \<le> lli s" and "log_ok s"
    and "respects_commit req s" and "lli s + length (ae_entries req) + 1 < u64_bound"
  obtains as where
    "append_new_entries req s = Some (as, s\<lparr>log := merged_log req s\<rparr>)"
    "disk_replay as (log_frames s) = log_frames (s\<lparr>log := merged_log req s\<rparr>)"
    "log_ok (s\<lparr>log := merged_log req s\<rparr>)"
    "length (merged_log req s) \<le> length (log s) + length (ae_entries req)"
    "\<And>i. i \<le> commit_index s \<Longrightarrow> logged (s\<lparr>log := merged_log req s\<rparr>) i = logged s i \<or> i \<le> last_included_index s"
proof (cases "last_included_index s \<le> ae_prev_log_index req")
  case True
  let ?s' = "s\<lparr>log := merged_log req s\<rparr>"
  obtain as where a: "append_new_entries req s = Some (as, ?s')"
    using append_new_entries_ok [OF True assms(2,5)] by (simp add: merged_log_def Let_def)
  have d: "disk_replay as (log_frames s) = log_frames ?s'"
    using append_new_entries_disk [OF True assms(2,5) a] .
  note c = append_new_entries_committed [OF True assms(2,5,3,4) a]
  have ok: "log_ok ?s'" using c(1) assms(3) by (simp add: log_ok_def)
  have len: "length (merged_log req s) \<le> length (log s) + length (ae_entries req)"
    using merge_entries_le [of "drop (ae_prev_log_index req - last_included_index s) (log s)" "ae_entries req"]
      True assms(2)
    by (simp add: merged_log_def Let_def lli_def)
  have "logged ?s' i = logged s i \<or> i \<le> last_included_index s" if "i \<le> commit_index s" for i
  proof (cases "i \<le> last_included_index s")
    case False
    with that have "i - last_included_index s - 1 < commit_index s - last_included_index s" by simp
    with c(2) show ?thesis by (metis (no_types, lifting) RaftCore.select_convs(6) RaftCore.update_convs(6)
        logged_def nth_take RaftCore.surjective RaftCore.select_convs(13))
  qed simp
  with a d ok len that show thesis by blast
next
  case False
  with assms(1) have e: "ae_entries req = []" by (simp add: starts_inside_def)
  with False have m: "merged_log req s = log s" by (simp add: merged_log_def)
  have "ae_prev_log_index req + 1 < u64_bound" using assms(2,5) by simp
  with e m have "append_new_entries req s = Some ([], s)" by (simp add: append_new_entries_def)
  with m assms(3) show thesis by (intro that [of "[]"]) simp_all
qed

text \<open>An accepted request: the log is the merge, the committed part is untouched, the commit index is
  raised to what the leader has committed, the entries in between are applied in order, and the log
  file follows the log.\<close>

lemma accept_append_entries_ok:
  assumes "starts_inside req s" and "ae_prev_log_index req \<le> lli s" and "log_ok s"
    and "respects_commit req s" and "lli s + length (ae_entries req) + 1 < u64_bound"
  obtains as s' where "accept_append_entries req s = Some (as, s')"
    "log s' = merged_log req s"
    "commit_index s' = max (commit_index s) (min (ae_leader_commit req) (lli s'))"
    "log_ok s'" "disk_replay as (log_frames s) = log_frames s'"
    "applied as = map (logged s') [last_applied s + 1..<last_applied s' + 1]"
    "AppendEntriesResponse (success_response s' (lli s')) \<in> {m. SendMessage (ae_leader_id req) m \<in> set as}"
proof -
  let ?s1 = "s\<lparr>log := merged_log req s\<rparr>"
  from append_new_entries_total [OF assms] obtain p where
    p: "append_new_entries req s = Some (p, ?s1)"
    and d: "disk_replay p (log_frames s) = log_frames ?s1" and ok: "log_ok ?s1"
    and len: "length (merged_log req s) \<le> length (log s) + length (ae_entries req)"
    by metis
  have b: "lli ?s1 + 1 < u64_bound" using len assms(5) by (simp add: lli_def)
  from follower_commit_ok [OF ok b] obtain a s' where
    f: "follower_commit (ae_leader_commit req) ?s1 = Some (a, s')" and
    s': "s' = ?s1\<lparr>commit_index := max (commit_index ?s1) (min (ae_leader_commit req) (lli ?s1)),
            last_applied := max (commit_index ?s1) (min (ae_leader_commit req) (lli ?s1))\<rparr>" and
    ap: "applied a = map (logged ?s1) [last_applied ?s1 + 1..<last_applied s' + 1]"
    by blast
  have l: "lli s' = lli ?s1" "logged s' = logged ?s1"
    by (simp_all add: s' lli_def logged_def fun_eq_iff)
  have acc: "accept_append_entries req s =
      Some (p @ a @ [append_response (ae_leader_id req) (success_response s' (lli s'))], s')"
    using p f b l(1) by (simp add: accept_append_entries_def last_log_index_eq)
  have ok': "log_ok s'" using ok by (simp add: log_ok_def s' lli_def le_max_iff_disj)
  have "disk_replay a (log_frames ?s1) = log_frames s'"
    using follower_commit_frame [OF f] by (simp add: disk_replay_untouched s' log_frames_def)
  with d have "disk_replay (p @ a @ [append_response (ae_leader_id req) (success_response s' (lli s'))])
      (log_frames s) = log_frames s'"
    by (simp add: append_response_def)
  moreover have "applied p = []" using append_new_entries_frame [OF p] by simp
  ultimately show thesis
    using acc ok' ap l that [OF acc] by (simp add: s' append_response_def)
qed

section \<open>The handler does not panic\<close>

lemma ae_valid_total: "lli s < u64_bound \<Longrightarrow> \<exists>v. ae_valid req s = Some v"
  by (auto simp: ae_valid_def last_log_index_eq)

lemma conflict_response_total:
  "lli s + 1 < u64_bound \<Longrightarrow> \<exists>r. conflict_response req s resp = Some r"
  by (simp add: conflict_response_def last_log_index_eq Let_def)

text \<open>What the handler guarantees on a node whose indices are in order.\<close>

definition append_effect :: "RaftCore \<Rightarrow> Action list \<Rightarrow> RaftCore \<Rightarrow> bool" where
  "append_effect s as s' \<longleftrightarrow>
     log_ok s' \<and> commit_index s \<le> commit_index s' \<and>
     applied as = map (logged s') [last_applied s + 1..<last_applied s' + 1] \<and>
     disk_replay as (log_frames s) = log_frames s'"

lemma append_effect_same:
  assumes "log_ok s" and "log_frames s' = log_frames s" and "log_ok s'"
    and "commit_index s' = commit_index s" and "list_all (\<lambda>a. \<not> touches_log a) as" and "applied as = []"
  shows "append_effect s as s'"
  using assms by (simp add: append_effect_def log_ok_def disk_replay_untouched)

lemma check_msg_term_applied:
  "check_msg_term rng t s = Some (pa, s') \<Longrightarrow> applied (opt_list pa) = []"
  by (auto dest!: check_msg_term_Some)

lemma check_msg_term_transfer:
  assumes "check_msg_term rng t s = Some (pa, s1)"
  shows "log_ok s1 = log_ok s" "respects_commit req s1 = respects_commit req s"
    "starts_inside req s1 = starts_inside req s" "lli s1 = lli s" "commit_index s1 = commit_index s"
    "last_applied s1 = last_applied s" "log_frames s1 = log_frames s" "merged_log req s1 = merged_log req s"
    "election_timeout_range s1 = election_timeout_range s" "log s1 = log s"
    "last_included_index s1 = last_included_index s" "last_included_term s1 = last_included_term s"
  using check_msg_term_Some [OF assms] by auto

lemma handle_append_entries_effect:
  assumes "rng_ok rng" and "fst (election_timeout_range s) < snd (election_timeout_range s)"
    and "log_ok s" and "starts_inside req s" and "respects_commit req s"
    and "lli s + length (ae_entries req) + 1 < u64_bound"
  shows "\<exists>as s'. handle_append_entries rng req s = Some (as, s') \<and> append_effect s as s'"
proof -
  from check_msg_term_ok [OF assms(1,2)] obtain pa s1 where
    c: "check_msg_term rng (ae_term req) s = Some (pa, s1)" by blast
  note tr = check_msg_term_transfer [OF c]
  have u: "list_all (\<lambda>a. \<not> touches_log a) (opt_list pa)" "applied (opt_list pa) = []"
    using check_msg_term_untouched [OF c] check_msg_term_applied [OF c] by auto
  have last: "last_log_index s1 = Some (lli s1)" using assms(6) tr by (simp add: last_log_index_eq)
  define s2 where
    "s2 = (if ae_term req = current_term s1 \<and> state s1 = Candidate then s1\<lparr>state := Follower\<rparr> else s1)"
  show ?thesis
  proof (cases "state s2 \<noteq> Follower \<or> ae_term req < current_term s2")
    case True
    have "handle_append_entries rng req s =
        Some (opt_list pa @ [append_response (ae_leader_id req) (base_response s1 (lli s1))], s2)"
      using True by (auto simp: handle_append_entries_def c last s2_def [symmetric] Let_def)
    moreover have "append_effect s
        (opt_list pa @ [append_response (ae_leader_id req) (base_response s1 (lli s1))]) s2"
      using u tr assms(3) append_response_quiet
      by (intro append_effect_same) (auto simp: s2_def log_frames_def log_ok_def lli_def simp del: applied.simps)
    ultimately show ?thesis by blast
  next
    case False
    have er: "election_timeout_range s2 = election_timeout_range s" using tr by (simp add: s2_def)
    from reset_election_timeout_ok [of rng s2, unfolded er, OF assms(1,2)] obtain tm where
      r: "reset_election_timeout rng s2 = Some (s2\<lparr>ticks_since_last_heartbeat := 0, election_timeout := tm\<rparr>)"
      by blast
    let ?s4 = "following (ae_leader_id req) tm s1"
    have s4: "(s2\<lparr>ticks_since_last_heartbeat := 0, election_timeout := tm\<rparr>)
        \<lparr>current_leader := Some (ae_leader_id req)\<rparr> = ?s4"
      using False by (auto simp: s2_def following_def)
    have b: "lli ?s4 + length (ae_entries req) + 1 < u64_bound" using assms(6) tr by simp
    then obtain v where v: "ae_valid req ?s4 = Some v" using ae_valid_total [of ?s4 req] by auto
    have step: "handle_append_entries rng req s =
        (if \<not> v then do {
           q \<leftarrow> conflict_response req ?s4 (base_response s1 (lli s1));
           Some (opt_list pa @ [append_response (ae_leader_id req) q], ?s4) }
         else do {
           (more, s5) \<leftarrow> accept_append_entries req ?s4;
           Some (opt_list pa @ more, s5) })"
      using False v by (simp add: handle_append_entries_def c last s2_def [symmetric] Let_def r s4)
    show ?thesis
    proof (cases v)
      case no: False
      from conflict_response_total [of ?s4 req "base_response s1 (lli s1)"] b obtain q where
        "conflict_response req ?s4 (base_response s1 (lli s1)) = Some q" by auto
      moreover have "append_effect s (opt_list pa @ [append_response (ae_leader_id req) q]) ?s4"
        using u tr assms(3) append_response_quiet
        by (intro append_effect_same) (auto simp del: applied.simps)
      ultimately show ?thesis using step no by simp
    next
      case True
      with v have p: "ae_prev_log_index req \<le> lli ?s4" by (auto dest: ae_valid_prev)
      have pre: "starts_inside req ?s4" "log_ok ?s4" "respects_commit req ?s4"
        using assms(3-5) tr by simp_all
      from accept_append_entries_ok [OF pre(1) p pre(2,3) b] obtain more s' where
        m: "accept_append_entries req ?s4 = Some (more, s')" "log_ok s'"
          "commit_index s' = max (commit_index ?s4) (min (ae_leader_commit req) (lli s'))"
          "disk_replay more (log_frames ?s4) = log_frames s'"
          "applied more = map (logged s') [last_applied ?s4 + 1..<last_applied s' + 1]"
        by metis
      then have "append_effect s (opt_list pa @ more) s'"
        using u tr by (simp add: append_effect_def disk_replay_untouched)
      then show ?thesis using step True m(1) by simp
    qed
  qed
qed

section \<open>The search for the first conflicting index\<close>

lemma find_conflict_Some:
  "find_conflict s t n = Some f \<longleftrightarrow>
     1 \<le> f \<and> f \<le> n \<and> term_or_0 s (f - 1) \<noteq> t \<and> (\<forall>j. f \<le> j \<and> j < n \<longrightarrow> term_or_0 s j = t)"
proof (induction n)
  case (Suc n)
  show ?case
  proof (cases "term_or_0 s n = t")
    case True
    then have a: "(\<forall>j. f \<le> j \<and> j < Suc n \<longrightarrow> term_or_0 s j = t) \<longleftrightarrow>
        (\<forall>j. f \<le> j \<and> j < n \<longrightarrow> term_or_0 s j = t)"
      by (metis less_Suc_eq)
    from True have b: "f \<le> Suc n \<and> term_or_0 s (f - 1) \<noteq> t \<longleftrightarrow> f \<le> n \<and> term_or_0 s (f - 1) \<noteq> t"
      by (cases "f = Suc n") auto
    from True have "find_conflict s t (Suc n) = find_conflict s t n" by simp
    with Suc show ?thesis unfolding a using b by argo
  next
    case False
    have "f = Suc n" if "f \<le> Suc n" "\<forall>j. f \<le> j \<and> j < Suc n \<longrightarrow> term_or_0 s j = t"
      using that False by (meson leI lessI le_antisym not_less_eq_eq)
    with False show ?thesis by auto
  qed
qed auto

lemma find_conflict_None:
  "find_conflict s t n = None \<longleftrightarrow> (\<forall>j<n. term_or_0 s j = t)"
  by (induction n) (auto simp: less_Suc_eq)

end
