(* ===== verification/RaftLeader.thy ===== *)
theory RaftLeader
  imports RaftFollower
begin

text \<open>
  The leader's side of replication (\<open>src/crates/raftcore/src/lib.rs\<close>): the response to an
  AppendEntries request, which moves \<open>next_index\<close> and \<open>match_index\<close>, advances the commit index to
  the index replicated on the median of the members and releases read barriers;
  \<open>request_read_barrier\<close>.
\<close>

section \<open>Commit index of a leader\<close>

text \<open>\<open>peer_indices\<close>: the match indices and the leader's own last index, sorted; the element in
  the middle.\<close>

definition replicated_index :: "RaftCore \<Rightarrow> u64 \<Rightarrow> u64" where
  "replicated_index s lidx =
     (let peer_indices = sort (map snd (match_index s) @ [lidx])
      in peer_indices ! (length peer_indices div 2))"

text \<open>The loop \<open>for index in prev_commit + 1..replicated + 1\<close> with \<open>n\<close> iterations to go.\<close>

primrec commit_scan :: "RaftCore \<Rightarrow> u64 \<Rightarrow> nat \<Rightarrow> u64 \<Rightarrow> u64 option" where
  "commit_scan s index 0 new_commit = Some new_commit"
| "commit_scan s index (Suc n) new_commit = do {
     t \<leftarrow> log_term_at s index;
     commit_scan s (index + 1) n (if t = current_term s then index else new_commit) }"

definition leader_commit :: "RaftCore \<Rightarrow> (Action list \<times> RaftCore) option" where
  "leader_commit s = do {
     lidx \<leftarrow> last_log_index s;
     let replicated = replicated_index s lidx;
     let prev_commit_index = commit_index s;
     from \<leftarrow> u64_add prev_commit_index 1;
     to \<leftarrow> u64_add replicated 1;
     new_commit \<leftarrow> commit_scan s from (to - from) prev_commit_index;
     let s1 = s\<lparr>commit_index := new_commit\<rparr>;
     afrom \<leftarrow> u64_add (last_applied s1) 1;
     ato \<leftarrow> u64_add (commit_index s1) 1;
     entries \<leftarrow> log_slice s1 afrom ato;
     Some (apply_actions (last_applied s1) entries, s1\<lparr>last_applied := commit_index s1\<rparr>) }"

section \<open>Read barriers\<close>

text \<open>\<open>extract_if\<close>: the barriers whose count is reached, and those that stay.\<close>

primrec extract_ready ::
  "u64 \<Rightarrow> u64 \<Rightarrow> (u64 \<times> u64) list \<Rightarrow> (Action list \<times> (u64 \<times> u64) list) option" where
  "extract_ready count majority [] = Some ([], [])"
| "extract_ready count majority (b # bs) = do {
     need \<leftarrow> u64_add (snd b) majority;
     (ready, rest) \<leftarrow> extract_ready count majority bs;
     Some (if need \<le> count then (ReadBarrierReady (fst b) # ready, rest)
           else (ready, b # rest)) }"

text \<open>\<open>self.peers.len().div_ceil(2)\<close>.\<close>

definition read_majority :: "RaftCore \<Rightarrow> u64" where
  "read_majority s = (length (peers s) + 1) div 2"

definition release_barriers :: "RaftCore \<Rightarrow> (Action list \<times> RaftCore) option" where
  "release_barriers s = do {
     (ready, rest) \<leftarrow> extract_ready (append_entries_count s) (read_majority s) (read_barriers s);
     Some (ready, s\<lparr>read_barriers := rest\<rparr>) }"

definition request_read_barrier :: "RaftCore \<Rightarrow> (u64 option \<times> RaftCore) option" where
  "request_read_barrier s =
     (if state s \<noteq> Leader then Some (None, s)
      else do {
        n \<leftarrow> u64_add (next_read_barrier_id s) 1;
        Some (Some n, s\<lparr>next_read_barrier_id := n,
                        read_barriers := AList.update n (append_entries_count s) (read_barriers s)\<rparr>) })"

section \<open>The handler\<close>

definition record_success ::
  "AppendEntriesResponseRPC \<Rightarrow> RaftCore \<Rightarrow> RaftCore option" where
  "record_success resp s = do {
     nxt \<leftarrow> u64_add (aer_match_index resp) 1;
     count \<leftarrow> u64_add (append_entries_count s) 1;
     Some (s\<lparr>match_index := AList.update (aer_id resp) (aer_match_index resp) (match_index s),
             next_index := AList.update (aer_id resp) nxt (next_index s),
             append_entries_count := count\<rparr>) }"

definition record_failure :: "AppendEntriesResponseRPC \<Rightarrow> RaftCore \<Rightarrow> RaftCore" where
  "record_failure resp s =
     s\<lparr>next_index := and_modify (aer_id resp)
        (case aer_first_conflicting_index resp of Some ind \<Rightarrow> ind | None \<Rightarrow> 0) (next_index s)\<rparr>"

definition handle_append_entries_response ::
  "rng \<Rightarrow> AppendEntriesResponseRPC \<Rightarrow> RaftCore \<Rightarrow> (Action list \<times> RaftCore) option" where
  "handle_append_entries_response rng resp s0 = do {
     (pa, s) \<leftarrow> check_msg_term rng (aer_term resp) s0;
     let actions = opt_list pa;
     (if aer_success resp then do {
        s1 \<leftarrow> record_success resp s;
        (apply, s2) \<leftarrow> leader_commit s1;
        (ready, s3) \<leftarrow> release_barriers s2;
        Some (actions @ apply @ ready, s3) }
      else do {
        let s1 = record_failure resp s;
        msg \<leftarrow> build_append_entries_for_peer s1 (aer_id resp);
        Some (actions @ [msg], s1) }) }"

section \<open>The commit scan\<close>

text \<open>The scan returns the largest index of the range that carries the current term, or the start
  value when there is none.\<close>

lemma commit_scan_Some:
  assumes "commit_scan s i n c = Some r" and "c < i"
  shows "c \<le> r"
    and "r = c \<or> i \<le> r \<and> r < i + n \<and> log_term_at s r = Some (current_term s)"
    and "\<And>j. i \<le> j \<Longrightarrow> j < i + n \<Longrightarrow> log_term_at s j = Some (current_term s) \<Longrightarrow> j \<le> r"
proof -
  have "c \<le> r \<and> (r = c \<or> i \<le> r \<and> r < i + n \<and> log_term_at s r = Some (current_term s)) \<and>
      (\<forall>j. i \<le> j \<and> j < i + n \<and> log_term_at s j = Some (current_term s) \<longrightarrow> j \<le> r)"
    using assms
  proof (induction n arbitrary: i c)
    case (Suc n)
    then obtain t where t: "log_term_at s i = Some t"
      and r: "commit_scan s (i + 1) n (if t = current_term s then i else c) = Some r"
      by (simp add: opt_bind) blast
    have ih: "(if t = current_term s then i else c) \<le> r \<and>
        (r = (if t = current_term s then i else c) \<or>
         i + 1 \<le> r \<and> r < i + 1 + n \<and> log_term_at s r = Some (current_term s)) \<and>
        (\<forall>j. i + 1 \<le> j \<and> j < i + 1 + n \<and> log_term_at s j = Some (current_term s) \<longrightarrow> j \<le> r)"
      using Suc.IH [OF r] Suc.prems(2) by simp
    have "j \<le> r" if j: "i \<le> j" "j < i + Suc n" "log_term_at s j = Some (current_term s)" for j
    proof (cases "j = i")
      case True
      with j(3) t ih show ?thesis by simp
    next
      case False
      with j ih show ?thesis by simp
    qed
    moreover have "c \<le> r" using ih Suc.prems(2) by (cases "t = current_term s") simp_all
    moreover have "r = c \<or> i \<le> r \<and> r < i + Suc n \<and> log_term_at s r = Some (current_term s)"
      using ih t by (cases "t = current_term s") auto
    ultimately show ?case by blast
  qed simp
  then show "c \<le> r"
    and "r = c \<or> i \<le> r \<and> r < i + n \<and> log_term_at s r = Some (current_term s)"
    and "\<And>j. i \<le> j \<Longrightarrow> j < i + n \<Longrightarrow> log_term_at s j = Some (current_term s) \<Longrightarrow> j \<le> r"
    by simp_all
qed

lemma commit_scan_total:
  assumes "\<And>j. i \<le> j \<Longrightarrow> j < i + n \<Longrightarrow> log_term_at s j \<noteq> None"
  shows "\<exists>r. commit_scan s i n c = Some r"
  using assms
proof (induction n arbitrary: i c)
  case (Suc n)
  from Suc.prems [of i] obtain t where t: "log_term_at s i = Some t" by auto
  have "log_term_at s j \<noteq> None" if "i + 1 \<le> j" "j < i + 1 + n" for j
    using Suc.prems [of j] that by simp
  then have "\<exists>r. commit_scan s (i + 1) n (if t = current_term s then i else c) = Some r"
    by (rule Suc.IH)
  with t show ?case by simp
qed simp

section \<open>The replicated index\<close>

lemma replicated_index_le:
  assumes "\<And>e. e \<in> set (match_index s) \<Longrightarrow> snd e \<le> l"
  shows "replicated_index s l \<le> l"
proof -
  let ?xs = "map snd (match_index s) @ [l]"
  have "replicated_index s l \<in> set (sort ?xs)"
    unfolding replicated_index_def Let_def by (rule nth_mem) simp
  with assms show ?thesis by auto
qed

text \<open>The members, the leader included, that hold an index, as far as the leader knows.\<close>

definition holders :: "RaftCore \<Rightarrow> u64 \<Rightarrow> nat" where
  "holders s k = length (filter (\<lambda>m. k \<le> m) (map snd (match_index s) @ [lli s]))"

text \<open>The replicated index covers what half of the members (rounded up) hold.\<close>

lemma replicated_index_iff:
  "k \<le> replicated_index s (lli s) \<longleftrightarrow> length (match_index s) + 1 \<le> 2 * holders s k"
proof -
  let ?n = "length (match_index s) + 1"
  have "k \<le> replicated_index s (lli s) \<longleftrightarrow> ?n - ?n div 2 \<le> holders s k"
    using sort_nth_ge_iff [of "?n div 2" "map snd (match_index s) @ [lli s]" k]
    by (simp add: replicated_index_def Let_def holders_def)
  then show ?thesis by linarith
qed

lemma replicated_index_members:
  fixes s :: RaftCore
  defines "n \<equiv> length (match_index s) + 1"
  shows "n - n div 2 \<le>
    length (filter (\<lambda>m. replicated_index s l \<le> m) (map snd (match_index s) @ [l]))"
  using sort_nth_count [of "n div 2" "map snd (match_index s) @ [l]"]
  by (simp only: replicated_index_def Let_def n_def length_append length_map length_sort) simp

section \<open>Advancing the commit index\<close>

lemma leader_commit_Some:
  assumes "leader_commit s = Some (as, s')"
  shows "s' = s\<lparr>commit_index := commit_index s', last_applied := commit_index s'\<rparr>"
    and "list_all quiet as" and "list_all (\<lambda>a. \<not> touches_log a) as"
    and "commit_scan s (commit_index s + 1) (replicated_index s (lli s) - commit_index s) (commit_index s)
           = Some (commit_index s')"
proof -
  from assms obtain c es where
    "commit_scan s (commit_index s + 1) (replicated_index s (lli s) - commit_index s) (commit_index s) = Some c"
    "s' = s\<lparr>commit_index := c, last_applied := c\<rparr>" "as = apply_actions (last_applied s) es"
    unfolding leader_commit_def Let_def by (elim bind_SomeE) (auto simp: checked)
  then show "s' = s\<lparr>commit_index := commit_index s', last_applied := commit_index s'\<rparr>"
    and "list_all quiet as" and "list_all (\<lambda>a. \<not> touches_log a) as"
    and "commit_scan s (commit_index s + 1) (replicated_index s (lli s) - commit_index s) (commit_index s)
           = Some (commit_index s')"
    by simp_all
qed

text \<open>The commit index never moves back, and when it moves, to an entry of the current term that the
  replicated index covers.\<close>

lemma leader_commit_applies:
  "leader_commit s = Some (as, s') \<Longrightarrow> \<exists>es. as = apply_actions (last_applied s) es"
  unfolding leader_commit_def Let_def by (elim bind_SomeE) auto

lemma leader_commit_advance:
  assumes "leader_commit s = Some (as, s')"
  shows "commit_index s \<le> commit_index s'"
    and "commit_index s' \<noteq> commit_index s \<Longrightarrow>
           commit_index s' \<le> replicated_index s (lli s) \<and>
           log_term_at s (commit_index s') = Some (current_term s)"
  using commit_scan_Some(1,2) [OF leader_commit_Some(4) [OF assms]] by auto

text \<open>The commit index becomes the last entry of the current term that enough members hold, and the entries
  in between are applied.\<close>

lemma leader_commit_exact:
  assumes "leader_commit s = Some (as, s')"
  shows "commit_index s' \<noteq> commit_index s \<Longrightarrow> length (match_index s) + 1 \<le> 2 * holders s (commit_index s')"
    and "length (match_index s) + 1 \<le> 2 * holders s k \<Longrightarrow> log_term_at s k = Some (current_term s) \<Longrightarrow>
           k \<le> commit_index s'"
proof -
  note scan = leader_commit_Some(4) [OF assms]
  show "length (match_index s) + 1 \<le> 2 * holders s (commit_index s')" if "commit_index s' \<noteq> commit_index s"
    using leader_commit_advance(2) [OF assms that] by (simp add: replicated_index_iff)
  show "k \<le> commit_index s'"
    if "length (match_index s) + 1 \<le> 2 * holders s k" "log_term_at s k = Some (current_term s)"
  proof (cases "k \<le> commit_index s")
    case True
    with leader_commit_advance(1) [OF assms] show ?thesis by simp
  next
    case False
    moreover have "k \<le> replicated_index s (lli s)" using that(1) by (simp add: replicated_index_iff)
    ultimately show ?thesis using commit_scan_Some(3) [OF scan, of k] that(2) by simp
  qed
qed

lemma leader_commit_applied:
  assumes "leader_commit s = Some (as, s')" and "log_ok s"
  shows "applied as = map (logged s) [last_applied s + 1..<commit_index s' + 1]"
proof -
  let ?c = "commit_index s'"
  have ok: "last_included_index s \<le> commit_index s" "commit_index s \<le> lli s" "last_applied s = commit_index s"
    using assms(2) by (auto simp: log_ok_def)
  have c: "commit_index s \<le> ?c" "?c \<le> lli s"
    using leader_commit_advance [OF assms(1)] ok log_term_at_None [of s ?c]
    by (cases "?c = commit_index s"; auto simp: not_less)+
  from assms(1) obtain es c0 where "log_slice (s\<lparr>commit_index := c0\<rparr>) (last_applied s + 1) (c0 + 1) = Some es"
    "as = apply_actions (last_applied s) es" "?c = c0"
    unfolding leader_commit_def Let_def by (elim bind_SomeE) (auto simp: checked)
  moreover have "log_slice (s\<lparr>commit_index := ?c\<rparr>) (commit_index s + 1) (?c + 1) =
      Some (take (?c - commit_index s) (drop (commit_index s - last_included_index s) (log s)))"
    using c ok by (subst log_slice_ok) (auto simp: lli_def)
  ultimately show ?thesis using applied_log_range [of s "commit_index s" ?c] ok c by simp
qed

lemma leader_commit_ok:
  assumes "log_ok s" and "lli s + 1 < u64_bound"
    and "\<And>e. e \<in> set (match_index s) \<Longrightarrow> snd e \<le> lli s"
  obtains as c where
    "leader_commit s = Some (as, s\<lparr>commit_index := c, last_applied := c\<rparr>)"
    "commit_index s \<le> c" "c \<le> lli s"
    "applied as = map (logged s) [last_applied s + 1..<c + 1]"
proof -
  let ?r = "replicated_index s (lli s)"
  have r: "?r \<le> lli s" using assms(3) by (rule replicated_index_le)
  have ci: "last_included_index s \<le> commit_index s" "commit_index s \<le> lli s" "last_applied s = commit_index s"
    using assms(1) by (auto simp: log_ok_def)
  have "\<exists>c. commit_scan s (commit_index s + 1) (?r - commit_index s) (commit_index s) = Some c"
    using r ci by (intro commit_scan_total) (auto simp: log_term_at_None)
  then obtain c where scan: "commit_scan s (commit_index s + 1) (?r - commit_index s) (commit_index s) = Some c"
    by blast
  from commit_scan_Some(1,2) [OF scan] r ci have c: "commit_index s \<le> c" "c \<le> lli s"
    by auto
  let ?es = "take (c - commit_index s) (drop (commit_index s - last_included_index s) (log s))"
  have "log_slice (s\<lparr>commit_index := c\<rparr>) (commit_index s + 1) (c + 1) = Some ?es"
    using c ci by (subst log_slice_ok) (auto simp: lli_def)
  then have "leader_commit s =
      Some (apply_actions (commit_index s) ?es, s\<lparr>commit_index := c, last_applied := c\<rparr>)"
    using scan r ci c assms(2) by (simp add: leader_commit_def last_log_index_eq Let_def)
  with c applied_log_range [of s "commit_index s" c] ci that show thesis by auto
qed

section \<open>Read barriers\<close>

text \<open>Exactly the barriers whose count plus the majority is reached are released; the others stay.\<close>

lemma extract_ready_Some:
  assumes "extract_ready count m bs = Some (ready, rest)"
  shows "ready = map (\<lambda>b. ReadBarrierReady (fst b)) (filter (\<lambda>b. snd b + m \<le> count) bs)"
    and "rest = filter (\<lambda>b. \<not> snd b + m \<le> count) bs"
  using assms
  by (induction bs arbitrary: ready rest) (auto simp: opt_bind checked split: if_splits)

lemma extract_ready_total:
  "(\<And>b. b \<in> set bs \<Longrightarrow> snd b + m < u64_bound) \<Longrightarrow> \<exists>x. extract_ready count m bs = Some x"
proof (induction bs)
  case (Cons b bs)
  then obtain x where "extract_ready count m bs = Some x" by auto
  moreover have "snd b + m < u64_bound" using Cons.prems by simp
  ultimately show ?case by (cases x) simp
qed simp

lemma release_barriers_Some:
  assumes "release_barriers s = Some (as, s')"
  shows "s' = s\<lparr>read_barriers := filter (\<lambda>b. \<not> snd b + read_majority s \<le> append_entries_count s) (read_barriers s)\<rparr>"
    and "as = map (\<lambda>b. ReadBarrierReady (fst b))
           (filter (\<lambda>b. snd b + read_majority s \<le> append_entries_count s) (read_barriers s))"
proof -
  from assms obtain rest where
    e: "extract_ready (append_entries_count s) (read_majority s) (read_barriers s) = Some (as, rest)"
    and s': "s' = s\<lparr>read_barriers := rest\<rparr>"
    unfolding release_barriers_def by (rule bind_pair_SomeE) simp
  from extract_ready_Some(2) [OF e] s'
  show "s' = s\<lparr>read_barriers := filter (\<lambda>b. \<not> snd b + read_majority s \<le> append_entries_count s) (read_barriers s)\<rparr>"
    by simp
  from extract_ready_Some(1) [OF e]
  show "as = map (\<lambda>b. ReadBarrierReady (fst b))
           (filter (\<lambda>b. snd b + read_majority s \<le> append_entries_count s) (read_barriers s))" .
qed

lemma release_barriers_silent:
  assumes "release_barriers s = Some (as, s')"
  shows "list_all quiet as \<and> list_all (\<lambda>a. \<not> touches_log a) as \<and> applied as = []"
proof -
  have "applied (map (\<lambda>b. ReadBarrierReady (fst b)) bs) = []" for bs :: "(u64 \<times> u64) list"
    by (induction bs) auto
  then show ?thesis
    using release_barriers_Some(2) [OF assms] by (auto simp: list_all_iff quiet_def)
qed

section \<open>The handler\<close>

lemma handle_append_entries_response_Some:
  assumes "handle_append_entries_response rng resp s0 = Some (as, s')"
  obtains (success) pa s s1 a s2 r where "check_msg_term rng (aer_term resp) s0 = Some (pa, s)"
      "aer_success resp" "record_success resp s = Some s1" "leader_commit s1 = Some (a, s2)"
      "release_barriers s2 = Some (r, s')" "as = opt_list pa @ a @ r"
    | (failure) pa s m where "check_msg_term rng (aer_term resp) s0 = Some (pa, s)"
      "\<not> aer_success resp" "s' = record_failure resp s"
      "build_append_entries_for_peer s' (aer_id resp) = Some m" "as = opt_list pa @ [m]"
proof -
  from assms obtain pa s where c: "check_msg_term rng (aer_term resp) s0 = Some (pa, s)"
    unfolding handle_append_entries_response_def by (rule bind_pair_SomeE)
  note rest = assms [unfolded handle_append_entries_response_def c Let_def, simplified]
  show thesis
  proof (cases "aer_success resp")
    case True
    with rest c show thesis by (auto simp: opt_bind intro: success)
  next
    case False
    with rest c show thesis by (auto simp: opt_bind intro: failure)
  qed
qed

lemma record_success_Some:
  "record_success resp s = Some s' \<Longrightarrow>
     s' = s\<lparr>match_index := AList.update (aer_id resp) (aer_match_index resp) (match_index s),
            next_index := AList.update (aer_id resp) (aer_match_index resp + 1) (next_index s),
            append_entries_count := append_entries_count s + 1\<rparr>"
  by (auto simp: record_success_def opt_bind checked)

lemma handle_append_entries_response_contract:
  assumes "handle_append_entries_response rng resp s = Some (as, s')"
  shows "op_contract s as s'"
  using assms
proof (cases rule: handle_append_entries_response_Some)
  case (success pa s1 s2 a s3 r)
  note f = record_success_Some [OF success(3)] leader_commit_Some [OF success(4)]
    release_barriers_Some(1) [OF success(5)] release_barriers_silent [OF success(5)]
  from f(2) obtain c where "s3 = s2\<lparr>commit_index := c, last_applied := c\<rparr>" by blast
  with f have "same_config s1 s'" "metadata s' = metadata s1"
    by (simp_all add: same_config_def metadata_def)
  with f check_msg_term_contract [OF success(1)] success(6) show ?thesis
    by (simp add: op_contract_quiet)
next
  case (failure pa s1 m)
  with check_msg_term_contract [OF failure(1)] build_append_entries_quiet [OF failure(4)] show ?thesis
    by (auto intro!: op_contract_quiet simp: same_config_def metadata_def record_failure_def)
qed

lemma handle_append_entries_response_role:
  assumes "handle_append_entries_response rng resp s = Some (as, s')"
  shows "role_step V s s'"
proof -
  obtain pa s1 where c: "check_msg_term rng (aer_term resp) s = Some (pa, s1)"
    and same: "state s' = state s1" "current_term s' = current_term s1" "voted_for s' = voted_for s1"
      "votes_received s' = votes_received s1" "peers s' = peers s1"
    using assms
  proof (cases rule: handle_append_entries_response_Some)
    case (success pa s1 s2 a s3 r)
    from leader_commit_Some(1) [OF success(4)] obtain c where
      "s3 = s2\<lparr>commit_index := c, last_applied := c\<rparr>" by blast
    with that success(1) record_success_Some [OF success(3)] release_barriers_Some(1) [OF success(5)]
    show thesis by simp
  next
    case (failure pa s1 m)
    with that show thesis by (simp add: record_failure_def)
  qed
  from check_msg_term_role [OF c] same show ?thesis by (rule role_step_target)
qed

section \<open>The handler does not panic\<close>

text \<open>What a node knows of its followers stays inside its own log, and no barrier is newer than the
  count of successes.\<close>

definition tracks :: "RaftCore \<Rightarrow> bool" where
  "tracks s \<longleftrightarrow>
     list_all (\<lambda>e. snd e \<le> lli s) (match_index s) \<and> next_bounded s \<and>
     list_all (\<lambda>b. snd b \<le> append_entries_count s) (read_barriers s)"

text \<open>A response that speaks about indices the receiver has.\<close>

definition response_inside :: "AppendEntriesResponseRPC \<Rightarrow> RaftCore \<Rightarrow> bool" where
  "response_inside resp s \<longleftrightarrow>
     (if aer_success resp then aer_match_index resp \<le> lli s
      else case aer_first_conflicting_index resp of None \<Rightarrow> True | Some i \<Rightarrow> i \<le> lli s + 1)"

lemma list_all_update:
  "list_all P al \<Longrightarrow> P (k, v) \<Longrightarrow> list_all P (AList.update k v al)"
  using set_update_subset [of k v al] by (auto simp: list_all_iff)

lemma list_all_and_modify:
  "list_all (\<lambda>e. snd e \<le> b) al \<Longrightarrow> v \<le> b \<Longrightarrow> list_all (\<lambda>e. snd e \<le> b) (and_modify k v al)"
  unfolding and_modify_def by (induction al) auto

lemma record_success_ok:
  assumes "lli s + 1 < u64_bound" and "tracks s" and "aer_match_index resp \<le> lli s"
    and "append_entries_count s + 1 < u64_bound"
  obtains s1 where "record_success resp s = Some s1" "tracks s1"
    "s1 = s\<lparr>match_index := match_index s1, next_index := next_index s1,
            append_entries_count := append_entries_count s + 1\<rparr>"
proof -
  let ?s1 = "s\<lparr>match_index := AList.update (aer_id resp) (aer_match_index resp) (match_index s),
            next_index := AList.update (aer_id resp) (aer_match_index resp + 1) (next_index s),
            append_entries_count := append_entries_count s + 1\<rparr>"
  have "record_success resp s = Some ?s1" using assms by (simp add: record_success_def)
  moreover have "tracks ?s1"
    using assms(2,3)
    by (auto simp: tracks_def next_bounded_def lli_def list_all_update list_all_iff
        dest!: set_update_subset [THEN subsetD])
  ultimately show thesis using that by simp
qed

lemma release_barriers_ok:
  assumes "tracks s" and "append_entries_count s + read_majority s < u64_bound"
  obtains as s' where "release_barriers s = Some (as, s')" "tracks s'"
    "s' = s\<lparr>read_barriers := read_barriers s'\<rparr>"
proof -
  have "\<exists>x. extract_ready (append_entries_count s) (read_majority s) (read_barriers s) = Some x"
    using assms by (intro extract_ready_total) (auto simp: tracks_def list_all_iff)
  then obtain as s' where r: "release_barriers s = Some (as, s')" by (auto simp: release_barriers_def)
  from release_barriers_Some(1) [OF this] obtain bs where
    s': "s' = s\<lparr>read_barriers := bs\<rparr>" and "set bs \<subseteq> set (read_barriers s)" by fastforce
  with assms(1) have "tracks s'"
    by (auto simp: tracks_def next_bounded_def lli_def list_all_iff)
  with r s' that show thesis by simp
qed

lemma tracks_step_down [simp]: "tracks s \<Longrightarrow> tracks (stepped_down t tm s)"
  by (simp add: tracks_def next_bounded_def)

lemma check_msg_term_tracks:
  assumes "check_msg_term rng t s = Some (pa, s')" and "tracks s"
  shows "tracks s'" and "append_entries_count s' = append_entries_count s"
    and "read_majority s' = read_majority s" and "response_inside resp s' = response_inside resp s"
  using check_msg_term_Some [OF assms(1)] assms(2)
  by (auto simp: read_majority_def response_inside_def split: option.splits)

lemma append_effect_target:
  assumes "append_effect s as s1" and "list_all (\<lambda>a. \<not> touches_log a) bs" and "applied bs = []"
    and "log s' = log s1" "last_included_index s' = last_included_index s1"
      "commit_index s' = commit_index s1" "last_applied s' = last_applied s1"
  shows "append_effect s (as @ bs) s'"
proof -
  have "logged s' = logged s1" "log_frames s' = log_frames s1" "log_ok s' = log_ok s1"
    using assms(4-) by (simp_all add: logged_def fun_eq_iff log_frames_def log_ok_def lli_def)
  then show ?thesis using assms by (simp add: append_effect_def disk_replay_untouched)
qed

lemma append_effect_source:
  assumes "append_effect s1 bs s'" and "list_all (\<lambda>a. \<not> touches_log a) as" and "applied as = []"
    and "log s = log s1" "last_included_index s = last_included_index s1"
      "commit_index s = commit_index s1" "last_applied s = last_applied s1"
  shows "append_effect s (as @ bs) s'"
proof -
  have "log_frames s = log_frames s1" using assms(4-) by (simp add: log_frames_def)
  then show ?thesis using assms by (simp add: append_effect_def disk_replay_untouched)
qed

lemma leader_commit_effect:
  assumes "log_ok s" and "lli s + 1 < u64_bound" and "tracks s"
  obtains as s' where "leader_commit s = Some (as, s')" "append_effect s as s'" "tracks s'"
    "s' = s\<lparr>commit_index := commit_index s', last_applied := commit_index s'\<rparr>"
proof -
  have "\<And>e. e \<in> set (match_index s) \<Longrightarrow> snd e \<le> lli s"
    using assms(3) by (auto simp: tracks_def list_all_iff)
  from leader_commit_ok [OF assms(1,2) this] obtain as c where
    l: "leader_commit s = Some (as, s\<lparr>commit_index := c, last_applied := c\<rparr>)"
    and c: "commit_index s \<le> c" "c \<le> lli s"
    and ap: "applied as = map (logged s) [last_applied s + 1..<c + 1]"
    by blast
  let ?s' = "s\<lparr>commit_index := c, last_applied := c\<rparr>"
  have "append_effect s as ?s'"
    using c ap assms(1) leader_commit_Some(3) [OF l]
    by (simp add: append_effect_def log_ok_def lli_def logged_def log_frames_def disk_replay_untouched)
  moreover have "tracks ?s'" using assms(3) by (simp add: tracks_def next_bounded_def lli_def)
  ultimately show thesis using l that by simp
qed

lemma handle_append_entries_response_effect:
  assumes "rng_ok rng" and "fst (election_timeout_range s) < snd (election_timeout_range s)"
    and "log_ok s" and "tracks s" and "response_inside resp s" and "lli s + 1 < u64_bound"
    and "append_entries_count s + read_majority s + 1 < u64_bound"
  shows "\<exists>as s'. handle_append_entries_response rng resp s = Some (as, s') \<and>
           append_effect s as s' \<and> tracks s'"
proof -
  from check_msg_term_ok [OF assms(1,2)] obtain pa s1 where
    c: "check_msg_term rng (aer_term resp) s = Some (pa, s1)" by blast
  note tr = check_msg_term_transfer [OF c] check_msg_term_tracks [OF c assms(4)]
  have u: "list_all (\<lambda>a. \<not> touches_log a) (opt_list pa)" "applied (opt_list pa) = []"
    using check_msg_term_untouched [OF c] check_msg_term_applied [OF c] by auto
  have ok: "log_ok s1" "lli s1 + 1 < u64_bound" "response_inside resp s1"
    using assms(3,5,6) tr by simp_all
  have self: "append_effect s1 [] s1" using ok(1) by (simp add: append_effect_same)
  show ?thesis
  proof (cases "aer_success resp")
    case True
    with ok(3) have "aer_match_index resp \<le> lli s1" by (simp add: response_inside_def)
    moreover have "append_entries_count s1 + 1 < u64_bound" using assms(7) tr by simp
    ultimately obtain s2 where r: "record_success resp s1 = Some s2" "tracks s2"
      and s2: "s2 = s1\<lparr>match_index := match_index s2, next_index := next_index s2,
                       append_entries_count := append_entries_count s1 + 1\<rparr>"
      using record_success_ok [OF ok(2) tr(13)] by metis
    from s2 obtain M N where e2: "s2 = s1\<lparr>match_index := M, next_index := N,
                       append_entries_count := append_entries_count s1 + 1\<rparr>" by blast
    have "log_ok s2" "lli s2 + 1 < u64_bound" using ok by (simp_all add: e2 log_ok_def lli_def)
    from leader_commit_effect [OF this r(2)] obtain a s3 where
      l: "leader_commit s2 = Some (a, s3)" "append_effect s2 a s3" "tracks s3"
      and s3: "s3 = s2\<lparr>commit_index := commit_index s3, last_applied := commit_index s3\<rparr>" .
    from s3 obtain k where "s3 = s2\<lparr>commit_index := k, last_applied := k\<rparr>" by blast
    then have "append_entries_count s3 + read_majority s3 < u64_bound"
      using assms(7) tr by (simp add: e2 read_majority_def)
    from release_barriers_ok [OF l(3) this] obtain b s4 where
      rb: "release_barriers s3 = Some (b, s4)" "tracks s4" and s4: "s4 = s3\<lparr>read_barriers := read_barriers s4\<rparr>" .
    from s4 obtain B where "s4 = s3\<lparr>read_barriers := B\<rparr>" by blast
    then have "append_effect s2 (a @ b) s4"
      using release_barriers_silent [OF rb(1)] by (intro append_effect_target [OF l(2)]) auto
    then have "append_effect s (opt_list pa @ a @ b) s4"
      using u by (rule append_effect_source) (simp_all add: e2 tr)
    moreover have "handle_append_entries_response rng resp s = Some (opt_list pa @ a @ b, s4)"
      using True by (simp add: handle_append_entries_response_def c r l rb)
    ultimately show ?thesis using rb(2) by blast
  next
    case False
    let ?s2 = "record_failure resp s1"
    have "next_bounded ?s2" "tracks ?s2"
      using tr(13) ok(3) False
      by (auto simp: tracks_def next_bounded_def record_failure_def lli_def response_inside_def
          intro!: list_all_and_modify split: option.splits)
    moreover have "lli ?s2 + 1 < u64_bound" using ok by (simp add: record_failure_def lli_def)
    ultimately obtain m where m: "build_append_entries_for_peer ?s2 (aer_id resp) = Some m"
      using build_append_entries_total by blast
    have am: "applied [m] = []" using m by (cases rule: build_append_entries_cases)
        (auto simp: install_snapshot_for_peer_def)
    have "append_effect s1 ([] @ [m]) ?s2"
      using build_append_entries_quiet [OF m] am
      by (intro append_effect_target [OF self]) (auto simp: record_failure_def simp del: applied.simps)
    then have "append_effect s (opt_list pa @ [m]) ?s2"
      using u by (intro append_effect_source [of s1]) (simp_all add: tr)
    moreover have "handle_append_entries_response rng resp s = Some (opt_list pa @ [m], ?s2)"
      using False m by (simp add: handle_append_entries_response_def c)
    ultimately show ?thesis using \<open>tracks ?s2\<close> by blast
  qed
qed

section \<open>Read barriers\<close>

lemma request_read_barrier_Some:
  assumes "request_read_barrier s = Some (r, s')"
  shows "r = None \<and> s' = s \<and> state s \<noteq> Leader \<or>
    state s = Leader \<and> r = Some (next_read_barrier_id s + 1) \<and>
    s' = s\<lparr>next_read_barrier_id := next_read_barrier_id s + 1,
           read_barriers := AList.update (next_read_barrier_id s + 1) (append_entries_count s) (read_barriers s)\<rparr>"
  using assms by (auto simp: request_read_barrier_def opt_bind checked split: if_splits)

lemma request_read_barrier_contract:
  "request_read_barrier s = Some (r, s') \<Longrightarrow> op_contract s [] s' \<and> role_step V s s'"
  by (auto dest!: request_read_barrier_Some intro!: op_contract_silent role_step_same
      simp: same_config_def metadata_def)

end
