(* ===== verification/RaftSnapshot.thy ===== *)
theory RaftSnapshot
  imports RaftLeader
begin

text \<open>
  Log compaction (\<open>src/crates/raftcore/src/lib.rs\<close>): \<open>prepare_snapshot\<close> and
  \<open>complete_snapshot\<close>, which the event loop calls around writing a snapshot, and the two handlers
  of the InstallSnapshot exchange.
\<close>

definition prepare_snapshot :: "RaftCore \<Rightarrow> SnapshotMetadata option" where
  "prepare_snapshot s = do {
     t \<leftarrow> log_term_at s (last_applied s);
     Some \<lparr> sm_last_applied = last_applied s, sm_last_applied_term = t \<rparr> }"

definition complete_snapshot :: "SnapshotMetadata \<Rightarrow> RaftCore \<Rightarrow> RaftCore option" where
  "complete_snapshot m s =
     (if sm_last_applied m \<le> last_included_index s then Some s
      else do {
        n \<leftarrow> u64_sub (sm_last_applied m) (last_included_index s);
        rest \<leftarrow> vec_drain_to (log s) n;
        Some (s\<lparr>log := rest, last_included_index := sm_last_applied m,
                last_included_term := sm_last_applied_term m\<rparr>) })"

definition snapshot_response :: "RaftCore \<Rightarrow> NodeId \<Rightarrow> u64 \<Rightarrow> Action" where
  "snapshot_response s leader index =
     SendMessage leader (InstallSnapshotResponse
       \<lparr> isr_id = node_id s, isr_term = current_term s, isr_last_included_index = index \<rparr>)"

definition handle_install_snapshot ::
  "rng \<Rightarrow> InstallSnapshotRPC \<Rightarrow> RaftCore \<Rightarrow> (Action list \<times> RaftCore) option" where
  "handle_install_snapshot rng req s0 = do {
     (pa, s1) \<leftarrow> check_msg_term rng (is_term req) s0;
     let actions = opt_list pa;
     let bail_response = snapshot_response s1 (is_leader_id req) (last_included_index s1);
     (if is_term req < current_term s1 then Some (actions @ [bail_response], s1)
      else do {
        let s2 = (if is_term req = current_term s1 \<and> state s1 = Candidate
                  then s1\<lparr>state := Follower\<rparr> else s1);
        s3 \<leftarrow> reset_election_timeout rng s2;
        let s4 = s3\<lparr>current_leader := Some (is_leader_id req)\<rparr>;
        (if is_last_included_index req \<le> last_included_index s4 then
           Some (actions @ [bail_response], s4)
         else if log_term_at s4 (is_last_included_index req) = Some (is_last_included_term req) then
           Some (actions @ [snapshot_response s4 (is_leader_id req) (is_last_included_index req)], s4)
         else do {
           let s5 = s4\<lparr>log := [], last_included_index := is_last_included_index req,
                       last_included_term := is_last_included_term req,
                       last_applied := is_last_included_index req,
                       commit_index := is_last_included_index req\<rparr>;
           Some (actions @
             [InstallSnapshot (is_last_included_index req) (is_last_included_term req) (is_data req),
              snapshot_response s5 (is_leader_id req) (last_included_index s5)], s5) }) }) }"

definition handle_install_snapshot_response ::
  "rng \<Rightarrow> InstallSnapshotResponseRPC \<Rightarrow> RaftCore \<Rightarrow> (Action list \<times> RaftCore) option" where
  "handle_install_snapshot_response rng resp s0 = do {
     (pa, s) \<leftarrow> check_msg_term rng (isr_term resp) s0;
     let actions = opt_list pa;
     (if state s \<noteq> Leader then Some (actions, s)
      else do {
        nxt \<leftarrow> u64_add (isr_last_included_index resp) 1;
        Some (actions,
          s\<lparr>next_index := AList.update (isr_id resp) nxt (next_index s),
            match_index := AList.update (isr_id resp) (isr_last_included_index resp)
                             (match_index s)\<rparr>) }) }"

section \<open>Compaction\<close>

lemma prepare_snapshot_ok:
  assumes "log_ok s"
  obtains m where "prepare_snapshot s = Some m" "sm_last_applied m = last_applied s"
    "log_term_at s (last_applied s) = Some (sm_last_applied_term m)"
proof -
  from assms have "last_included_index s \<le> last_applied s" "last_applied s \<le> lli s"
    by (auto simp: log_ok_def)
  from log_term_at_in_range [OF this] obtain t where "log_term_at s (last_applied s) = Some t" ..
  with that [of "\<lparr> sm_last_applied = last_applied s, sm_last_applied_term = t \<rparr>"] show thesis
    by (simp add: prepare_snapshot_def)
qed

text \<open>Compaction keeps every index, term and entry behind the snapshot, and the node's commit and
  apply positions.  The metadata may have been prepared on an earlier state.\<close>

definition same_log_behind :: "RaftCore \<Rightarrow> RaftCore \<Rightarrow> bool" where
  "same_log_behind s s' \<longleftrightarrow>
     lli s' = lli s \<and>
     (\<forall>i\<ge>last_included_index s'. log_term_at s' i = log_term_at s i) \<and>
     (\<forall>i>last_included_index s'. log_entry_at s' i = log_entry_at s i)"

lemma complete_snapshot_Some:
  assumes "complete_snapshot m s = Some s'"
  shows "s' = s \<and> sm_last_applied m \<le> last_included_index s \<or>
    last_included_index s < sm_last_applied m \<and> sm_last_applied m \<le> lli s \<and>
    s' = s\<lparr>log := drop (sm_last_applied m - last_included_index s) (log s),
           last_included_index := sm_last_applied m,
           last_included_term := sm_last_applied_term m\<rparr>"
  using assms
  by (auto simp: complete_snapshot_def opt_bind checked lli_def split: if_splits)

lemma complete_snapshot_ok:
  assumes "sm_last_applied m \<le> lli s"
  shows "\<exists>s'. complete_snapshot m s = Some s'"
  using assms by (auto simp: complete_snapshot_def vec_drain_to_def lli_def)

lemma complete_snapshot_keeps:
  assumes "complete_snapshot m s = Some s'"
    and "last_included_index s < sm_last_applied m \<longrightarrow>
         log_term_at s (sm_last_applied m) = Some (sm_last_applied_term m)"
  shows "same_log_behind s s'"
proof (cases "sm_last_applied m \<le> last_included_index s")
  case True
  with complete_snapshot_Some [OF assms(1)] show ?thesis by (simp add: same_log_behind_def)
next
  case False
  let ?n = "sm_last_applied m"
  have n: "last_included_index s < ?n" "?n \<le> lli s"
    and s': "s' = s\<lparr>log := drop (?n - last_included_index s) (log s),
           last_included_index := ?n, last_included_term := sm_last_applied_term m\<rparr>"
    using complete_snapshot_Some [OF assms(1)] False by auto
  have l: "lli s' = lli s" using n by (simp add: s' lli_def)
  have e: "log_entry_at s' i = log_entry_at s i" if "?n < i" for i
  proof (cases "i \<le> lli s")
    case True
    have "log s' ! (i - ?n - 1) = log s ! (i - last_included_index s - 1)"
      using n that True by (simp add: s' lli_def)
    then have "\<And>x. log_entry_at s' i = Some x \<longleftrightarrow> log_entry_at s i = Some x"
      using n that True l by (simp add: log_entry_at_Some s')
    then show ?thesis by (metis not_None_eq)
  next
    case no: False
    then have "\<And>x. log_entry_at s' i \<noteq> Some x \<and> log_entry_at s i \<noteq> Some x"
      using l by (simp add: log_entry_at_Some)
    then show ?thesis by (metis not_None_eq)
  qed
  have "log_term_at s' i = log_term_at s i" if "?n \<le> i" for i
  proof (cases "i = ?n")
    case True
    have "log_term_at s' ?n = Some (sm_last_applied_term m)" by (simp add: s' log_term_at_def)
    with assms(2) n True show ?thesis by simp
  next
    case no: False
    with that n e [of i] show ?thesis by (simp add: log_term_at_def s')
  qed
  with l e show ?thesis by (simp add: same_log_behind_def s')
qed

text \<open>The frames of the compacted log are those of the old log behind the snapshot.\<close>

lemma complete_snapshot_frames:
  assumes "complete_snapshot m s = Some s'"
  shows "log_frames s' = filter (\<lambda>f. last_included_index s' < fst f) (log_frames s)"
proof -
  have behind: "filter (\<lambda>f. n < fst f) (enumerate (Suc l) xs) = enumerate (Suc n) (drop (n - l) xs)"
    if "l \<le> n" for n l and xs :: "LogEntry list"
    using that
  proof (induction xs arbitrary: l)
    case (Cons x xs)
    show ?case
    proof (cases "n = l")
      case True
      have "filter (\<lambda>f. l < fst f) (enumerate (Suc (Suc l)) xs) = enumerate (Suc (Suc l)) xs"
        by (rule filter_True) (auto simp: in_set_enumerate_eq)
      with True show ?thesis by simp
    next
      case False
      then have "n - l = Suc (n - Suc l)" using Cons.prems by simp
      with Cons.IH [of "Suc l"] False Cons.prems show ?thesis by simp
    qed
  qed simp
  from complete_snapshot_Some [OF assms] behind [of "last_included_index s" "last_included_index s'" "log s"]
  show ?thesis by (auto simp: log_frames_def)
qed

lemma complete_snapshot_log_ok:
  assumes "complete_snapshot m s = Some s'" and "log_ok s" and "sm_last_applied m \<le> last_applied s"
  shows "log_ok s' \<and> commit_index s' = commit_index s \<and> last_applied s' = last_applied s"
  using complete_snapshot_Some [OF assms(1)] assms(2,3) by (auto simp: log_ok_def lli_def)

lemma complete_snapshot_contract:
  assumes "complete_snapshot m s = Some s'"
  shows "op_contract s [] s' \<and> role_step V s s'"
  using complete_snapshot_Some [OF assms]
  by (auto intro!: op_contract_silent role_step_same simp: same_config_def metadata_def)

section \<open>Receiving a snapshot\<close>

text \<open>The log of the receiver is replaced by the snapshot.\<close>

definition installed :: "InstallSnapshotRPC \<Rightarrow> RaftCore \<Rightarrow> RaftCore" where
  "installed req s =
     s\<lparr>log := [], last_included_index := is_last_included_index req,
       last_included_term := is_last_included_term req,
       last_applied := is_last_included_index req,
       commit_index := is_last_included_index req\<rparr>"

lemma handle_install_snapshot_Some:
  assumes "handle_install_snapshot rng req s0 = Some (as, s')"
  obtains (stale) pa s1 where "check_msg_term rng (is_term req) s0 = Some (pa, s1)"
      "is_term req < current_term s1" "s' = s1"
      "as = opt_list pa @ [snapshot_response s1 (is_leader_id req) (last_included_index s1)]"
    | (known) pa s1 st tm i where "check_msg_term rng (is_term req) s0 = Some (pa, s1)"
      "is_term req = current_term s1" "st = state s1 \<or> st = Follower" "st \<noteq> Candidate"
      "s' = s1\<lparr>state := st, ticks_since_last_heartbeat := 0, election_timeout := tm,
               current_leader := Some (is_leader_id req)\<rparr>"
      "is_last_included_index req \<le> last_included_index s1 \<or>
       log_term_at s1 (is_last_included_index req) = Some (is_last_included_term req)"
      "as = opt_list pa @ [snapshot_response s' (is_leader_id req) i]"
      "i = max (last_included_index s1) (is_last_included_index req)"
    | (replaced) pa s1 st tm where "check_msg_term rng (is_term req) s0 = Some (pa, s1)"
      "is_term req = current_term s1" "st = state s1 \<or> st = Follower" "st \<noteq> Candidate"
      "last_included_index s1 < is_last_included_index req"
      "log_term_at s1 (is_last_included_index req) \<noteq> Some (is_last_included_term req)"
      "s' = installed req (s1\<lparr>state := st, ticks_since_last_heartbeat := 0, election_timeout := tm,
               current_leader := Some (is_leader_id req)\<rparr>)"
      "as = opt_list pa @
         [InstallSnapshot (is_last_included_index req) (is_last_included_term req) (is_data req),
          snapshot_response s' (is_leader_id req) (is_last_included_index req)]"
proof -
  from assms obtain pa s1 where c: "check_msg_term rng (is_term req) s0 = Some (pa, s1)"
    unfolding handle_install_snapshot_def by (rule bind_pair_SomeE)
  note rest = assms [unfolded handle_install_snapshot_def c Let_def, simplified]
  show thesis
  proof (cases "is_term req < current_term s1")
    case True
    with rest c show thesis by (intro stale) auto
  next
    case False
    define st where "st = (if state s1 = Candidate then Follower else state s1)"
    from False check_msg_term_reaches [OF c] have eq: "is_term req = current_term s1" by simp
    have s2: "(if is_term req = current_term s1 \<and> state s1 = Candidate then s1\<lparr>state := Follower\<rparr> else s1)
        = s1\<lparr>state := st\<rparr>" using eq by (auto simp: st_def)
    have st: "st = state s1 \<or> st = Follower" "st \<noteq> Candidate" by (auto simp: st_def)
    from rest False s2 obtain s3 where "reset_election_timeout rng (s1\<lparr>state := st\<rparr>) = Some s3"
      by (auto simp: opt_bind)
    then obtain tm where r: "reset_election_timeout rng (s1\<lparr>state := st\<rparr>) =
        Some (s1\<lparr>state := st, ticks_since_last_heartbeat := 0, election_timeout := tm\<rparr>)"
      by (auto dest: reset_election_timeout_Some)
    let ?s4 = "s1\<lparr>state := st, ticks_since_last_heartbeat := 0, election_timeout := tm,
               current_leader := Some (is_leader_id req)\<rparr>"
    have t4: "log_term_at ?s4 i = log_term_at s1 i" for i by (rule log_term_at_cong) simp_all
    have m4: "snapshot_response ?s4 l i = snapshot_response s1 l i"
      "snapshot_response (installed req ?s4) l i = snapshot_response s1 l i" for l i
      by (simp_all add: snapshot_response_def installed_def)
    note rest4 = rest [unfolded s2 r, simplified, unfolded t4 m4]
    show thesis
    proof (cases "is_last_included_index req \<le> last_included_index s1 \<or>
        log_term_at s1 (is_last_included_index req) = Some (is_last_included_term req)")
      case True
      with rest4 False have "s' = ?s4" "as = opt_list pa @ [snapshot_response s1 (is_leader_id req)
          (max (last_included_index s1) (is_last_included_index req))]"
        by (auto simp: t4 m4 max_def split: if_splits)
      with c eq st True m4 show thesis by (metis known)
    next
      case no: False
      with rest4 False have "s' = installed req ?s4"
        "as = opt_list pa @
         [InstallSnapshot (is_last_included_index req) (is_last_included_term req) (is_data req),
          snapshot_response s1 (is_leader_id req) (is_last_included_index req)]"
        by (auto simp: t4 installed_def snapshot_response_def split: if_splits)
      with c eq st no m4 show thesis by (intro replaced) auto
    qed
  qed
qed

lemma installed_sel [simp]:
  "node_id (installed req s) = node_id s" "peers (installed req s) = peers s"
  "state (installed req s) = state s" "current_term (installed req s) = current_term s"
  "voted_for (installed req s) = voted_for s" "votes_received (installed req s) = votes_received s"
  "election_timeout_range (installed req s) = election_timeout_range s"
  "heartbeat_interval (installed req s) = heartbeat_interval s"
  "log (installed req s) = []" "commit_index (installed req s) = is_last_included_index req"
  "last_applied (installed req s) = is_last_included_index req"
  "last_included_index (installed req s) = is_last_included_index req"
  "last_included_term (installed req s) = is_last_included_term req"
  "lli (installed req s) = is_last_included_index req"
  by (simp_all add: installed_def lli_def)

lemma snapshot_response_quiet [simp]:
  "quiet (snapshot_response s l i)" "\<not> touches_log (snapshot_response s l i)"
  "applied [snapshot_response s l i] = []"
  by (simp_all add: snapshot_response_def quiet_def)

lemma handle_install_snapshot_contract:
  assumes "handle_install_snapshot rng req s = Some (as, s')"
  shows "op_contract s as s'"
  using assms
proof (cases rule: handle_install_snapshot_Some)
  case (stale pa s1)
  with check_msg_term_contract [OF stale(1)] show ?thesis
    by (auto intro!: op_contract_quiet)
next
  case (known pa s1 st tm i)
  with check_msg_term_contract [OF known(1)] show ?thesis
    by (auto intro!: op_contract_quiet simp: same_config_def metadata_def)
next
  case (replaced pa s1 st tm)
  with check_msg_term_contract [OF replaced(1)] show ?thesis
    by (auto intro!: op_contract_quiet simp: same_config_def metadata_def quiet_def [of "InstallSnapshot _ _ _"])
qed

lemma handle_install_snapshot_role:
  assumes "handle_install_snapshot rng req s = Some (as, s')"
  shows "role_step V s s'"
  using assms
proof (cases rule: handle_install_snapshot_Some)
  case (stale pa s1)
  then show ?thesis by (simp add: check_msg_term_role)
next
  case (known pa s1 st tm i)
  with check_msg_term_role [OF known(1), of V] show ?thesis
    by (auto simp: role_step_def has_quorum_def)
next
  case (replaced pa s1 st tm)
  with check_msg_term_role [OF replaced(1), of V] show ?thesis
    by (auto simp: role_step_def has_quorum_def)
qed

text \<open>The three outcomes: a request of an earlier term changes nothing; a snapshot that the log covers is
  acknowledged; another one replaces the log.\<close>

lemma handle_install_snapshot_outcome:
  assumes "handle_install_snapshot rng req s = Some (as, s')"
  shows "is_term req < current_term s \<and> s' = s \<and>
       as = [snapshot_response s (is_leader_id req) (last_included_index s)] \<or>
     current_term s \<le> is_term req \<and> current_term s' = is_term req \<and>
     current_leader s' = Some (is_leader_id req) \<and> ticks_since_last_heartbeat s' = 0 \<and> state s' \<noteq> Candidate \<and>
     (if is_last_included_index req \<le> last_included_index s \<or>
         log_term_at s (is_last_included_index req) = Some (is_last_included_term req)
      then log s' = log s \<and> last_included_index s' = last_included_index s \<and>
        last_included_term s' = last_included_term s \<and> commit_index s' = commit_index s \<and>
        last_applied s' = last_applied s \<and>
        (\<exists>pa. as = pa @ [snapshot_response s' (is_leader_id req)
                (max (last_included_index s) (is_last_included_index req))] \<and> list_all persists_metadata pa)
      else log s' = [] \<and> last_included_index s' = is_last_included_index req \<and>
        last_included_term s' = is_last_included_term req \<and> commit_index s' = is_last_included_index req \<and>
        last_applied s' = is_last_included_index req \<and>
        (\<exists>pa. as = pa @
           [InstallSnapshot (is_last_included_index req) (is_last_included_term req) (is_data req),
            snapshot_response s' (is_leader_id req) (is_last_included_index req)] \<and> list_all persists_metadata pa))"
  using assms
proof (cases rule: handle_install_snapshot_Some)
  case (stale pa s1)
  with check_msg_term_Some [OF stale(1)] show ?thesis by auto
next
  case (known pa s1 st tm i)
  note tr = check_msg_term_transfer [OF known(1)]
  have lt: "log_term_at s1 j = log_term_at s j" for j using tr by (intro log_term_at_cong) auto
  have t: "current_term s \<le> is_term req" and p: "list_all persists_metadata (opt_list pa)"
    using check_msg_term_Some [OF known(1)] known(2) by auto
  have c: "is_last_included_index req \<le> last_included_index s \<or>
      log_term_at s (is_last_included_index req) = Some (is_last_included_term req)"
    using known(6) tr lt by simp
  have as: "as = opt_list pa @ [snapshot_response s' (is_leader_id req)
      (max (last_included_index s) (is_last_included_index req))]"
    using known(7,8) tr by simp
  from c t p as show ?thesis unfolding if_P [OF c] using known(2,4) tr
    by (intro disjI2 conjI exI [of _ "opt_list pa"]) (simp_all add: known(5))
next
  case (replaced pa s1 st tm)
  note tr = check_msg_term_transfer [OF replaced(1)]
  have lt: "log_term_at s1 j = log_term_at s j" for j using tr by (intro log_term_at_cong) auto
  have t: "current_term s \<le> is_term req" and p: "list_all persists_metadata (opt_list pa)"
    using check_msg_term_Some [OF replaced(1)] replaced(2) by auto
  have c: "\<not> (is_last_included_index req \<le> last_included_index s \<or>
      log_term_at s (is_last_included_index req) = Some (is_last_included_term req))"
    using replaced(5,6) tr lt by simp
  from t p replaced(8) show ?thesis unfolding if_not_P [OF c] using replaced(2,4)
    by (intro disjI2 conjI exI [of _ "opt_list pa"]) (simp_all add: replaced(7) installed_def)
qed

text \<open>The snapshot agrees with what the node has committed.\<close>

definition snapshot_agrees :: "InstallSnapshotRPC \<Rightarrow> RaftCore \<Rightarrow> bool" where
  "snapshot_agrees req s \<longleftrightarrow>
     (last_included_index s < is_last_included_index req \<and> is_last_included_index req \<le> commit_index s \<longrightarrow>
      log_term_at s (is_last_included_index req) = Some (is_last_included_term req))"

definition install_effect :: "RaftCore \<Rightarrow> Action list \<Rightarrow> RaftCore \<Rightarrow> bool" where
  "install_effect s as s' \<longleftrightarrow>
     log_ok s' \<and> commit_index s \<le> commit_index s' \<and> applied as = [] \<and>
     disk_replay as (log_frames s) = log_frames s'"

lemma install_effect_same:
  assumes "append_effect s as s'" and "last_applied s' = last_applied s"
  shows "install_effect s as s'"
  using assms by (simp add: append_effect_def install_effect_def)

lemma handle_install_snapshot_effect:
  assumes "handle_install_snapshot rng req s = Some (as, s')" and "log_ok s" and "snapshot_agrees req s"
  shows "install_effect s as s'"
  using assms(1)
proof (cases rule: handle_install_snapshot_Some)
  case (stale pa s1)
  note tr = check_msg_term_transfer [OF stale(1)] check_msg_term_untouched [OF stale(1)]
    check_msg_term_applied [OF stale(1)]
  have "append_effect s as s'"
    using stale tr assms(2) by (intro append_effect_same) (auto simp del: applied.simps)
  with stale tr show ?thesis by (intro install_effect_same) auto
next
  case (known pa s1 st tm i)
  note tr = check_msg_term_transfer [OF known(1)] check_msg_term_untouched [OF known(1)]
    check_msg_term_applied [OF known(1)]
  have ok: "log_ok s'" using assms(2) tr by (simp add: known(5) log_ok_def lli_def)
  have "append_effect s as s'"
    using ok known tr assms(2)
    by (intro append_effect_same) (auto simp: log_frames_def simp del: applied.simps)
  with known tr show ?thesis by (intro install_effect_same) auto
next
  case (replaced pa s1 st tm)
  note tr = check_msg_term_transfer [OF replaced(1)] check_msg_term_untouched [OF replaced(1)]
    check_msg_term_applied [OF replaced(1)]
  have "log_term_at s1 i = log_term_at s i" for i
    using tr by (intro log_term_at_cong) auto
  with assms(3) replaced(5,6) tr have "commit_index s < is_last_included_index req"
    by (auto simp: snapshot_agrees_def)
  with tr show ?thesis
    by (simp add: install_effect_def replaced(7,8) log_ok_def log_frames_def disk_replay_untouched
        snapshot_response_def)
qed

lemma handle_install_snapshot_total:
  assumes "rng_ok rng" and "fst (election_timeout_range s) < snd (election_timeout_range s)"
  shows "\<exists>as s'. handle_install_snapshot rng req s = Some (as, s')"
proof -
  from check_msg_term_ok [OF assms] obtain pa s1 where
    c: "check_msg_term rng (is_term req) s = Some (pa, s1)" by blast
  define s2 where "s2 = (if is_term req = current_term s1 \<and> state s1 = Candidate
                  then s1\<lparr>state := Follower\<rparr> else s1)"
  have "election_timeout_range s2 = election_timeout_range s"
    using check_msg_term_transfer [OF c] by (simp add: s2_def)
  with reset_election_timeout_ok [OF assms(1), of s2] assms(2) obtain s3 where
    "reset_election_timeout rng s2 = Some s3" by auto
  then show ?thesis
    by (auto simp: handle_install_snapshot_def c Let_def s2_def [symmetric])
qed

section \<open>The answer to a snapshot\<close>

lemma handle_install_snapshot_response_Some:
  assumes "handle_install_snapshot_response rng resp s0 = Some (as, s')"
  obtains pa s where "check_msg_term rng (isr_term resp) s0 = Some (pa, s)" "as = opt_list pa"
    "s' = s \<or> state s = Leader \<and>
       s' = s\<lparr>next_index := AList.update (isr_id resp) (isr_last_included_index resp + 1) (next_index s),
              match_index := AList.update (isr_id resp) (isr_last_included_index resp) (match_index s)\<rparr>"
proof -
  from assms obtain pa s where c: "check_msg_term rng (isr_term resp) s0 = Some (pa, s)"
    unfolding handle_install_snapshot_response_def by (rule bind_pair_SomeE)
  note rest = assms [unfolded handle_install_snapshot_response_def c Let_def, simplified]
  show thesis
  proof (cases "state s = Leader")
    case True
    with rest show thesis by (intro that [OF c]) (auto simp: opt_bind checked)
  next
    case False
    with rest show thesis by (intro that [OF c]) simp_all
  qed
qed

lemma handle_install_snapshot_response_contract:
  assumes "handle_install_snapshot_response rng resp s = Some (as, s')"
  shows "op_contract s as s'"
  using assms
proof (rule handle_install_snapshot_response_Some)
  fix pa s1
  assume c: "check_msg_term rng (isr_term resp) s = Some (pa, s1)" and "as = opt_list pa"
    and "s' = s1 \<or> state s1 = Leader \<and>
       s' = s1\<lparr>next_index := AList.update (isr_id resp) (isr_last_included_index resp + 1) (next_index s1),
              match_index := AList.update (isr_id resp) (isr_last_included_index resp) (match_index s1)\<rparr>"
  with op_contract_quiet [OF check_msg_term_contract [OF c], of "[]" s'] show ?thesis
    by (auto simp: same_config_def metadata_def)
qed

lemma handle_install_snapshot_response_role:
  assumes "handle_install_snapshot_response rng resp s = Some (as, s')"
  shows "role_step V s s'"
  using assms
proof (rule handle_install_snapshot_response_Some)
  fix pa s1
  assume c: "check_msg_term rng (isr_term resp) s = Some (pa, s1)"
    and "s' = s1 \<or> state s1 = Leader \<and>
       s' = s1\<lparr>next_index := AList.update (isr_id resp) (isr_last_included_index resp + 1) (next_index s1),
              match_index := AList.update (isr_id resp) (isr_last_included_index resp) (match_index s1)\<rparr>"
  then show ?thesis by (elim disjE) (auto intro: role_step_target [OF check_msg_term_role [OF c]])
qed

end
