(* ===== verification/RaftMachine.thy ===== *)
theory RaftMachine
  imports RaftSnapshot
begin

text \<open>
  The core as one state machine.  \<open>dispatch_message\<close> is the dispatch of
  \<open>src/crates/raft-event-loop/src/lib.rs\<close> on the kind of a message; \<open>core_step\<close> adds the other
  entry points of the core.  The theory interprets the contract of \<open>RaftContract\<close> on
  \<open>core_step\<close> and proves the invariant of a single node and that no operation panics under it.
\<close>

section \<open>Dispatch\<close>

definition dispatch_message ::
  "rng \<Rightarrow> Message \<Rightarrow> RaftCore \<Rightarrow> (Action list \<times> RaftCore) option" where
  "dispatch_message rng msg s =
     (case msg of
        RequestVote r \<Rightarrow> handle_request_vote rng r s
      | RequestVoteResponse r \<Rightarrow> handle_request_vote_response rng r s
      | AppendEntries r \<Rightarrow> handle_append_entries rng r s
      | AppendEntriesResponse r \<Rightarrow> handle_append_entries_response rng r s
      | InstallSnapshotMsg r \<Rightarrow> handle_install_snapshot rng r s
      | InstallSnapshotResponse r \<Rightarrow> handle_install_snapshot_response rng r s)"

datatype input =
    Tick
  | Propose bytes
  | Receive Message
  | ReadBarrier
  | TakeSnapshot

fun core_step :: "rng \<Rightarrow> input \<Rightarrow> RaftCore \<Rightarrow> (Action list \<times> RaftCore) option" where
  "core_step rng Tick s = tick rng s"
| "core_step rng (Propose c) s = do { (r, s') \<leftarrow> propose c s; Some (opt_list r, s') }"
| "core_step rng (Receive m) s = dispatch_message rng m s"
| "core_step rng ReadBarrier s = do { (_, s') \<leftarrow> request_read_barrier s; Some ([], s') }"
| "core_step rng TakeSnapshot s = do {
     m \<leftarrow> prepare_snapshot s; s' \<leftarrow> complete_snapshot m s; Some ([], s') }"

lemmas core_exec [exec] =
  demo_rng_def new_def restore_def restore_with_snapshot_def DEFAULT_HEARTBEAT_def is_leader_def
  last_log_index_def log_entry_at_def log_term_at_def last_log_term_def log_slice_def
  install_snapshot_for_peer_def build_append_entries_for_peer_def append_entries_def
  initialize_leader_state_def propose_def heartbeat_def
  reset_election_timeout_def election_timeout_check_def tick_def check_msg_term_def
  vote_response_def can_vote_def log_check_def handle_request_vote_def has_quorum_def
  become_leader_def handle_request_vote_response_def
  append_response_def base_response_def term_or_0_def ae_valid_def conflict_response_def
  append_new_entries_def apply_actions_def follower_commit_def success_response_def
  accept_append_entries_def handle_append_entries_def
  replicated_index_def leader_commit_def read_majority_def release_barriers_def
  request_read_barrier_def record_success_def record_failure_def handle_append_entries_response_def
  prepare_snapshot_def complete_snapshot_def snapshot_response_def handle_install_snapshot_def
  handle_install_snapshot_response_def dispatch_message_def

section \<open>The contract\<close>

lemma dispatch_message_contract:
  "dispatch_message rng m s = Some (as, s') \<Longrightarrow> op_contract s as s'"
  by (cases m)
    (simp_all add: dispatch_message_def handle_request_vote_contract
      handle_request_vote_response_contract handle_append_entries_contract
      handle_append_entries_response_contract handle_install_snapshot_contract
      handle_install_snapshot_response_contract)

lemma core_step_contract:
  assumes "core_step rng i s = Some (as, s')"
  shows "op_contract s as s'"
proof (cases i)
  case Tick
  with assms show ?thesis by (simp add: tick_contract)
next
  case (Propose c)
  with assms show ?thesis by (auto simp: opt_bind intro: propose_contract)
next
  case (Receive m)
  with assms show ?thesis by (simp add: dispatch_message_contract)
next
  case ReadBarrier
  with assms show ?thesis by (auto simp: opt_bind dest: request_read_barrier_contract)
next
  case TakeSnapshot
  with assms show ?thesis by (auto simp: opt_bind dest: complete_snapshot_contract)
qed

interpretation core: core_operation "\<lambda>(rng, i). core_step rng i"
  by unfold_locales (auto split: prod.splits intro: core_step_contract)

section \<open>Roles\<close>

text \<open>The votes an input can bring.\<close>

fun votes_of :: "input \<Rightarrow> NodeId set" where
  "votes_of (Receive (RequestVoteResponse r)) = {rvr_id r}"
| "votes_of _ = {}"

lemma dispatch_message_role:
  assumes "dispatch_message rng m s = Some (as, s')" and "self_vote s"
  shows "role_step (votes_of (Receive m)) s s'"
  using assms
  by (cases m)
    (simp_all add: dispatch_message_def handle_request_vote_role
      handle_request_vote_response_role handle_append_entries_role
      handle_append_entries_response_role handle_install_snapshot_role
      handle_install_snapshot_response_role)

lemma core_step_role:
  assumes "core_step rng i s = Some (as, s')" and "self_vote s"
  shows "role_step (votes_of i) s s'"
proof (cases i)
  case Tick
  with assms show ?thesis by (simp add: tick_role)
next
  case (Propose c)
  with assms show ?thesis by (auto simp: opt_bind intro: propose_role)
next
  case (Receive m)
  with assms dispatch_message_role show ?thesis by simp
next
  case ReadBarrier
  with assms show ?thesis by (auto simp: opt_bind dest: request_read_barrier_contract)
next
  case TakeSnapshot
  with assms show ?thesis by (auto simp: opt_bind dest: complete_snapshot_contract)
qed

lemma role_step_self_vote:
  "role_step V s s' \<Longrightarrow> node_id s' = node_id s \<Longrightarrow> self_vote s \<Longrightarrow> self_vote s'"
  by (auto simp: role_step_def self_vote_def)

lemma core_step_self_vote:
  assumes "core_step rng i s = Some (as, s')" and "self_vote s"
  shows "self_vote s'"
  using core_step_role [OF assms] core_step_contract [OF assms(1)] assms(2)
  by (auto simp: op_contract_def same_config_def intro: role_step_self_vote)

section \<open>The invariant of a node\<close>

definition core_inv :: "RaftCore \<Rightarrow> bool" where
  "core_inv s \<longleftrightarrow>
     log_ok s \<and> keyed s \<and> (state s = Leader \<longrightarrow> tracks s) \<and>
     list_all (\<lambda>b. snd b \<le> append_entries_count s) (read_barriers s) \<and>
     fst (election_timeout_range s) < snd (election_timeout_range s)"

text \<open>The counters of a node are not about to overflow.\<close>

definition has_room :: "RaftCore \<Rightarrow> bool" where
  "has_room s \<longleftrightarrow>
     lli s + 2 < u64_bound \<and> current_term s + 1 < u64_bound \<and>
     ticks_since_last_heartbeat s + 1 < u64_bound \<and>
     append_entries_count s + read_majority s + 1 < u64_bound \<and>
     next_read_barrier_id s + 1 < u64_bound"

text \<open>What a node may assume of the messages it gets: a request starts in the part of the log it
  still has and does not contradict what is committed, nobody else leads in its own term, and the
  responses speak about its peers and its log.\<close>

fun input_ok :: "input \<Rightarrow> RaftCore \<Rightarrow> bool" where
  "input_ok (Receive (AppendEntries r)) s \<longleftrightarrow>
     starts_inside r s \<and> respects_commit r s \<and> lli s + length (ae_entries r) + 1 < u64_bound"
| "input_ok (Receive (AppendEntriesResponse r)) s \<longleftrightarrow>
     tracks s \<and> response_inside r s \<and> aer_id r \<in> set (peers s)"
| "input_ok (Receive (InstallSnapshotMsg r)) s \<longleftrightarrow>
     snapshot_agrees r s \<and> (state s = Leader \<longrightarrow> is_term r \<noteq> current_term s)"
| "input_ok (Receive (InstallSnapshotResponse r)) s \<longleftrightarrow>
     isr_last_included_index r \<le> lli s \<and> isr_id r \<in> set (peers s)"
| "input_ok _ s \<longleftrightarrow> True"

text \<open>What every step other than a compaction does: it keeps the invariant, never takes back a commit
  and leaves the log on disk equal to the log in memory.\<close>

definition keeps :: "RaftCore \<Rightarrow> Action list \<Rightarrow> RaftCore \<Rightarrow> bool" where
  "keeps s as s' \<longleftrightarrow>
     core_inv s' \<and> commit_index s \<le> commit_index s' \<and>
     disk_replay as (log_frames s) = log_frames s'"

text \<open>The fields that only leaders and their followers' answers change.\<close>

definition same_view :: "RaftCore \<Rightarrow> RaftCore \<Rightarrow> bool" where
  "same_view s s' \<longleftrightarrow>
     next_index s' = next_index s \<and> match_index s' = match_index s \<and> peers s' = peers s \<and>
     append_entries_count s' = append_entries_count s \<and>
     (read_barriers s' = read_barriers s \<or> read_barriers s' = []) \<and>
     election_timeout_range s' = election_timeout_range s"

definition same_log :: "RaftCore \<Rightarrow> RaftCore \<Rightarrow> bool" where
  "same_log s s' \<longleftrightarrow>
     log s' = log s \<and> last_included_index s' = last_included_index s \<and>
     commit_index s' = commit_index s \<and> last_applied s' = last_applied s"

lemma same_view_refl [simp]: "same_view s s" by (simp add: same_view_def)

lemma same_log_refl [simp]: "same_log s s" by (simp add: same_log_def)

lemma core_inv_view:
  assumes "core_inv s" and "same_view s s'" and "log_ok s'" and "state s' = Leader \<longrightarrow> tracks s'"
  shows "core_inv s'"
  using assms by (auto simp: core_inv_def same_view_def keyed_def)

lemma same_log_ok: "same_log s s' \<Longrightarrow> log_ok s \<Longrightarrow> log_ok s'"
  by (simp add: same_log_def log_ok_def lli_def)

lemma same_tracks: "same_log s s' \<Longrightarrow> same_view s s' \<Longrightarrow> tracks s \<Longrightarrow> tracks s'"
  by (auto simp: same_log_def same_view_def tracks_def next_bounded_def lli_def)

lemma keeps_same:
  assumes "core_inv s" and "same_log s s'" and "same_view s s'"
    and "state s' = Leader \<longrightarrow> state s = Leader" and "list_all (\<lambda>a. \<not> touches_log a) as"
  shows "keeps s as s'"
proof -
  have "core_inv s'"
    using assms same_log_ok same_tracks by (intro core_inv_view [OF assms(1)]) (auto simp: core_inv_def)
  with assms(2,5) show ?thesis
    by (simp add: keeps_def same_log_def log_frames_def disk_replay_untouched)
qed

lemma check_msg_term_same:
  "check_msg_term rng t s = Some (pa, s') \<Longrightarrow>
     same_log s s' \<and> same_view s s' \<and> (state s' = Leader \<longrightarrow> state s = Leader)"
  by (auto dest!: check_msg_term_Some simp: same_log_def same_view_def)

lemma keeps_timer [simp]: "keeps (s\<lparr>ticks_since_last_heartbeat := n\<rparr>) as s' = keeps s as s'"
  by (simp add: keeps_def log_frames_def)

lemma core_inv_timer [simp]: "core_inv (s\<lparr>ticks_since_last_heartbeat := n\<rparr>) = core_inv s"
  by (simp add: core_inv_def log_ok_def keyed_def tracks_def next_bounded_def lli_def)

lemma tick_keeps:
  assumes "tick rng s = Some (as, s')" and "core_inv s"
  shows "keeps s as s'"
proof -
  let ?s1 = "s\<lparr>ticks_since_last_heartbeat := ticks_since_last_heartbeat s + 1\<rparr>"
  have "keeps ?s1 as s'"
    using tick_cases [OF assms(1)]
  proof (elim disjE conjE)
    assume "heartbeat ?s1 = Some (as, s')"
    then show ?thesis
      using heartbeat_Some [of ?s1 as s'] assms(2) append_entries_untouched
      by (intro keeps_same) (auto simp: same_log_def same_view_def)
  next
    assume "election_timeout_check rng ?s1 = Some (as, s')"
    then show ?thesis
      using election_timeout_check_Some [of rng ?s1 as s'] assms(2)
      by (intro keeps_same) (auto simp: same_log_def same_view_def list_all_iff)
  qed
  then show ?thesis by simp
qed

text \<open>Adding one entry of the node's own: the frame is appended to the file.\<close>

lemma keeps_push:
  assumes "core_inv s" and "log s' = log s @ [e]" "last_included_index s' = last_included_index s"
    "commit_index s' = commit_index s" "last_applied s' = last_applied s"
    and "core_inv s' \<or> same_view s s' \<and> state s = Leader"
    and "list_all (\<lambda>a. \<not> touches_log a) msgs"
  shows "keeps s (PersistLogEntries (lli s + 1) [e] # msgs) s'"
proof -
  have l: "lli s' = lli s + 1" using assms(2,3) by (simp add: lli_def)
  have "log_ok s'" using assms(1,3-5) l by (auto simp: core_inv_def log_ok_def)
  moreover have "same_view s s' \<Longrightarrow> tracks s \<Longrightarrow> tracks s'"
    using l by (auto simp: same_view_def tracks_def next_bounded_def list_all_iff)
  moreover have "state s = Leader \<Longrightarrow> tracks s" using assms(1) by (simp add: core_inv_def)
  ultimately have "core_inv s'"
    using assms(6) core_inv_view [OF assms(1)] by blast
  moreover have "store_frames (lli s + 1) [e] (log_frames s) = log_frames s'"
    using store_frames_push [of "last_included_index s + 1" "log s" e] assms(2,3)
    by (simp add: log_frames_def lli_def)
  ultimately show ?thesis using assms(4,7) by (simp add: keeps_def disk_replay_untouched)
qed

lemma propose_keeps:
  assumes "propose c s = Some (r, s')" and "core_inv s"
  shows "keeps s (opt_list r) s'"
proof (cases r)
  case None
  with assms(1) have "s' = s" by (auto simp: propose_def opt_bind Let_def split: if_splits)
  with None assms(2) show ?thesis by (simp add: keeps_same)
next
  case (Some as)
  note p = propose_Some [OF assms(1) [unfolded Some]]
  from p(3) obtain msgs where m: "append_entries s' = Some msgs"
    and as: "as = PersistLogEntries (lli s + 1) [\<lparr>le_term = current_term s, le_command = c\<rparr>] # msgs"
    by blast
  have "same_view s s'" by (simp add: p(2) same_view_def)
  with p(1) append_entries_untouched [OF m] show ?thesis
    unfolding Some as opt_list_simps by (intro keeps_push [OF assms(2)]) (simp_all add: p(2))
qed

lemma handle_request_vote_keeps:
  assumes "handle_request_vote rng r s = Some (as, s')" and "core_inv s"
  shows "keeps s as s'"
  using assms(1)
proof (cases rule: handle_request_vote_Some)
  case (rejected pa s1)
  with check_msg_term_same [OF rejected(1)] check_msg_term_untouched [OF rejected(1)] assms(2)
  show ?thesis by (intro keeps_same) (auto simp: vote_response_def)
next
  case (granted pa s1 tm t)
  with check_msg_term_same [OF granted(1)] check_msg_term_untouched [OF granted(1)] assms(2)
  show ?thesis by (intro keeps_same) (auto simp: vote_response_def same_log_def same_view_def)
qed

lemma become_leader_keeps:
  assumes "become_leader rng s = Some (as, s')" and "core_inv s" and "rng_ok rng" and "lli s + 2 < u64_bound"
  shows "keeps s as s'"
proof -
  have k: "keyed s" "fst (election_timeout_range s) < snd (election_timeout_range s)"
    using assms(2) by (simp_all add: core_inv_def)
  from become_leader_total [OF assms(3) k(2) assms(4) k(1)] assms(1) have
    v: "keyed s'" "next_bounded s'" "list_all (\<lambda>e. snd e = 0) (match_index s')" by auto
  from become_leader_Some [OF assms(1)] obtain tm msgs where m: "append_entries s' = Some msgs"
    and as: "as = PersistLogEntries (lli s + 1) [\<lparr>le_term = current_term s, le_command = []\<rparr>] # msgs"
    and s': "s' = (init_peers (lli s + 2) (peers s)
            (s\<lparr>state := Leader, current_leader := Some (node_id s),
               log := log s @ [\<lparr>le_term = current_term s, le_command = []\<rparr>]\<rparr>))
          \<lparr>ticks_since_last_heartbeat := 0, election_timeout := tm\<rparr>"
    by blast
  have same: "log s' = log s @ [\<lparr>le_term = current_term s, le_command = []\<rparr>]"
    "last_included_index s' = last_included_index s" "commit_index s' = commit_index s"
    "last_applied s' = last_applied s" "read_barriers s' = read_barriers s"
    "append_entries_count s' = append_entries_count s" "election_timeout_range s' = election_timeout_range s"
    by (simp_all add: s')
  have "core_inv s'"
    using assms(2) v same by (auto simp: core_inv_def log_ok_def lli_def tracks_def list_all_iff)
  with same append_entries_untouched [OF m] show ?thesis
    unfolding as by (intro keeps_push [OF assms(2)]) simp_all
qed

lemma handle_request_vote_response_keeps:
  assumes "core_inv s" and "rng_ok rng" and "lli s + 2 < u64_bound"
  shows "\<exists>as s'. handle_request_vote_response rng r s = Some (as, s') \<and> keeps s as s'"
proof -
  have k: "keyed s" "fst (election_timeout_range s) < snd (election_timeout_range s)"
    using assms(1) by (simp_all add: core_inv_def)
  from check_msg_term_ok [OF assms(2) k(2)] obtain pa s1 where
    c: "check_msg_term rng (rvr_term r) s = Some (pa, s1)" by blast
  let ?s2 = "s1\<lparr>votes_received := insert (rvr_id r) (votes_received s1)\<rparr>"
  note same = check_msg_term_same [OF c]
  have s2: "core_inv ?s2" "same_log s ?s2" "same_view s ?s2" "lli ?s2 = lli s"
    using same keeps_same [OF assms(1), of ?s2 "[]"]
    by (auto simp: keeps_def same_log_def same_view_def lli_def)
  then have k2: "keyed ?s2" "fst (election_timeout_range ?s2) < snd (election_timeout_range ?s2)"
    by (simp_all only: core_inv_def)
  have b: "lli ?s2 + 2 < u64_bound" using assms(3) s2(4) by simp
  from become_leader_total [OF assms(2) k2(2) b k2(1)] obtain as2 s3 where
    bl: "become_leader rng ?s2 = Some (as2, s3)" by blast
  show ?thesis
  proof (cases "state s1 = Candidate \<and> rvr_vote_granted r \<and> has_quorum ?s2")
    case True
    then have "pa = None" using check_msg_term_Some [OF c] by auto
    with True bl have "handle_request_vote_response rng r s = Some (as2, s3)"
      by (simp add: handle_request_vote_response_def c Let_def)
    moreover have "keeps s as2 s3"
      using become_leader_keeps [OF bl s2(1) assms(2) b] s2(2)
      by (simp add: keeps_def same_log_def log_frames_def)
    ultimately show ?thesis by blast
  next
    case False
    then obtain s' where h: "handle_request_vote_response rng r s = Some (opt_list pa, s')"
      "s' = s1 \<or> s' = ?s2 \<and> state s1 = Candidate"
      by (cases "state s1 = Candidate"; cases "rvr_vote_granted r")
        (simp_all add: handle_request_vote_response_def c Let_def)
    then have "keeps s (opt_list pa) s'"
      using same s2 check_msg_term_untouched [OF c] by (intro keeps_same [OF assms(1)]) auto
    with h show ?thesis by blast
  qed
qed

lemma keeps_effect:
  assumes "core_inv s" and "append_effect s as s' \<or> install_effect s as s'"
    and "same_view s s'" and "state s' = Leader \<longrightarrow> tracks s'"
  shows "keeps s as s'"
  using assms core_inv_view [OF assms(1,3)]
  by (auto simp: keeps_def append_effect_def install_effect_def)

lemma handle_append_entries_view:
  assumes "handle_append_entries rng r s = Some (as, s')"
  shows "same_view s s' \<and> (state s' = Leader \<longrightarrow> same_log s s' \<and> state s = Leader)"
  using assms
proof (cases rule: handle_append_entries_Some)
  case (refused pa s1)
  with check_msg_term_same [OF refused(1)] show ?thesis by simp
next
  case (conflict pa s1 tm q)
  with check_msg_term_same [OF conflict(1)] show ?thesis by (simp add: same_view_def)
next
  case (accepted pa s1 tm more)
  from accept_append_entries_frame [OF accepted(5)] obtain X c l where
    "s' = (following (ae_leader_id r) tm s1)\<lparr>log := X, commit_index := c, last_applied := l\<rparr>"
    by blast
  with check_msg_term_same [OF accepted(1)] show ?thesis by (simp add: same_view_def)
qed

lemma handle_append_entries_keeps:
  assumes "core_inv s" and "rng_ok rng" and "input_ok (Receive (AppendEntries r)) s"
  shows "\<exists>as s'. handle_append_entries rng r s = Some (as, s') \<and> keeps s as s'"
proof -
  from assms obtain as s' where h: "handle_append_entries rng r s = Some (as, s')" "append_effect s as s'"
    using handle_append_entries_effect [OF assms(2), of s r] by (auto simp: core_inv_def)
  note v = handle_append_entries_view [OF h(1)]
  then have "state s' = Leader \<longrightarrow> tracks s'"
    using assms(1) same_tracks by (auto simp: core_inv_def)
  with v h(2) have "keeps s as s'" by (intro keeps_effect [OF assms(1)]) auto
  with h(1) show ?thesis by blast
qed

lemma keyed_update:
  assumes "keyed s" and "p \<in> set (peers s)" and "peers s' = peers s"
    and "next_index s' = AList.update p a (next_index s)"
    and "match_index s' = AList.update p b (match_index s)"
  shows "keyed s'"
  using assms
  by (auto simp: keyed_def distinct_update dest!: set_update_subset [THEN subsetD])

lemma keyed_and_modify:
  assumes "keyed s" and "peers s' = peers s" "match_index s' = match_index s"
    and "next_index s' = and_modify p a (next_index s)"
  shows "keyed s'"
proof -
  have "map fst (and_modify p a al) = map fst al" for al :: "(NodeId \<times> u64) list"
    unfolding and_modify_def by (induction al) auto
  then show ?thesis using assms unfolding keyed_def by (metis list.set_map)
qed

lemma handle_append_entries_response_keyed:
  assumes "handle_append_entries_response rng r s = Some (as, s')" and "keyed s"
    and "aer_id r \<in> set (peers s)"
  shows "keyed s'"
  using assms(1)
proof (cases rule: handle_append_entries_response_Some)
  case (success pa s1 s2 a s3 b)
  have v: "same_view s s1" using check_msg_term_same [OF success(1)] by simp
  from leader_commit_Some(1) [OF success(4)] obtain k where
    "s3 = s2\<lparr>commit_index := k, last_applied := k\<rparr>" by blast
  moreover obtain B where "s' = s3\<lparr>read_barriers := B\<rparr>"
    using release_barriers_Some(1) [OF success(5)] by blast
  ultimately have "peers s' = peers s1"
    "next_index s' = AList.update (aer_id r) (aer_match_index r + 1) (next_index s1)"
    "match_index s' = AList.update (aer_id r) (aer_match_index r) (match_index s1)"
    by (simp_all add: record_success_Some [OF success(3)])
  with v have "peers s' = peers s"
    "next_index s' = AList.update (aer_id r) (aer_match_index r + 1) (next_index s)"
    "match_index s' = AList.update (aer_id r) (aer_match_index r) (match_index s)"
    by (simp_all add: same_view_def)
  then show ?thesis by (rule keyed_update [OF assms(2,3)])
next
  case (failure pa s1 m)
  have "same_view s s1" using check_msg_term_same [OF failure(1)] by simp
  then have "peers s' = peers s" "match_index s' = match_index s"
    "next_index s' = and_modify (aer_id r)
       (case aer_first_conflicting_index r of Some ind \<Rightarrow> ind | None \<Rightarrow> 0) (next_index s)"
    by (simp_all add: failure(3) same_view_def record_failure_def)
  then show ?thesis by (rule keyed_and_modify [OF assms(2)])
qed

lemma handle_append_entries_response_keeps:
  assumes "core_inv s" and "rng_ok rng" and "has_room s"
    and "input_ok (Receive (AppendEntriesResponse r)) s"
  shows "\<exists>as s'. handle_append_entries_response rng r s = Some (as, s') \<and> keeps s as s'"
proof -
  have pre: "fst (election_timeout_range s) < snd (election_timeout_range s)" "log_ok s" "tracks s"
    "response_inside r s" "lli s + 1 < u64_bound" "append_entries_count s + read_majority s + 1 < u64_bound"
    using assms by (auto simp: core_inv_def has_room_def)
  from handle_append_entries_response_effect [OF assms(2) pre] obtain as s' where
    h: "handle_append_entries_response rng r s = Some (as, s')" and e: "append_effect s as s'"
    and t: "tracks s'" by blast
  have "keyed s'"
    using handle_append_entries_response_keyed [OF h] assms by (simp add: core_inv_def)
  moreover have "election_timeout_range s' = election_timeout_range s"
    using handle_append_entries_response_contract [OF h] by (simp add: op_contract_def same_config_def)
  ultimately have "keeps s as s'"
    using e t pre(1) by (auto simp: keeps_def append_effect_def core_inv_def tracks_def)
  with h show ?thesis by blast
qed

lemma handle_install_snapshot_keeps:
  assumes "core_inv s" and "rng_ok rng" and "input_ok (Receive (InstallSnapshotMsg r)) s"
  shows "\<exists>as s'. handle_install_snapshot rng r s = Some (as, s') \<and> keeps s as s'"
proof -
  from assms obtain as s' where h: "handle_install_snapshot rng r s = Some (as, s')"
    using handle_install_snapshot_total [OF assms(2), of s r] by (auto simp: core_inv_def)
  have e: "install_effect s as s'"
    using handle_install_snapshot_effect [OF h] assms by (simp add: core_inv_def)
  have "same_view s s' \<and> (state s' = Leader \<longrightarrow> same_log s s' \<and> state s = Leader)"
    using h
  proof (cases rule: handle_install_snapshot_Some)
    case (stale pa s1)
    with check_msg_term_same [OF stale(1)] show ?thesis by simp
  next
    case (known pa s1 st tm i)
    with check_msg_term_same [OF known(1)] show ?thesis by (auto simp: same_view_def same_log_def)
  next
    case (replaced pa s1 st tm)
    have "st \<noteq> Leader"
    proof
      assume "st = Leader"
      with replaced(3) have l: "state s1 = Leader" by auto
      with check_msg_term_Some [OF replaced(1)] have "s1 = s" by auto
      with assms(3) replaced(2) l show False by simp
    qed
    with replaced check_msg_term_same [OF replaced(1)] show ?thesis
      by (auto simp: same_view_def installed_def)
  qed
  with e have "keeps s as s'"
    using assms(1) same_tracks by (intro keeps_effect [OF assms(1)]) (auto simp: core_inv_def)
  with h show ?thesis by blast
qed

lemma handle_install_snapshot_response_keeps:
  assumes "core_inv s" and "rng_ok rng" and "has_room s"
    and "input_ok (Receive (InstallSnapshotResponse r)) s"
  shows "\<exists>as s'. handle_install_snapshot_response rng r s = Some (as, s') \<and> keeps s as s'"
proof -
  have er: "fst (election_timeout_range s) < snd (election_timeout_range s)"
    using assms(1) by (simp add: core_inv_def)
  from check_msg_term_ok [OF assms(2) er] obtain pa s1 where
    c: "check_msg_term rng (isr_term r) s = Some (pa, s1)" by blast
  note same = check_msg_term_same [OF c] and u = check_msg_term_untouched [OF c]
  show ?thesis
  proof (cases "state s1 = Leader")
    case True
    with check_msg_term_Some [OF c] have s1: "s1 = s" "pa = None" by auto
    let ?s' = "s\<lparr>next_index := AList.update (isr_id r) (isr_last_included_index r + 1) (next_index s),
            match_index := AList.update (isr_id r) (isr_last_included_index r) (match_index s)\<rparr>"
    have h: "handle_install_snapshot_response rng r s = Some ([], ?s')"
    proof -
      have "isr_last_included_index r + 1 < u64_bound" using assms(3,4) by (simp add: has_room_def)
      then have "u64_add (isr_last_included_index r) 1 = Some (isr_last_included_index r + 1)"
        by (rule u64_add_ok)
      then show ?thesis
        using True c by (simp add: handle_install_snapshot_response_def s1)
    qed
    have "keyed s" "isr_id r \<in> set (peers s)" using assms by (simp_all add: core_inv_def)
    then have "keyed ?s'" by (rule keyed_update) simp_all
    moreover have "tracks ?s'"
      using assms True s1
      by (auto simp: core_inv_def tracks_def next_bounded_def lli_def intro!: list_all_update)
    ultimately have "core_inv ?s'" using assms(1) by (simp add: core_inv_def log_ok_def lli_def)
    then have "keeps s [] ?s'" by (simp add: keeps_def log_frames_def)
    with h show ?thesis by blast
  next
    case False
    then have "handle_install_snapshot_response rng r s = Some (opt_list pa, s1)"
      by (simp add: handle_install_snapshot_response_def c)
    moreover have "keeps s (opt_list pa) s1" using same u by (intro keeps_same [OF assms(1)]) auto
    ultimately show ?thesis by blast
  qed
qed

section \<open>No operation panics\<close>

lemma dispatch_message_keeps:
  assumes "core_inv s" and "rng_ok rng" and "has_room s" and "input_ok (Receive m) s"
  shows "\<exists>as s'. dispatch_message rng m s = Some (as, s') \<and> keeps s as s'"
proof (cases m)
  case (RequestVote r)
  have "lli s < u64_bound" using assms(3) by (simp add: has_room_def)
  then obtain as s' where "handle_request_vote rng r s = Some (as, s')"
    using handle_request_vote_total [OF assms(2), of s r] assms(1) by (auto simp: core_inv_def)
  with handle_request_vote_keeps assms(1) RequestVote show ?thesis by (auto simp: dispatch_message_def)
next
  case (RequestVoteResponse r)
  with handle_request_vote_response_keeps assms show ?thesis
    by (simp add: dispatch_message_def has_room_def)
next
  case (AppendEntries r)
  with handle_append_entries_keeps assms show ?thesis by (simp add: dispatch_message_def)
next
  case (AppendEntriesResponse r)
  with handle_append_entries_response_keeps assms show ?thesis by (simp add: dispatch_message_def)
next
  case (InstallSnapshotMsg r)
  with handle_install_snapshot_keeps assms show ?thesis by (simp add: dispatch_message_def)
next
  case (InstallSnapshotResponse r)
  with handle_install_snapshot_response_keeps assms show ?thesis by (simp add: dispatch_message_def)
qed

text \<open>Compaction: the frames behind the snapshot stay, everything else is as before.\<close>

lemma take_snapshot_keeps:
  assumes "core_inv s"
  obtains s' where "core_step rng TakeSnapshot s = Some ([], s')" "core_inv s'"
    "same_log_behind s s'" "last_included_index s' = last_applied s" "commit_index s' = commit_index s"
    "log_frames s' = filter (\<lambda>f. last_included_index s' < fst f) (log_frames s)"
proof -
  have ok: "log_ok s" using assms by (simp add: core_inv_def)
  from prepare_snapshot_ok [OF ok] obtain m where m: "prepare_snapshot s = Some m"
    "sm_last_applied m = last_applied s" "log_term_at s (last_applied s) = Some (sm_last_applied_term m)" .
  from ok m(2) have "sm_last_applied m \<le> lli s" by (simp add: log_ok_def)
  from complete_snapshot_ok [OF this] obtain s' where c: "complete_snapshot m s = Some s'" ..
  note l = complete_snapshot_log_ok [OF c ok] complete_snapshot_Some [OF c]
  have k: "same_log_behind s s'" using complete_snapshot_keeps [OF c] m by simp
  have "same_view s s'" "state s' = state s" using l(2) by (auto simp: same_view_def)
  moreover from this k have "tracks s \<Longrightarrow> tracks s'"
    by (auto simp: tracks_def next_bounded_def same_view_def same_log_behind_def)
  ultimately have "core_inv s'"
    using l(1) m(2) assms by (intro core_inv_view [OF assms]) (auto simp: core_inv_def)
  moreover have "last_included_index s' = last_applied s"
    using l(2) m(2) ok by (auto simp: log_ok_def)
  ultimately show thesis
    using that c m k l(1) complete_snapshot_frames [OF c] by simp
qed

lemma core_step_keeps:
  assumes "core_inv s" and "rng_ok rng" and "has_room s" and "input_ok i s" and "i \<noteq> TakeSnapshot"
  shows "\<exists>as s'. core_step rng i s = Some (as, s') \<and> keeps s as s'"
proof (cases i)
  case Tick
  have "\<exists>as s'. tick rng s = Some (as, s')"
    using assms by (intro tick_total) (auto simp: core_inv_def has_room_def tracks_def)
  with tick_keeps assms(1) Tick show ?thesis by auto
next
  case (Propose c)
  have "\<exists>r s'. propose c s = Some (r, s')"
    using assms by (intro propose_total) (auto simp: core_inv_def has_room_def tracks_def)
  with propose_keeps assms(1) Propose show ?thesis by fastforce
next
  case (Receive m)
  with dispatch_message_keeps assms show ?thesis by simp
next
  case ReadBarrier
  let ?n = "next_read_barrier_id s + 1"
  show ?thesis
  proof (cases "state s = Leader")
    case True
    let ?s' = "s\<lparr>next_read_barrier_id := ?n,
               read_barriers := AList.update ?n (append_entries_count s) (read_barriers s)\<rparr>"
    have "core_step rng i s = Some ([], ?s')"
      using ReadBarrier True assms(3) by (simp add: request_read_barrier_def has_room_def)
    moreover have "core_inv ?s'"
      using assms(1) True
      by (auto simp: core_inv_def log_ok_def keyed_def tracks_def next_bounded_def lli_def
          intro!: list_all_update)
    then have "keeps s [] ?s'" by (simp add: keeps_def log_frames_def)
    ultimately show ?thesis by blast
  next
    case False
    with ReadBarrier keeps_same [OF assms(1), of s "[]"] show ?thesis
      by (simp add: request_read_barrier_def)
  qed
qed (use assms(5) in simp)

section \<open>The snapshot a node counts on\<close>

text \<open>The last snapshot that the actions install; the node's own notion of it always agrees.\<close>

fun snap_step :: "Action \<Rightarrow> u64 \<times> u64 \<Rightarrow> u64 \<times> u64" where
  "snap_step (InstallSnapshot i t _) _ = (i, t)"
| "snap_step _ x = x"

definition snap_replay :: "Action list \<Rightarrow> u64 \<times> u64 \<Rightarrow> u64 \<times> u64" where
  "snap_replay as x = fold snap_step as x"

definition base :: "RaftCore \<Rightarrow> u64 \<times> u64" where
  "base s = (last_included_index s, last_included_term s)"

fun installs :: "Action \<Rightarrow> bool" where
  "installs (InstallSnapshot _ _ _) = True"
| "installs _ = False"

lemma snap_replay_simps [simp]:
  "snap_replay [] x = x" "snap_replay (a # as) x = snap_replay as (snap_step a x)"
  "snap_replay (as @ bs) x = snap_replay bs (snap_replay as x)"
  by (simp_all add: snap_replay_def)

lemma snap_replay_none: "list_all (\<lambda>a. \<not> installs a) as \<Longrightarrow> snap_replay as x = x"
proof (induction as arbitrary: x)
  case (Cons a as)
  then show ?case by (cases a) auto
qed simp

lemma untouched_no_install: "list_all (\<lambda>a. \<not> touches_log a) as \<Longrightarrow> list_all (\<lambda>a. \<not> installs a) as"
proof (induction as)
  case (Cons a as)
  then show ?case by (cases a) auto
qed simp

lemma snap_replay_untouched: "list_all (\<lambda>a. \<not> touches_log a) as \<Longrightarrow> snap_replay as x = x"
  by (simp add: snap_replay_none untouched_no_install)

lemma check_msg_term_base:
  "check_msg_term rng t s = Some (pa, s') \<Longrightarrow>
     base s' = base s \<and> snap_replay (opt_list pa) x = x"
  using check_msg_term_untouched [of rng t s pa s'] check_msg_term_transfer [of rng t s pa s']
  by (auto simp: base_def snap_replay_untouched)

lemma tick_base:
  assumes "tick rng s = Some (as, s')"
  shows "snap_replay as x = x \<and> base s' = base s"
  using tick_cases [OF assms]
proof (elim disjE conjE)
  let ?s1 = "s\<lparr>ticks_since_last_heartbeat := ticks_since_last_heartbeat s + 1\<rparr>"
  assume "heartbeat ?s1 = Some (as, s')"
  then show ?thesis
    using heartbeat_Some [of ?s1 as s'] append_entries_untouched
    by (auto simp: base_def snap_replay_untouched)
next
  let ?s1 = "s\<lparr>ticks_since_last_heartbeat := ticks_since_last_heartbeat s + 1\<rparr>"
  assume "election_timeout_check rng ?s1 = Some (as, s')"
  then show ?thesis
    using election_timeout_check_Some [of rng ?s1 as s']
    by (auto simp: base_def snap_replay_untouched list_all_iff)
qed

lemma handle_request_vote_base:
  assumes "handle_request_vote rng r s = Some (as, s')"
  shows "snap_replay as x = x \<and> base s' = base s"
  using assms
proof (cases rule: handle_request_vote_Some)
  case (rejected pa s1)
  with check_msg_term_base [OF rejected(1)] show ?thesis by (simp add: vote_response_def)
next
  case (granted pa s1 tm t)
  with check_msg_term_base [OF granted(1)] show ?thesis by (simp add: vote_response_def base_def)
qed

lemma handle_request_vote_response_base:
  assumes "handle_request_vote_response rng r s = Some (as, s')"
  shows "snap_replay as x = x \<and> base s' = base s"
  using assms
proof (cases rule: handle_request_vote_response_Some)
  case (ignored pa s1)
  with check_msg_term_base [OF ignored(1)] show ?thesis by simp
next
  case (counted s1)
  then show ?thesis by (simp add: base_def)
next
  case (elected s1)
  from become_leader_Some [OF elected(6)] elected(4) show ?thesis
    by (auto simp: base_def snap_replay_untouched append_entries_untouched)
qed

lemma handle_append_entries_base:
  assumes "handle_append_entries rng r s = Some (as, s')"
  shows "snap_replay as x = x \<and> base s' = base s"
  using assms
proof (cases rule: handle_append_entries_Some)
  case (refused pa s1)
  with check_msg_term_base [OF refused(1)] show ?thesis by (simp add: append_response_def)
next
  case (conflict pa s1 tm q)
  with check_msg_term_base [OF conflict(1)] show ?thesis by (simp add: append_response_def base_def)
next
  case (accepted pa s1 tm more)
  from accept_append_entries_Some [OF accepted(5)] obtain p s2 a where
    p: "append_new_entries r (following (ae_leader_id r) tm s1) = Some (p, s2)"
    and f: "follower_commit (ae_leader_commit r) s2 = Some (a, s')"
    and m: "more = p @ a @ [append_response (ae_leader_id r) (success_response s' (lli s'))]" .
  have "list_all (\<lambda>a. \<not> installs a) p"
    using p by (auto simp: append_new_entries_def opt_bind split: if_splits)
  moreover have "list_all (\<lambda>a. \<not> touches_log a) a" using follower_commit_frame [OF f] by simp
  ultimately have "snap_replay more y = y" for y
    by (simp add: m snap_replay_none snap_replay_untouched append_response_def)
  moreover from accept_append_entries_frame [OF accepted(5)] obtain X c l where
    "s' = (following (ae_leader_id r) tm s1)\<lparr>log := X, commit_index := c, last_applied := l\<rparr>" by blast
  ultimately show ?thesis
    using check_msg_term_base [OF accepted(1)] accepted(6) by (simp add: base_def)
qed

lemma handle_append_entries_response_base:
  assumes "handle_append_entries_response rng r s = Some (as, s')"
  shows "snap_replay as x = x \<and> base s' = base s"
  using assms
proof (cases rule: handle_append_entries_response_Some)
  case (success pa s1 s2 a s3 b)
  from leader_commit_Some(1) [OF success(4)] obtain k where
    "s3 = s2\<lparr>commit_index := k, last_applied := k\<rparr>" by blast
  moreover obtain B where "s' = s3\<lparr>read_barriers := B\<rparr>"
    using release_barriers_Some(1) [OF success(5)] by blast
  ultimately have "base s' = base s1" by (simp add: base_def record_success_Some [OF success(3)])
  with check_msg_term_base [OF success(1)] leader_commit_Some(3) [OF success(4)]
    release_barriers_silent [OF success(5)] show ?thesis
    by (simp add: success(6) snap_replay_untouched)
next
  case (failure pa s1 m)
  have "snap_step m y = y" for y using build_append_entries_quiet [OF failure(4)] by (cases m) auto
  with check_msg_term_base [OF failure(1)] failure(3) show ?thesis
    by (simp add: failure(5) base_def record_failure_def)
qed

lemma handle_install_snapshot_base:
  assumes "handle_install_snapshot rng r s = Some (as, s')"
  shows "snap_replay as (base s) = base s'"
  using assms
proof (cases rule: handle_install_snapshot_Some)
  case (stale pa s1)
  with check_msg_term_base [OF stale(1)] show ?thesis by (simp add: snapshot_response_def)
next
  case (known pa s1 st tm i)
  with check_msg_term_base [OF known(1)] show ?thesis by (simp add: snapshot_response_def base_def)
next
  case (replaced pa s1 st tm)
  with check_msg_term_base [OF replaced(1)] show ?thesis by (simp add: snapshot_response_def base_def)
qed

lemma handle_install_snapshot_response_base:
  assumes "handle_install_snapshot_response rng r s = Some (as, s')"
  shows "snap_replay as x = x \<and> base s' = base s"
  using assms
proof (cases rule: handle_install_snapshot_response_Some)
  case (1 pa s1)
  with check_msg_term_base [OF 1(1)] show ?thesis by (auto simp: base_def)
qed

lemma core_step_base:
  assumes "core_step rng i s = Some (as, s')" and "i \<noteq> TakeSnapshot"
  shows "snap_replay as (base s) = base s'"
proof (cases i)
  case Tick
  with assms(1) tick_base show ?thesis by simp
next
  case (Propose c)
  with assms(1) obtain r where p: "propose c s = Some (r, s')" "as = opt_list r"
    by (auto simp: opt_bind)
  show ?thesis
  proof (cases r)
    case None
    with p show ?thesis by (auto simp: propose_def opt_bind Let_def split: if_splits)
  next
    case (Some bs)
    from propose_Some [OF p(1) [unfolded Some]] p(2) Some append_entries_untouched show ?thesis
      by (auto simp: base_def snap_replay_untouched)
  qed
next
  case (Receive m)
  with assms(1) have "dispatch_message rng m s = Some (as, s')" by simp
  then show ?thesis
    by (cases m)
      (simp_all add: dispatch_message_def handle_request_vote_base handle_request_vote_response_base
        handle_append_entries_base handle_append_entries_response_base handle_install_snapshot_base
        handle_install_snapshot_response_base)
next
  case ReadBarrier
  with assms(1) show ?thesis by (auto simp: opt_bind base_def dest!: request_read_barrier_Some)
qed (use assms(2) in simp)

section \<open>The log of a leader\<close>

text \<open>A leader that stays one keeps its log, unless it accepts a snapshot from a second leader of its own
  term.\<close>

definition no_rival :: "Message \<Rightarrow> RaftCore \<Rightarrow> bool" where
  "no_rival m c \<longleftrightarrow>
     (case m of InstallSnapshotMsg r \<Rightarrow> state c = Leader \<longrightarrow> is_term r \<noteq> current_term c | _ \<Rightarrow> True)"

lemma check_msg_term_leader:
  "check_msg_term rng t s = Some (pa, s') \<Longrightarrow> state s' = Leader \<Longrightarrow> s' = s"
  by (auto dest: check_msg_term_Some)

lemma response_leader_log:
  assumes "handle_append_entries_response rng r s = Some (as, s')" and "state s' = Leader"
  shows "lli s' = lli s \<and> next_read_barrier_id s' = next_read_barrier_id s"
  using assms(1)
proof (cases rule: handle_append_entries_response_Some)
  case (success pa s1 s2 a s3 b)
  from leader_commit_Some(1) [OF success(4)] obtain k where
    s3: "s3 = s2\<lparr>commit_index := k, last_applied := k\<rparr>" by blast
  obtain B where s': "s' = s3\<lparr>read_barriers := B\<rparr>" using release_barriers_Some(1) [OF success(5)] by blast
  have "state s1 = Leader" using assms(2) s' s3 record_success_Some [OF success(3)] by simp
  then have "s1 = s" using check_msg_term_leader [OF success(1)] by simp
  with s' s3 record_success_Some [OF success(3)] show ?thesis by (simp add: lli_def)
next
  case (failure pa s1 m)
  then have "s1 = s" using check_msg_term_leader [OF failure(1)] assms(2) by (simp add: record_failure_def)
  with failure(3) show ?thesis by (simp add: record_failure_def lli_def)
qed

lemma snapshot_leader_log:
  assumes "handle_install_snapshot rng r s = Some (as, s')" and "state s' = Leader"
    and "is_term r \<noteq> current_term s"
  shows "s' = s"
  using assms(1)
proof (cases rule: handle_install_snapshot_Some)
  case (stale pa s1)
  with check_msg_term_leader [OF stale(1)] assms(2) show ?thesis by simp
next
  case (known pa s1 st tm i)
  then have "state s1 = Leader" using assms(2) by auto
  with check_msg_term_leader [OF known(1)] known(2) assms(3) show ?thesis by simp
next
  case (replaced pa s1 st tm)
  then have "state s1 = Leader" using assms(2) by auto
  with check_msg_term_leader [OF replaced(1)] replaced(2) assms(3) show ?thesis by simp
qed

lemma dispatch_leader_log:
  assumes "dispatch_message rng m s = Some (as, s')" and "state s = Leader" and "state s' = Leader"
    and "no_rival m s"
  shows "lli s' = lli s \<and> next_read_barrier_id s' = next_read_barrier_id s"
proof (cases m)
  case (RequestVote r)
  with assms(1) have "handle_request_vote rng r s = Some (as, s')" by (simp add: dispatch_message_def)
  then show ?thesis
  proof (cases rule: handle_request_vote_Some)
    case (rejected pa s1)
    with check_msg_term_leader [OF rejected(1)] assms(3) show ?thesis by simp
  next
    case (granted pa s1 tm t)
    with check_msg_term_leader [OF granted(1)] assms(3) show ?thesis by (simp add: lli_def)
  qed
next
  case (RequestVoteResponse r)
  with assms(1) have "handle_request_vote_response rng r s = Some (as, s')" by (simp add: dispatch_message_def)
  then show ?thesis
  proof (cases rule: handle_request_vote_response_Some)
    case (ignored pa s1)
    with check_msg_term_leader [OF ignored(1)] assms(3) show ?thesis by simp
  qed (use assms(2) in simp_all)
next
  case (AppendEntries r)
  with assms(1) have "handle_append_entries rng r s = Some (as, s')" by (simp add: dispatch_message_def)
  then show ?thesis
  proof (cases rule: handle_append_entries_Some)
    case (refused pa s1)
    with check_msg_term_leader [OF refused(1)] assms(3) show ?thesis by simp
  next
    case (conflict pa s1 tm q)
    with assms(3) show ?thesis by simp
  next
    case (accepted pa s1 tm more)
    from accept_append_entries_frame [OF accepted(5)] obtain X c l where
      "s' = (following (ae_leader_id r) tm s1)\<lparr>log := X, commit_index := c, last_applied := l\<rparr>"
      by blast
    with assms(3) show ?thesis by simp
  qed
next
  case (AppendEntriesResponse r)
  with assms show ?thesis by (auto simp: dispatch_message_def dest: response_leader_log)
next
  case (InstallSnapshotMsg r)
  with assms have "s' = s"
    by (intro snapshot_leader_log [of rng r s as s']) (auto simp: dispatch_message_def no_rival_def)
  then show ?thesis by simp
next
  case (InstallSnapshotResponse r)
  with assms(1) have "handle_install_snapshot_response rng r s = Some (as, s')" by (simp add: dispatch_message_def)
  then show ?thesis
  proof (cases rule: handle_install_snapshot_response_Some)
    case (1 pa s1)
    from 1(3) assms(3) have "state s1 = Leader" by auto
    with check_msg_term_leader [OF 1(1)] have "s1 = s" by simp
    with 1(3) show ?thesis by (auto simp: lli_def)
  qed
qed

end
