(* ===== verification/Cluster.thy ===== *)
theory Cluster
  imports RaftMachine
begin

text \<open>
  A cluster of cores and the messages between them, to state that a term has at most one leader.
  The network loses, duplicates, reorders and delays: a step may deliver any message ever sent.
  A node may crash after any prefix of the actions of an operation and is restored
  (\<open>restore_with_snapshot\<close> of \<open>src/crates/raftcore/src/lib.rs\<close>) from the metadata that this
  prefix has written; which log and snapshot it recovers does not matter for elections and is
  arbitrary.  Two ghost fields record every vote cast and every leader.

  The locale \<open>quorum_system\<close> is what elections need of majorities; it is interpreted on the
  test that \<open>handle_request_vote_response\<close> performs.
\<close>

section \<open>Quorums\<close>

locale quorum_system =
  fixes is_quorum :: "'a set \<Rightarrow> bool"
  assumes meet: "is_quorum V \<Longrightarrow> is_quorum W \<Longrightarrow> V \<inter> W \<noteq> {}"
begin

lemma one_winner:
  assumes "is_quorum V" and "is_quorum W"
    and "\<And>v. v \<in> V \<Longrightarrow> ballot v c" and "\<And>v. v \<in> W \<Longrightarrow> ballot v d"
    and "\<And>v x y. ballot v x \<Longrightarrow> ballot v y \<Longrightarrow> x = y"
  shows "c = d"
proof -
  from meet [OF assms(1,2)] obtain v where "v \<in> V" "v \<in> W" by blast
  with assms(3-5) show ?thesis by blast
qed

end

definition majority_of :: "NodeId set \<Rightarrow> NodeId set \<Rightarrow> bool" where
  "majority_of M V \<longleftrightarrow> finite M \<and> V \<subseteq> M \<and> card M div 2 < card V"

interpretation majority: quorum_system "majority_of M" for M
proof
  fix V W
  assume q: "majority_of M V" "majority_of M W"
  then have f: "finite V" "finite W" by (auto simp: majority_of_def intro: finite_subset)
  have "card (V \<union> W) \<le> card M" using q by (auto simp: majority_of_def intro: card_mono)
  moreover have "card V + card W = card (V \<union> W) + card (V \<inter> W)" using f by (rule card_Un_Int)
  moreover have "card M div 2 < card V" "card M div 2 < card W" using q by (simp_all add: majority_of_def)
  ultimately have "0 < card (V \<inter> W)" by linarith
  then show "V \<inter> W \<noteq> {}" by auto
qed

section \<open>Cluster states and events\<close>

record cluster =
  cores :: "NodeId \<Rightarrow> RaftCore"
  sent :: "(NodeId \<times> Message) list"
  ballots :: "(NodeId \<times> u64 \<times> NodeId) set"
  led :: "(u64 \<times> NodeId) set"

text \<open>The messages the driver puts on the network for an action; the bytes of a snapshot come from
  its storage.\<close>

fun outgoing :: "NodeId \<Rightarrow> bytes \<Rightarrow> Action \<Rightarrow> (NodeId \<times> Message) list" where
  "outgoing n d (SendMessage target message) = [(target, message)]"
| "outgoing n d (SendInstallSnapshot target t i it) =
     [(target, InstallSnapshotMsg \<lparr> is_term = t, is_leader_id = n, is_last_included_index = i,
        is_last_included_term = it, is_data = d \<rparr>)]"
| "outgoing n d _ = []"

definition record_node :: "NodeId \<Rightarrow> bytes \<Rightarrow> RaftCore \<Rightarrow> Action list \<Rightarrow> cluster \<Rightarrow> cluster" where
  "record_node n d s as c =
     c\<lparr>cores := (cores c)(n := s), sent := sent c @ concat (map (outgoing n d) as),
       ballots := ballots c \<union> (case voted_for s of None \<Rightarrow> {} | Some v \<Rightarrow> {(n, current_term s, v)}),
       led := led c \<union> (if state s = Leader then {(current_term s, n)} else {})\<rparr>"

text \<open>The node may have been leader before it crashed.\<close>

definition mark_led :: "NodeId \<Rightarrow> RaftCore \<Rightarrow> cluster \<Rightarrow> cluster" where
  "mark_led n s c = c\<lparr>led := led c \<union> (if state s = Leader then {(current_term s, n)} else {})\<rparr>"

text \<open>A node that comes back with metadata \<open>m\<close> and some log and snapshot.\<close>

definition reborn ::
  "rng \<Rightarrow> NodeId list \<Rightarrow> meta \<Rightarrow> LogEntry list \<Rightarrow> u64 \<Rightarrow> u64 \<Rightarrow> RaftCore \<Rightarrow> RaftCore option" where
  "reborn rng members m entries lii lit s =
     restore_with_snapshot rng (node_id s) members (Some (heartbeat_interval s))
       (election_timeout_range s) (fst m) (snd m) entries lii lit"

datatype event =
    Run NodeId rng input bytes
  | Crash NodeId rng input bytes nat "LogEntry list" u64 u64

definition available :: "NodeId \<Rightarrow> input \<Rightarrow> cluster \<Rightarrow> bool" where
  "available n i c \<longleftrightarrow> (case i of Receive m \<Rightarrow> (n, m) \<in> set (sent c) | _ \<Rightarrow> True)"

fun cluster_exec :: "NodeId list \<Rightarrow> event \<Rightarrow> cluster \<Rightarrow> cluster option" where
  "cluster_exec members (Run n rng i d) c =
     (if n \<in> set members \<and> available n i c then do {
        (as, s) \<leftarrow> core_step rng i (cores c n);
        Some (record_node n d s as c) }
      else None)"
| "cluster_exec members (Crash n rng i d k entries lii lit) c =
     (if n \<in> set members \<and> available n i c then do {
        (as, s) \<leftarrow> core_step rng i (cores c n);
        let m = disk_meta (metadata (cores c n)) (take k as);
        r \<leftarrow> reborn rng members m entries lii lit (cores c n);
        Some (record_node n d r (take k as) (mark_led n s c)) }
      else None)"

primrec cluster_run :: "NodeId list \<Rightarrow> event list \<Rightarrow> cluster \<Rightarrow> cluster option" where
  "cluster_run members [] c = Some c"
| "cluster_run members (e # es) c = do { c' \<leftarrow> cluster_exec members e c; cluster_run members es c' }"

definition fresh_cluster :: "NodeId list \<Rightarrow> cluster \<Rightarrow> bool" where
  "fresh_cluster members c \<longleftrightarrow>
     (\<forall>n\<in>set members. \<exists>rng hb erange. new rng n members hb erange = Some (cores c n)) \<and>
     sent c = [] \<and> ballots c = {} \<and> led c = {}"

text \<open>No vote is delivered to a node that has moved on to a later term.\<close>

fun timely :: "event \<Rightarrow> cluster \<Rightarrow> bool" where
  "timely (Run n _ (Receive (RequestVoteResponse r)) _) c \<longleftrightarrow> current_term (cores c n) \<le> rvr_term r"
| "timely (Crash n _ (Receive (RequestVoteResponse r)) _ _ _ _ _) c \<longleftrightarrow>
     current_term (cores c n) \<le> rvr_term r"
| "timely _ c \<longleftrightarrow> True"

inductive reachable :: "NodeId list \<Rightarrow> cluster \<Rightarrow> bool" for members where
  start: "fresh_cluster members c \<Longrightarrow> reachable members c"
| step: "reachable members c \<Longrightarrow> timely e c \<Longrightarrow> cluster_exec members e c = Some c' \<Longrightarrow>
         reachable members c'"

inductive_cases reachableE: "reachable members c"

section \<open>The invariant\<close>

definition granted :: "cluster \<Rightarrow> NodeId \<Rightarrow> u64 \<Rightarrow> NodeId \<Rightarrow> bool" where
  "granted c v t d \<longleftrightarrow>
     (\<exists>r. (d, RequestVoteResponse r) \<in> set (sent c) \<and> rvr_vote_granted r \<and> rvr_id r = v \<and> rvr_term r = t)"

definition node_inv :: "NodeId list \<Rightarrow> cluster \<Rightarrow> NodeId \<Rightarrow> bool" where
  "node_inv members c n \<longleftrightarrow>
     node_id (cores c n) = n \<and> peers (cores c n) = filter (\<lambda>x. x \<noteq> n) members \<and>
     self_vote (cores c n) \<and>
     (\<forall>v. voted_for (cores c n) = Some v \<longrightarrow> (n, current_term (cores c n), v) \<in> ballots c) \<and>
     (\<forall>t v. (n, t, v) \<in> ballots c \<longrightarrow> meta_le (t, Some v) (metadata (cores c n))) \<and>
     (state (cores c n) = Leader \<longrightarrow> (current_term (cores c n), n) \<in> led c) \<and>
     (state (cores c n) \<noteq> Follower \<longrightarrow>
        (\<forall>v\<in>votes_received (cores c n). (v, current_term (cores c n), n) \<in> ballots c))"

definition votes_inv :: "NodeId list \<Rightarrow> cluster \<Rightarrow> bool" where
  "votes_inv members c \<longleftrightarrow>
     (\<forall>v t d. (v, t, d) \<in> ballots c \<longrightarrow> v \<in> set members) \<and>
     (\<forall>v t d d'. (v, t, d) \<in> ballots c \<longrightarrow> (v, t, d') \<in> ballots c \<longrightarrow> d = d') \<and>
     (\<forall>v t d. granted c v t d \<longrightarrow> (v, t, d) \<in> ballots c) \<and>
     (\<forall>t n. (t, n) \<in> led c \<longrightarrow> majority_of (set members) {v. (v, t, n) \<in> ballots c})"

definition cluster_inv :: "NodeId list \<Rightarrow> cluster \<Rightarrow> bool" where
  "cluster_inv members c \<longleftrightarrow> (\<forall>n\<in>set members. node_inv members c n) \<and> votes_inv members c"

lemma record_node_sel [simp]:
  "cores (record_node n d s as c) = (cores c)(n := s)"
  "sent (record_node n d s as c) = sent c @ concat (map (outgoing n d) as)"
  by (simp_all add: record_node_def)

lemma record_node_ballots:
  "(v, t, x) \<in> ballots (record_node n d s as c) \<longleftrightarrow>
     (v, t, x) \<in> ballots c \<or> v = n \<and> t = current_term s \<and> voted_for s = Some x"
  by (auto simp: record_node_def split: option.splits)

lemma record_node_led:
  "(t, x) \<in> led (record_node n d s as c) \<longleftrightarrow>
     (t, x) \<in> led c \<or> x = n \<and> t = current_term s \<and> state s = Leader"
  by (auto simp: record_node_def)

lemma outgoing_vote:
  assumes "(t, RequestVoteResponse r) \<in> set (concat (map (outgoing n d) as))"
  shows "SendMessage t (RequestVoteResponse r) \<in> set as"
proof -
  from assms obtain a where a: "a \<in> set as" "(t, RequestVoteResponse r) \<in> set (outgoing n d a)" by auto
  from a(2) have "a = SendMessage t (RequestVoteResponse r)" by (cases a) auto
  with a(1) show ?thesis by simp
qed

lemma quorum_majority:
  assumes "has_quorum s" and "peers s = filter (\<lambda>x. x \<noteq> n) members"
    and "votes_received s \<subseteq> V" and "V \<subseteq> set members"
  shows "majority_of (set members) V"
proof -
  have "set members \<subseteq> insert n (set (peers s))" using assms(2) by auto
  then have "card (set members) \<le> card (insert n (set (peers s)))" by (rule card_mono [rotated]) simp
  also have "\<dots> \<le> length (peers s) + 1"
    using card_insert_le_m1 [of "length (peers s) + 1" "set (peers s)" n] card_length [of "peers s"] by simp
  finally have "card (set members) div 2 < card (votes_received s)"
    using assms(1) unfolding has_quorum_def by (meson div_le_mono le_less_trans)
  also have "\<dots> \<le> card V" using assms(3,4) by (meson card_mono finite_set finite_subset)
  finally show ?thesis using assms(4) by (simp add: majority_of_def)
qed

text \<open>What one node may do in a step: its metadata moves forward, the votes it sends are the votes it
  has cast, it counts only votes cast for it, and it leads only with a quorum or as before.\<close>

definition node_move :: "cluster \<Rightarrow> NodeId \<Rightarrow> RaftCore \<Rightarrow> Action list \<Rightarrow> bool" where
  "node_move c n s as \<longleftrightarrow>
     node_id s = n \<and> peers s = peers (cores c n) \<and> self_vote s \<and>
     meta_le (metadata (cores c n)) (metadata s) \<and>
     (\<forall>x r. SendMessage x (RequestVoteResponse r) \<in> set as \<longrightarrow> rvr_vote_granted r \<longrightarrow>
        rvr_id r = n \<and> rvr_term r = current_term s \<and> voted_for s = Some x) \<and>
     (state s \<noteq> Follower \<longrightarrow>
        (\<forall>v\<in>votes_received s. v = n \<or> (v, current_term s, n) \<in> ballots c)) \<and>
     (state s = Leader \<longrightarrow> (current_term s, n) \<in> led c \<or> has_quorum s)"

lemma node_move_votes:
  assumes "cluster_inv members c" and "n \<in> set members" and "node_move c n s as"
  shows "votes_inv members (record_node n d s as c)"
proof -
  let ?c = "record_node n d s as c"
  have v: "votes_inv members c" and ni: "node_inv members c n" using assms(1,2) by (auto simp: cluster_inv_def)
  have old: "x = y" if "(n, current_term s, x) \<in> ballots c" "voted_for s = Some y" for x y
  proof -
    from ni that(1) have "meta_le (current_term s, Some x) (metadata (cores c n))" by (simp add: node_inv_def)
    with assms(3) have "meta_le (current_term s, Some x) (metadata s)"
      by (auto simp: node_move_def intro: meta_le_trans)
    with that(2) show ?thesis by (simp add: metadata_def)
  qed
  have mem: "x \<in> set members" if "(x, t, y) \<in> ballots ?c" for x t y
    using that v assms(2) by (auto simp: record_node_ballots votes_inv_def)
  have one: "y = z" if "(x, t, y) \<in> ballots ?c" "(x, t, z) \<in> ballots ?c" for x t y z
    using that v old unfolding record_node_ballots votes_inv_def by (metis option.inject)
  have gr: "(x, t, y) \<in> ballots ?c" if "granted ?c x t y" for x t y
  proof -
    from that obtain r where r: "(y, RequestVoteResponse r) \<in> set (sent ?c)" "rvr_vote_granted r"
      "rvr_id r = x" "rvr_term r = t" by (auto simp: granted_def)
    show ?thesis
    proof (cases "(y, RequestVoteResponse r) \<in> set (sent c)")
      case True
      with r have "granted c x t y" unfolding granted_def by blast
      with v show ?thesis by (simp add: record_node_ballots votes_inv_def)
    next
      case False
      with r(1) have "(y, RequestVoteResponse r) \<in> set (concat (map (outgoing n d) as))" by simp
      then have "SendMessage y (RequestVoteResponse r) \<in> set as" by (rule outgoing_vote)
      with r assms(3) show ?thesis by (auto simp: node_move_def record_node_ballots)
    qed
  qed
  have mono: "{x. (x, t, m) \<in> ballots c} \<subseteq> {x. (x, t, m) \<in> ballots ?c}" for t m
    by (auto simp: record_node_ballots)
  have "majority_of (set members) {x. (x, t, m) \<in> ballots ?c}" if "(t, m) \<in> led ?c" for t m
  proof (cases "(t, m) \<in> led c")
    case True
    with v have q: "majority_of (set members) {x. (x, t, m) \<in> ballots c}" by (simp add: votes_inv_def)
    have sub: "{x. (x, t, m) \<in> ballots ?c} \<subseteq> set members" using mem by auto
    then have "card {x. (x, t, m) \<in> ballots c} \<le> card {x. (x, t, m) \<in> ballots ?c}"
      using mono by (meson card_mono finite_set finite_subset)
    with q sub show ?thesis by (simp add: majority_of_def)
  next
    case False
    with that have l: "m = n" "t = current_term s" "state s = Leader" by (auto simp: record_node_led)
    with False assms(3) have q: "has_quorum s" by (auto simp: node_move_def)
    have "peers s = filter (\<lambda>x. x \<noteq> n) members" using assms(3) ni by (simp add: node_move_def node_inv_def)
    moreover have "votes_received s \<subseteq> {x. (x, t, m) \<in> ballots ?c}"
      using assms(3) l by (auto simp: node_move_def self_vote_def record_node_ballots)
    ultimately show ?thesis using q mem by (intro quorum_majority [of s n]) auto
  qed
  with mem one gr show ?thesis unfolding votes_inv_def by blast
qed

lemma node_move_inv:
  assumes "cluster_inv members c" and "n \<in> set members" and "node_move c n s as"
  shows "cluster_inv members (record_node n d s as c)"
proof -
  let ?c = "record_node n d s as c"
  have "node_inv members ?c m" if m: "m \<in> set members" for m
  proof (cases "m = n")
    case False
    from assms(1) m have "node_inv members c m" by (simp add: cluster_inv_def)
    with False show ?thesis
      by (auto simp: node_inv_def record_node_ballots record_node_led)
  next
    case True
    from assms(1,2) have ni: "node_inv members c n" by (simp add: cluster_inv_def)
    have "meta_le (t, Some v) (metadata s)" if "(n, t, v) \<in> ballots ?c" for t v
    proof (cases "(n, t, v) \<in> ballots c")
      case True
      with ni have "meta_le (t, Some v) (metadata (cores c n))" by (simp add: node_inv_def)
      with assms(3) show ?thesis by (auto simp: node_move_def intro: meta_le_trans)
    next
      case no: False
      with that show ?thesis by (simp add: record_node_ballots metadata_def)
    qed
    with True ni assms(3) show ?thesis
      by (auto simp: node_inv_def node_move_def self_vote_def record_node_ballots record_node_led)
  qed
  with node_move_votes [OF assms] show ?thesis by (simp add: cluster_inv_def)
qed

section \<open>Every step is such a move\<close>

text \<open>The votes an operation may count: those of a response to the node in its own term.\<close>

lemma votes_counted:
  assumes "cluster_inv members c" and "n \<in> set members" and "available n i c"
    and "core_step rng i (cores c n) = Some (as, s)" and "timely (Run n rng i d) c"
    and "state s \<noteq> Follower" and "v \<in> votes_received s"
  shows "v = n \<or> (v, current_term s, n) \<in> ballots c"
proof -
  let ?s0 = "cores c n"
  have ni: "node_inv members c n" and vi: "votes_inv members c" using assms(1,2) by (auto simp: cluster_inv_def)
  have sv: "self_vote ?s0" and nid: "node_id ?s0 = n" using ni by (auto simp: node_inv_def)
  have old: "x = n \<or> (x, current_term ?s0, n) \<in> ballots c"
    if "x \<in> votes_received ?s0" "state ?s0 \<noteq> Follower" for x
    using ni that by (auto simp: node_inv_def)
  have r: "role_step (votes_of i) ?s0 s" using core_step_role [OF assms(4) sv] .
  show ?thesis
  proof (cases "v \<in> votes_received ?s0 \<or> v = n")
    case True
    from r assms(6) nid consider "state (cores c n) \<noteq> Follower" "current_term s = current_term ?s0"
      | "votes_received s = {n}" by (auto simp: role_step_def)
    then show ?thesis
    proof cases
      case 1
      with True old [of v] show ?thesis by auto
    next
      case 2
      with assms(7) show ?thesis by simp
    qed
  next
    case False
    with r assms(6,7) nid have "v \<in> votes_of i" and t: "current_term s = current_term ?s0"
      by (auto simp: role_step_def)
    then obtain q where i: "i = Receive (RequestVoteResponse q)" and q: "rvr_id q = v"
      by (cases i rule: votes_of.cases) auto
    from assms(4) i have h: "handle_request_vote_response rng q ?s0 = Some (as, s)"
      by (simp add: dispatch_message_def)
    from handle_request_vote_response_counts [OF h assms(6)] False assms(7) have
      "rvr_term q \<le> current_term ?s0" "rvr_vote_granted q" by auto
    with assms(3,5) i q t have "granted c v (current_term s) n"
      by (auto simp: available_def granted_def)
    with vi show ?thesis by (simp add: votes_inv_def)
  qed
qed

lemma core_step_move:
  assumes "cluster_inv members c" and "n \<in> set members" and "available n i c"
    and "core_step rng i (cores c n) = Some (as, s)" and "timely (Run n rng i d) c"
  shows "node_move c n s as"
proof -
  let ?s0 = "cores c n"
  have ni: "node_inv members c n" using assms(1,2) by (simp add: cluster_inv_def)
  then have sv: "self_vote ?s0" and nid: "node_id ?s0 = n" by (auto simp: node_inv_def)
  have k: "op_contract ?s0 as s" using core_step_contract [OF assms(4)] .
  have r: "role_step (votes_of i) ?s0 s" using core_step_role [OF assms(4) sv] .
  have "rvr_id q = n \<and> rvr_term q = current_term s \<and> voted_for s = Some x"
    if "SendMessage x (RequestVoteResponse q) \<in> set as" "rvr_vote_granted q" for x q
    using k that nid by (fastforce simp: op_contract_def list_all_iff metadata_def)
  moreover have "(current_term s, n) \<in> led c \<or> has_quorum s" if "state s = Leader"
    using r that ni by (auto simp: role_step_def node_inv_def)
  moreover have "self_vote s" using core_step_self_vote [OF assms(4) sv] .
  ultimately show ?thesis
    using k nid votes_counted [OF assms]
    by (auto simp: node_move_def op_contract_def same_config_def meta_le_vote_kept)
qed

text \<open>A crash: what was sent before it rests on metadata that is on disk.\<close>

lemma crash_move:
  assumes "cluster_inv members c" and "n \<in> set members"
    and "core_step rng i (cores c n) = Some (as, s)"
    and "reborn rng' members (disk_meta (metadata (cores c n)) (take k as)) es lii lit (cores c n) = Some r"
  shows "node_move c n r (take k as)"
proof -
  let ?s0 = "cores c n"
  let ?m = "disk_meta (metadata ?s0) (take k as)"
  have ni: "node_inv members c n" using assms(1,2) by (simp add: cluster_inv_def)
  then have nid: "node_id ?s0 = n" "peers ?s0 = filter (\<lambda>x. x \<noteq> n) members" by (auto simp: node_inv_def)
  have ct: "op_contract ?s0 as s" using core_step_contract [OF assms(3)] .
  then have d: "durable_sends (metadata s) (metadata ?s0) as" by (simp add: op_contract_def)
  note pre = durable_sends_prefix [OF d, of k]
  have r: "node_id r = n" "peers r = peers ?s0" "metadata r = ?m" "state r = Follower"
    using assms(4) nid
    by (auto simp: reborn_def restore_with_snapshot_def restore_def new_def opt_bind metadata_def)
  have "rvr_id q = n \<and> rvr_term q = current_term r \<and> voted_for r = Some x"
    if snd: "SendMessage x (RequestVoteResponse q) \<in> set (take k as)" and g: "rvr_vote_granted q" for x q
  proof -
    have "list_ex is_send (take k as)" unfolding list_ex_iff using snd by (metis is_send.simps(1))
    with pre r(3) have m: "metadata r = metadata s" by simp
    from snd have "SendMessage x (RequestVoteResponse q) \<in> set as" by (rule in_set_takeD)
    with ct have "honest_vote (node_id ?s0) (metadata s) (SendMessage x (RequestVoteResponse q))"
      unfolding op_contract_def list_all_iff by blast
    with g m nid show ?thesis by (simp add: metadata_def)
  qed
  with r pre show ?thesis by (simp add: node_move_def self_vote_def)
qed

text \<open>A node that leads after a step, even if the step is interrupted, has been elected by votes that were
  cast before it.\<close>

lemma mark_led_sel [simp]:
  "cores (mark_led n s c) = cores c" "sent (mark_led n s c) = sent c" "ballots (mark_led n s c) = ballots c"
  by (simp_all add: mark_led_def)

lemma mark_led_inv:
  assumes "cluster_inv members c" and "n \<in> set members" and "available n i c"
    and "core_step rng i (cores c n) = Some (as, s)" and "timely (Run n rng i d) c"
  shows "cluster_inv members (mark_led n s c)"
proof -
  let ?s0 = "cores c n"
  have ni: "node_inv members c n" and vi: "votes_inv members c" using assms(1,2) by (auto simp: cluster_inv_def)
  then have sv: "self_vote ?s0" and nid: "node_id ?s0 = n" by (auto simp: node_inv_def)
  note mv = core_step_move [OF assms]
  have "majority_of (set members) {v. (v, current_term s, n) \<in> ballots c}"
    if l: "state s = Leader" "(current_term s, n) \<notin> led c"
  proof -
    have "current_term s = current_term ?s0" "voted_for s = voted_for ?s0"
      using core_step_role [OF assms(4) sv] l(1) by (auto simp: role_step_def)
    moreover have "voted_for s = Some n" using mv l(1) by (auto simp: node_move_def self_vote_def)
    ultimately have "(n, current_term s, n) \<in> ballots c" using ni by (auto simp: node_inv_def)
    with mv l have "votes_received s \<subseteq> {v. (v, current_term s, n) \<in> ballots c}"
      by (auto simp: node_move_def)
    moreover have "has_quorum s" "peers s = filter (\<lambda>x. x \<noteq> n) members"
      using mv l ni by (auto simp: node_move_def node_inv_def)
    moreover have "{v. (v, current_term s, n) \<in> ballots c} \<subseteq> set members"
      using vi by (auto simp: votes_inv_def)
    ultimately show ?thesis using quorum_majority by blast
  qed
  then have "majority_of (set members) {v. (v, t, m) \<in> ballots c}" if "(t, m) \<in> led (mark_led n s c)" for t m
    using that vi by (cases "(t, m) \<in> led c") (auto simp: mark_led_def votes_inv_def split: if_splits)
  moreover have "granted (mark_led n s c) = granted c" by (simp add: granted_def fun_eq_iff)
  ultimately have "votes_inv members (mark_led n s c)"
    using vi unfolding votes_inv_def by (metis mark_led_sel(3))
  moreover have "node_inv members (mark_led n s c) m" if "node_inv members c m" for m
    using that unfolding node_inv_def mark_led_def by simp
  ultimately show ?thesis using assms(1) by (simp add: cluster_inv_def)
qed

lemma cluster_exec_inv:
  assumes "cluster_inv members c" and "timely e c" and "cluster_exec members e c = Some c'"
  shows "cluster_inv members c'"
proof (cases e)
  case (Run n rng i d)
  with assms(3) obtain as s where n: "n \<in> set members" "available n i c"
    and st: "core_step rng i (cores c n) = Some (as, s)" and c': "c' = record_node n d s as c"
    by (auto simp: opt_bind split: if_splits)
  with core_step_move [OF assms(1) n st] assms(2) Run node_move_inv [OF assms(1) n(1)] show ?thesis by simp
next
  case (Crash n rng i d k es lii lit)
  with assms(3) obtain as s r where n: "n \<in> set members" "available n i c"
    and st: "core_step rng i (cores c n) = Some (as, s)"
    and rb: "reborn rng members (disk_meta (metadata (cores c n)) (take k as)) es lii lit (cores c n) = Some r"
    and c': "c' = record_node n d r (take k as) (mark_led n s c)"
    by (auto simp: opt_bind Let_def split: if_splits)
  have "timely (Run n rng i d) c" using assms(2) Crash by (cases i rule: votes_of.cases) auto
  then have m: "cluster_inv members (mark_led n s c)" using mark_led_inv [OF assms(1) n st] by simp
  show ?thesis unfolding c' using st rb by (intro node_move_inv [OF m n(1)] crash_move [OF m n(1)]) simp_all
qed

lemma fresh_cluster_inv:
  assumes "fresh_cluster members c"
  shows "cluster_inv members c"
proof -
  have e: "sent c = []" "ballots c = {}" "led c = {}" using assms by (simp_all add: fresh_cluster_def)
  have "node_inv members c n" if "n \<in> set members" for n
  proof -
    from assms that obtain rng hb erange where "new rng n members hb erange = Some (cores c n)"
      by (auto simp: fresh_cluster_def)
    then have "node_id (cores c n) = n" "peers (cores c n) = filter (\<lambda>x. x \<noteq> n) members"
      "state (cores c n) = Follower" "voted_for (cores c n) = None"
      by (simp_all add: new_Some)
    with e show ?thesis by (simp add: node_inv_def self_vote_def)
  qed
  with e show ?thesis by (simp add: cluster_inv_def votes_inv_def granted_def)
qed

lemma reachable_inv: "reachable members c \<Longrightarrow> cluster_inv members c"
  by (induction rule: reachable.induct) (auto intro: fresh_cluster_inv cluster_exec_inv)

lemma one_leader_per_term:
  assumes "reachable members c" and "(t, n) \<in> led c" and "(t, m) \<in> led c"
  shows "n = m"
proof -
  have v: "votes_inv members c" using reachable_inv [OF assms(1)] by (simp add: cluster_inv_def)
  let ?V = "\<lambda>x. {v. (v, t, x) \<in> ballots c}"
  have "majority_of (set members) (?V n)" "majority_of (set members) (?V m)"
    using v assms(2,3) by (auto simp: votes_inv_def)
  then show ?thesis
  proof (rule majority.one_winner [where ballot = "\<lambda>v x. (v, t, x) \<in> ballots c"])
    fix u x y assume "(u, t, x) \<in> ballots c" "(u, t, y) \<in> ballots c"
    with v show "x = y" unfolding votes_inv_def by blast
  qed simp_all
qed

section \<open>Runs\<close>

primrec timely_run :: "NodeId list \<Rightarrow> event list \<Rightarrow> cluster \<Rightarrow> bool" where
  "timely_run members [] c \<longleftrightarrow> True"
| "timely_run members (e # es) c \<longleftrightarrow>
     timely e c \<and> (case cluster_exec members e c of None \<Rightarrow> True | Some c' \<Rightarrow> timely_run members es c')"

lemma cluster_run_reachable:
  assumes "reachable members c" and "timely_run members es c" and "cluster_run members es c = Some c'"
  shows "reachable members c'"
  using assms
proof (induction es arbitrary: c)
  case (Cons e es)
  then obtain c1 where "cluster_exec members e c = Some c1" "cluster_run members es c1 = Some c'"
    by (auto simp: opt_bind)
  with Cons show ?case by (auto intro: reachable.step)
qed simp

section \<open>A stale vote elects a second leader\<close>

text \<open>Three nodes with a timeout of one tick.  Node 1 stands in term 1 and both others vote for it;
  before their answers arrive it stands again, in term 2.  The answer of node 2 for term 1 is then
  counted in term 2.  Node 3, which stands in term 2 as well, is elected by node 2.\<close>

definition demo_members :: "NodeId list" where
  "demo_members = [1, 2, 3]"

definition demo_cluster :: cluster where
  "demo_cluster =
     \<lparr> cores = (\<lambda>n. the (new demo_rng n demo_members None (1, 2))),
       sent = [], ballots = {}, led = {} \<rparr>"

definition demo_request :: "u64 \<Rightarrow> NodeId \<Rightarrow> Message" where
  "demo_request t n =
     RequestVote \<lparr> rv_term = t, rv_candidate_id = n, rv_last_log_index = 0, rv_last_log_term = 0 \<rparr>"

definition demo_vote :: "u64 \<Rightarrow> NodeId \<Rightarrow> Message" where
  "demo_vote t n = RequestVoteResponse \<lparr> rvr_id = n, rvr_term = t, rvr_vote_granted = True \<rparr>"

definition stale_vote_run :: "event list" where
  "stale_vote_run =
     [Run 1 demo_rng Tick [],
      Run 2 demo_rng (Receive (demo_request 1 1)) [],
      Run 3 demo_rng (Receive (demo_request 1 1)) [],
      Run 1 demo_rng Tick [],
      Run 1 demo_rng (Receive (demo_vote 1 2)) [],
      Run 3 demo_rng Tick [],
      Run 2 demo_rng (Receive (demo_request 2 3)) [],
      Run 3 demo_rng (Receive (demo_vote 2 2)) []]"

text \<open>An orderly election of node 1 in term 1.\<close>

definition orderly_run :: "event list" where
  "orderly_run =
     [Run 1 demo_rng Tick [],
      Run 2 demo_rng (Receive (demo_request 1 1)) [],
      Run 1 demo_rng (Receive (demo_vote 1 2)) []]"

definition leaders_of :: "NodeId list \<Rightarrow> cluster \<Rightarrow> (NodeId \<times> u64) list" where
  "leaders_of members c =
     map (\<lambda>n. (n, current_term (cores c n))) (filter (\<lambda>n. state (cores c n) = Leader) members)"

lemmas demo_exec [exec] =
  stale_vote_run_def orderly_run_def demo_cluster_def demo_members_def demo_request_def demo_vote_def
  leaders_of_def available_def record_node_def mark_led_def

lemma demo_cluster_fresh: "fresh_cluster demo_members demo_cluster"
proof -
  have "new demo_rng n demo_members None (1, 2) = Some (cores demo_cluster n)" for n
    by (simp add: demo_cluster_def new_def demo_rng_def)
  then show ?thesis
    unfolding fresh_cluster_def by (auto simp: demo_cluster_def)
qed

lemma demo_cluster_reachable: "reachable demo_members demo_cluster"
  by (rule reachable.start [OF demo_cluster_fresh])

end
