(* ===== verification/LogPaths.thy ===== *)
theory LogPaths
  imports RaftMachine
begin

text \<open>
  Where the entries of a log come from.  A history is the set of entries that leaders have created, each
  with its index and the term of the entry before it; a log is a path through the history.  The theory
  shows for every operation of the core that the node's log, the requests it sends and what it leaves
  on disk stay paths, when the history is extended by the entry that a leader creates.
\<close>

section \<open>Histories and paths\<close>

type_synonym history = "(u64 \<times> LogEntry \<times> u64) set"

text \<open>An index and a term determine the entry and what comes before it.\<close>

definition unique_history :: "history \<Rightarrow> bool" where
  "unique_history H \<longleftrightarrow>
     (\<forall>i e t e' t'. (i, e, t) \<in> H \<longrightarrow> (i, e', t') \<in> H \<longrightarrow> le_term e = le_term e' \<longrightarrow> e = e' \<and> t = t')"

primrec path :: "history \<Rightarrow> u64 \<Rightarrow> u64 \<Rightarrow> LogEntry list \<Rightarrow> bool" where
  "path H i t [] \<longleftrightarrow> True"
| "path H i t (e # es) \<longleftrightarrow> (i + 1, e, t) \<in> H \<and> path H (i + 1) (le_term e) es"

definition end_term :: "u64 \<Rightarrow> LogEntry list \<Rightarrow> u64" where
  "end_term t es = (if es = [] then t else le_term (last es))"

lemma end_term_simps [simp]:
  "end_term t [] = t" "end_term t (es @ [e]) = le_term e"
  "end_term t (e # es) = end_term (le_term e) es"
  by (simp_all add: end_term_def)

lemma path_append [simp]:
  "path H i t (xs @ ys) \<longleftrightarrow> path H i t xs \<and> path H (i + length xs) (end_term t xs) ys"
  by (induction xs arbitrary: i t) auto

lemma path_mono: "path H i t es \<Longrightarrow> H \<subseteq> H' \<Longrightarrow> path H' i t es"
  by (induction es arbitrary: i t) auto

lemma path_take: "path H i t es \<Longrightarrow> path H i t (take k es)"
  by (metis append_take_drop_id path_append)

lemma path_drop: "path H i t es \<Longrightarrow> k \<le> length es \<Longrightarrow> path H (i + k) (end_term t (take k es)) (drop k es)"
  using path_append [of H i t "take k es" "drop k es"] by (simp del: path_append add: min_absorb2)

lemma path_nth:
  assumes "path H i t es" and "k < length es"
  shows "(i + k + 1, es ! k, end_term t (take k es)) \<in> H"
  using assms
proof (induction es arbitrary: i t k)
  case (Cons e es)
  then show ?case by (cases k) fastforce+
qed simp

section \<open>What of a node and of a message lies in the history\<close>

definition node_path :: "history \<Rightarrow> RaftCore \<Rightarrow> bool" where
  "node_path H s \<longleftrightarrow>
     path H (last_included_index s) (last_included_term s) (log s) \<and>
     (last_included_index s = 0 \<longrightarrow> last_included_term s = 0)"

fun msg_path :: "history \<Rightarrow> Message \<Rightarrow> bool" where
  "msg_path H (AppendEntries r) \<longleftrightarrow>
     path H (ae_prev_log_index r) (ae_prev_log_term r) (ae_entries r) \<and>
     (ae_prev_log_index r = 0 \<longrightarrow> ae_prev_log_term r = 0)"
| "msg_path H _ \<longleftrightarrow> True"

fun action_path :: "history \<Rightarrow> Action \<Rightarrow> bool" where
  "action_path H (SendMessage _ m) \<longleftrightarrow> msg_path H m"
| "action_path H _ \<longleftrightarrow> True"

lemma node_path_cong:
  "log s' = log s \<Longrightarrow> last_included_index s' = last_included_index s \<Longrightarrow>
   last_included_term s' = last_included_term s \<Longrightarrow> node_path H s' = node_path H s"
  by (simp add: node_path_def)

lemma msg_path_mono: "msg_path H m \<Longrightarrow> H \<subseteq> H' \<Longrightarrow> msg_path H' m"
  by (cases m) (auto intro: path_mono)

lemma node_path_mono: "node_path H s \<Longrightarrow> H \<subseteq> H' \<Longrightarrow> node_path H' s"
  by (auto simp: node_path_def intro: path_mono)

lemma log_term_end:
  assumes "last_included_index s \<le> i" and "i \<le> lli s"
  shows "log_term_at s i = Some (end_term (last_included_term s) (take (i - last_included_index s) (log s)))"
proof (cases "i = last_included_index s")
  case False
  then have k: "i - last_included_index s = Suc (i - last_included_index s - 1)"
    "i - last_included_index s - 1 < length (log s)" using assms by (auto simp: lli_def)
  have "take (i - last_included_index s) (log s) =
      take (i - last_included_index s - 1) (log s) @ [log s ! (i - last_included_index s - 1)]"
    using take_Suc_conv_app_nth [OF k(2)] by (simp only: k(1) [symmetric])
  with False assms show ?thesis by (simp add: log_term_at_above)
qed simp

section \<open>Requests\<close>

lemma build_append_entries_path:
  assumes "build_append_entries_for_peer s p = Some a" and "node_path H s"
  shows "action_path H a"
proof -
  define n where "n = (case map_of (next_index s) p of Some n \<Rightarrow> n | None \<Rightarrow> lli s)"
  define q where "q = (if 0 < n then n - 1 else 0)"
  show ?thesis
  proof (cases "log_term_at s q")
    case None
    with assms(1) have "a = install_snapshot_for_peer s p"
      unfolding build_append_entries_for_peer_def n_def q_def
      by (auto simp: opt_bind checked Let_def)
    then show ?thesis by (simp add: install_snapshot_for_peer_def)
  next
    case (Some t)
    with assms(1) obtain es where es: "log_slice s n (lli s + 1) = Some es"
      and a: "a = SendMessage p (AppendEntries
        \<lparr> ae_term = current_term s, ae_leader_id = node_id s, ae_prev_log_index = q,
          ae_prev_log_term = t, ae_entries = es, ae_leader_commit = commit_index s \<rparr>)"
      unfolding build_append_entries_for_peer_def n_def q_def by (auto simp: opt_bind checked Let_def)
    have q: "last_included_index s \<le> q" "q \<le> lli s" using Some log_term_at_None [of s q] by auto
    have z: "q = 0 \<longrightarrow> t = 0" using Some q assms(2) by (auto simp: node_path_def log_term_at_def)
    have "path H q t es"
    proof (cases "n \<le> last_included_index s")
      case True
      with es show ?thesis by simp
    next
      case False
      then have n: "n = q + 1" by (auto simp: q_def)
      with False es q(2) log_slice_tail [of s n] have e: "es = drop (q - last_included_index s) (log s)" by simp
      have "path H q (end_term (last_included_term s) (take (q - last_included_index s) (log s))) es"
        using path_drop [of H "last_included_index s" "last_included_term s" "log s"
            "q - last_included_index s"] assms(2) q e
        by (simp add: node_path_def lli_def)
      with Some log_term_end [OF q] show ?thesis by simp
    qed
    with z a show ?thesis by simp
  qed
qed

lemma append_entries_path:
  "append_entries s = Some as \<Longrightarrow> node_path H s \<Longrightarrow> list_all (action_path H) as"
  unfolding append_entries_def by (erule map_opt_all) (rule build_append_entries_path)

section \<open>Appending the entries of a request\<close>

text \<open>One more entry behind index \<open>p\<close> of the log.\<close>

lemma node_path_push:
  assumes "node_path H s" and "last_included_index s \<le> p" and "p \<le> lli s" and "log_term_at s p = Some t"
    and "(p + 1, e, t) \<in> H"
  shows "node_path H (s\<lparr>log := take (p - last_included_index s) (log s) @ [e]\<rparr>)"
proof -
  let ?k = "p - last_included_index s"
  have "path H (last_included_index s) (last_included_term s) (take ?k (log s))"
    using assms(1) by (simp add: node_path_def path_take)
  moreover have "last_included_index s + length (take ?k (log s)) = p" using assms(2,3) by (simp add: lli_def)
  moreover have "end_term (last_included_term s) (take ?k (log s)) = t"
    using log_term_end [OF assms(2,3)] assms(4) by simp
  ultimately show ?thesis using assms(1,5) by (simp add: node_path_def)
qed

lemma append_loop_path:
  assumes "append_loop (p + 1) es s = Some s'" and "node_path H s"
    and "last_included_index s \<le> p" and "p \<le> lli s" and "log_term_at s p = Some t" and "path H p t es"
  shows "node_path H s' \<and> last_included_index s' = last_included_index s \<and>
     last_included_term s' = last_included_term s \<and> p \<le> lli s' \<and>
     take (p - last_included_index s) (log s') = take (p - last_included_index s) (log s)"
  using assms
proof (induction es arbitrary: p s t)
  case (Cons e es)
  let ?k = "p - last_included_index s"
  have e: "(p + 1, e, t) \<in> H" and es: "path H (p + 1) (le_term e) es" using Cons.prems(6) by auto
  have k: "?k \<le> length (log s)" "Suc p - last_included_index s = Suc ?k"
    using Cons.prems(3,4) by (auto simp: lli_def)
  let ?s1 = "s\<lparr>log := take ?k (log s) @ [e]\<rparr>"
  from Cons.prems(1) obtain s1 where r: "append_loop (p + 1 + 1) es s1 = Some s'"
    and s1: "s1 = ?s1 \<or> s1 = s \<and> p + 1 \<le> lli s \<and> log_term_at s (p + 1) = Some (le_term e)"
  proof (cases "p + 1 \<le> lli s")
    case True
    with Cons.prems(1) k that show thesis
      by (auto simp: opt_bind checked split: if_splits)
  next
    case False
    then have "?k = length (log s)" using Cons.prems(3,4) by (simp add: lli_def)
    with False Cons.prems(1) that [of ?s1] show thesis by (auto simp: opt_bind checked)
  qed
  show ?case
  proof (cases "s1 = ?s1")
    case True
    have n: "node_path H s1" unfolding True using node_path_push [OF Cons.prems(2-5) e] .
    have l: "lli s1 = p + 1" using True k Cons.prems(3) by (simp add: lli_def)
    have "log_term_at s1 (p + 1) = Some (le_term e)"
      using True k l Cons.prems(3) log_term_end [of s1 "p + 1"] by simp
    from Cons.IH [OF r n _ _ this es] l True k Cons.prems(3)
    have i: "node_path H s'" "last_included_index s' = last_included_index s"
      "last_included_term s' = last_included_term s" "p + 1 \<le> lli s'"
      "take (Suc ?k) (log s') = take (Suc ?k) (log s1)" by auto
    have "take ?k (log s') = take ?k (take (Suc ?k) (log s'))" by (simp add: min_def)
    also have "\<dots> = take ?k (log s)" using i(5) True k by (simp add: min_def)
    finally show ?thesis using i by simp
  next
    case False
    with s1 have s1: "s1 = s" "p + 1 \<le> lli s" "log_term_at s (p + 1) = Some (le_term e)" by auto
    from Cons.IH [OF r [unfolded s1(1)] Cons.prems(2) _ s1(2,3) es] Cons.prems(3) k
    have i: "node_path H s'" "last_included_index s' = last_included_index s"
      "last_included_term s' = last_included_term s" "p + 1 \<le> lli s'"
      "take (Suc ?k) (log s') = take (Suc ?k) (log s)" by auto
    have "take ?k (log s') = take ?k (take (Suc ?k) (log s'))" by (simp add: min_def)
    also have "\<dots> = take ?k (log s)" using i(5) by (simp add: min_def)
    finally show ?thesis using i by simp
  qed
qed simp

section \<open>The disk while a step is carried out\<close>

text \<open>Whatever prefix of the actions has been carried out, the disk holds the log and the snapshot position
  of the old or of the new state.\<close>

definition disk_either :: "RaftCore \<Rightarrow> Action list \<Rightarrow> RaftCore \<Rightarrow> bool" where
  "disk_either s as s' \<longleftrightarrow>
     (\<forall>k. (map snd (disk_replay (take k as) (log_frames s)), snap_replay (take k as) (base s)) \<in>
        {(log s, base s), (log s', base s')})"

lemma map_snd_log_frames [simp]: "map snd (log_frames s) = log s"
  by (simp add: log_frames_def)

lemma disk_either_untouched:
  assumes "list_all (\<lambda>a. \<not> touches_log a) as"
  shows "disk_either s as s'"
proof -
  have "list_all (\<lambda>a. \<not> touches_log a) (take k as)" for k
    using assms by (auto simp: list_all_iff dest: in_set_takeD)
  then show ?thesis by (simp add: disk_either_def disk_replay_untouched snap_replay_untouched)
qed

lemma disk_either_one:
  assumes "list_all (\<lambda>a. \<not> touches_log a) xs" and "list_all (\<lambda>a. \<not> touches_log a) ys"
    and "(map snd (disk_step a (log_frames s)), snap_step a (base s)) \<in> {(log s, base s), (log s', base s')}"
  shows "disk_either s (xs @ a # ys) s'"
proof -
  have x: "list_all (\<lambda>a. \<not> touches_log a) (take k xs)" and y: "list_all (\<lambda>a. \<not> touches_log a) (take k ys)" for k
    using assms(1,2) by (auto simp: list_all_iff dest: in_set_takeD)
  have "(map snd (disk_replay (take k (xs @ a # ys)) (log_frames s)),
      snap_replay (take k (xs @ a # ys)) (base s)) \<in> {(log s, base s), (log s', base s')}" for k
  proof (cases "k - length xs")
    case 0
    then show ?thesis using x by (simp add: disk_replay_untouched snap_replay_untouched)
  next
    case (Suc j)
    then have "take k xs = xs" by simp
    with Suc assms(1,3) y [of j] show ?thesis
      by (simp add: disk_replay_untouched snap_replay_untouched)
  qed
  then show ?thesis by (simp add: disk_either_def)
qed

lemma disk_either_append:
  assumes "disk_either s xs s'" and "list_all (\<lambda>a. \<not> touches_log a) ys"
  shows "disk_either s (xs @ ys) s'"
proof -
  have y: "list_all (\<lambda>a. \<not> touches_log a) (take k ys)" for k
    using assms(2) by (auto simp: list_all_iff dest: in_set_takeD)
  show ?thesis
    using assms(1) y unfolding disk_either_def by (simp add: disk_replay_untouched snap_replay_untouched)
qed

text \<open>Persisting a new tail of the log.\<close>

lemma disk_step_tail:
  assumes "last_included_index s \<le> p" and "p \<le> lli s'" and "last_included_index s' = last_included_index s"
    and "take (p - last_included_index s) (log s') = take (p - last_included_index s) (log s)"
  shows "map snd (disk_step (PersistLogEntries (p + 1) (drop (p - last_included_index s) (log s'))) (log_frames s)) =
     log s'"
proof -
  let ?k = "p - last_included_index s"
  have "store_frames (last_included_index s + 1 + ?k) (drop ?k (log s')) (enumerate (last_included_index s + 1) (log s)) =
      enumerate (last_included_index s + 1) (log s')"
    using assms(2,3,4) by (intro store_frames_tail) (auto simp: lli_def)
  moreover have "last_included_index s + 1 + ?k = p + 1" using assms(1) by simp
  ultimately show ?thesis by (simp add: log_frames_def)
qed

section \<open>The effect of an operation\<close>

text \<open>An operation may add one entry to the history: the one that a leader creates at the end of its log.\<close>

definition extends :: "history \<Rightarrow> RaftCore \<Rightarrow> RaftCore \<Rightarrow> history \<Rightarrow> bool" where
  "extends H s s' H' \<longleftrightarrow>
     H' = H \<or>
     state s' = Leader \<and> lli s' = lli s + 1 \<and>
     (\<exists>e t. le_term e = current_term s' \<and> H' = insert (lli s + 1, e, t) H)"

definition path_effect :: "history \<Rightarrow> RaftCore \<Rightarrow> Action list \<Rightarrow> RaftCore \<Rightarrow> bool" where
  "path_effect H s as s' \<longleftrightarrow>
     (\<exists>H'. extends H s s' H' \<and> node_path H' s' \<and> list_all (action_path H') as) \<and> disk_either s as s'"

lemma path_effect_same:
  assumes "node_path H s" and "log s' = log s" and "base s' = base s"
    and "list_all (action_path H) as" and "list_all (\<lambda>a. \<not> touches_log a) as"
  shows "path_effect H s as s'"
proof -
  have "node_path H s'" using assms(1-3) node_path_cong [of s' s] by (simp add: base_def)
  with assms show ?thesis
    unfolding path_effect_def extends_def by (blast intro: disk_either_untouched)
qed

text \<open>A leader appends an entry, persists it and sends requests.\<close>

lemma path_effect_create:
  assumes "node_path H s" and "log s' = log s @ [e]" and "base s' = base s" and "state s' = Leader"
    and "le_term e = current_term s'" and "append_entries s' = Some msgs"
  shows "path_effect H s (PersistLogEntries (lli s + 1) [e] # msgs) s'"
proof -
  let ?t = "end_term (last_included_term s) (log s)"
  let ?H = "insert (lli s + 1, e, ?t) H"
  have l: "lli s' = lli s + 1" using assms(2,3) by (simp add: lli_def base_def)
  have "path ?H (last_included_index s) (last_included_term s) (log s)"
    using assms(1) by (auto simp: node_path_def intro: path_mono)
  then have n: "node_path ?H s'" using assms(1-3) by (simp add: node_path_def base_def lli_def)
  from append_entries_path [OF assms(6) n] have "list_all (action_path ?H) (PersistLogEntries (lli s + 1) [e] # msgs)"
    by simp
  moreover have "extends H s s' ?H" unfolding extends_def using assms(4,5) l by blast
  moreover have "map snd (disk_step (PersistLogEntries (lli s + 1) [e]) (log_frames s)) = log s'"
    using disk_step_tail [of s "lli s" s'] assms(2,3) l by (simp add: lli_def base_def)
  then have "disk_either s ([] @ PersistLogEntries (lli s + 1) [e] # msgs) s'"
    using assms(3) append_entries_untouched [OF assms(6)] by (intro disk_either_one) simp_all
  ultimately show ?thesis using n unfolding path_effect_def by auto
qed

text \<open>The check of the term of a message comes first and leaves the log alone.\<close>

lemma check_msg_term_path:
  assumes "check_msg_term rng t s = Some (pa, s1)" and "node_path H s"
  shows "node_path H s1" and "log s1 = log s" and "base s1 = base s" and "lli s1 = lli s"
    and "list_all (action_path H) (opt_list pa)" and "list_all (\<lambda>a. \<not> touches_log a) (opt_list pa)"
  using check_msg_term_Some [OF assms(1)] assms(2) node_path_cong [of s1 s]
  by (auto simp: base_def lli_def opt_list_def)

lemma disk_either_after:
  assumes "list_all (\<lambda>a. \<not> touches_log a) xs" and "log s1 = log s" and "base s1 = base s"
    and "disk_either s1 as s'"
  shows "disk_either s (xs @ as) s'"
proof -
  have x: "list_all (\<lambda>a. \<not> touches_log a) (take k xs)" for k
    using assms(1) by (auto simp: list_all_iff dest: in_set_takeD)
  have f: "log_frames s1 = log_frames s" using assms(2,3) by (simp add: log_frames_def base_def)
  show ?thesis
    using assms(4) x unfolding disk_either_def
    by (simp add: disk_replay_untouched snap_replay_untouched assms(2,3) f)
qed

lemma path_effect_after:
  assumes "check_msg_term rng t s = Some (pa, s1)" and "node_path H s" and "path_effect H s1 as s'"
  shows "path_effect H s (opt_list pa @ as) s'"
proof -
  note c = check_msg_term_path [OF assms(1,2)]
  from assms(3) obtain H' where h: "extends H s1 s' H'" "node_path H' s'" "list_all (action_path H') as"
    and d: "disk_either s1 as s'" by (auto simp: path_effect_def)
  have "extends H s s' H'" using h(1) c(4) by (simp add: extends_def)
  moreover have "list_all (action_path H') (opt_list pa)"
    using check_msg_term_Some [OF assms(1)] by (auto simp: opt_list_def)
  ultimately show ?thesis
    using h disk_either_after [OF c(6,2,3) d] unfolding path_effect_def by auto
qed

lemma path_effect_checked:
  assumes "check_msg_term rng t s = Some (pa, s1)" and "node_path H s" and "log s' = log s1"
    and "base s' = base s1" and "list_all (action_path H) as" and "list_all (\<lambda>a. \<not> touches_log a) as"
  shows "path_effect H s (opt_list pa @ as) s'"
  using check_msg_term_path(1) [OF assms(1,2)] assms(3-6)
  by (intro path_effect_after [OF assms(1,2)] path_effect_same)

section \<open>Every operation\<close>

lemma tick_path:
  assumes "tick rng s = Some (as, s')" and "node_path H s"
  shows "path_effect H s as s'"
proof -
  let ?s1 = "s\<lparr>ticks_since_last_heartbeat := ticks_since_last_heartbeat s + 1\<rparr>"
  have n: "node_path H ?s1" using assms(2) by (simp add: node_path_def)
  from tick_cases [OF assms(1)] show ?thesis
  proof (elim disjE conjE)
    assume h: "heartbeat ?s1 = Some (as, s')"
    have "list_all (action_path H) as" "list_all (\<lambda>a. \<not> touches_log a) as"
      using heartbeat_Some [OF h] append_entries_path [OF _ n] append_entries_untouched by auto
    then show ?thesis
      using heartbeat_Some [OF h] by (intro path_effect_same [OF assms(2)]) (auto simp: base_def)
  next
    assume e: "election_timeout_check rng ?s1 = Some (as, s')"
    then show ?thesis
      using election_timeout_check_Some [OF e]
      by (intro path_effect_same [OF assms(2)]) (auto simp: base_def list_all_iff)
  qed
qed

lemma propose_path:
  assumes "propose c s = Some (r, s')" and "node_path H s"
  shows "path_effect H s (opt_list r) s'"
proof (cases r)
  case None
  with assms show ?thesis
    by (auto simp: propose_def opt_bind Let_def opt_list_def split: if_splits intro!: path_effect_same)
next
  case (Some as)
  with assms(1) have p: "propose c s = Some (Some as, s')" by simp
  note r = propose_Some [OF p]
  from r(3) obtain msgs where m: "append_entries s' = Some msgs"
    and as: "as = PersistLogEntries (lli s + 1) [\<lparr>le_term = current_term s, le_command = c\<rparr>] # msgs" by blast
  show ?thesis
    unfolding Some opt_list_def option.case as
    by (rule path_effect_create [OF assms(2)]) (simp_all add: r(1,2) base_def m [unfolded r(2)])
qed

lemma vote_response_path:
  assumes "handle_request_vote_response rng r s = Some (as, s')" and "node_path H s"
  shows "path_effect H s as s'"
  using assms(1)
proof (cases rule: handle_request_vote_response_Some)
  case (ignored pa s1)
  with path_effect_checked [OF ignored(1) assms(2), of s1 "[]"] show ?thesis by simp
next
  case (counted s1)
  with assms(2) show ?thesis by (intro path_effect_same) (simp_all add: base_def)
next
  case (elected s1)
  from become_leader_Some [OF elected(6)] obtain tm msgs where m: "append_entries s' = Some msgs"
    and as: "as = PersistLogEntries (lli s1 + 1) [\<lparr>le_term = current_term s1, le_command = []\<rparr>] # msgs"
    and s': "s' = (init_peers (lli s1 + 2) (peers s1)
            (s1\<lparr>state := Leader, current_leader := Some (node_id s1),
               log := log s1 @ [\<lparr>le_term = current_term s1, le_command = []\<rparr>]\<rparr>))
          \<lparr>ticks_since_last_heartbeat := 0, election_timeout := tm\<rparr>" by blast
  have "lli s1 = lli s" by (simp add: elected(4) lli_def)
  then show ?thesis
    unfolding as using m s' elected(4)
    by (simp only:, intro path_effect_create [OF assms(2)]) (simp_all add: base_def)
qed

lemma request_vote_path:
  assumes "handle_request_vote rng r s = Some (as, s')" and "node_path H s"
  shows "path_effect H s as s'"
  using assms(1)
proof (cases rule: handle_request_vote_Some)
  case (rejected pa s1)
  show ?thesis
    unfolding rejected(3) by (rule path_effect_checked [OF rejected(1) assms(2)])
      (simp_all add: rejected(2) vote_response_def)
next
  case (granted pa s1 tm t)
  show ?thesis
    unfolding granted(7) by (rule path_effect_checked [OF granted(1) assms(2)])
      (simp_all add: granted(6) vote_response_def base_def)
qed

text \<open>The entries of a request, on a node that found it valid.  The log may start behind the request when
  that is at index 1 and the node's snapshot covers exactly that index.\<close>

lemma append_new_entries_path:
  assumes "append_new_entries req s = Some (as, s')" and "node_path H s"
    and "msg_path H (AppendEntries req)" and "ae_valid req s = Some True"
  shows "node_path H s' \<and> base s' = base s \<and> disk_either s as s'"
proof -
  let ?p = "ae_prev_log_index req" and ?t = "ae_prev_log_term req" and ?es = "ae_entries req"
  have es: "path H ?p ?t ?es" and z: "?p = 0 \<longrightarrow> ?t = 0" using assms(3) by auto
  from assms(1) have l: "append_loop (?p + 1) ?es s = Some s'"
    by (auto simp: append_new_entries_def opt_bind checked split: if_splits)
  have f: "base s' = base s" proof -
    from append_loop_frame [OF l] obtain X where "s' = s\<lparr>log := X\<rparr>" by blast
    then show ?thesis by (simp add: base_def)
  qed
  have as: "as = [] \<or> (\<exists>ys. as = [PersistLogEntries (?p + 1) ys] \<and> log_slice s' (?p + 1) (lli s' + 1) = Some ys)"
    using assms(1) l by (auto simp: append_new_entries_def opt_bind checked split: if_splits)
  show ?thesis
  proof (cases "last_included_index s \<le> ?p")
    case True
    have p: "?p \<le> lli s" "log_term_at s ?p = Some ?t"
      using assms(2,4) True z by (auto simp: ae_valid_def opt_bind checked node_path_def log_term_at_def split: if_splits)
    note r = append_loop_path [OF l assms(2) True p es]
    have "disk_either s as s'"
      using as
    proof
      assume "\<exists>ys. as = [PersistLogEntries (?p + 1) ys] \<and> log_slice s' (?p + 1) (lli s' + 1) = Some ys"
      then obtain ys where ys: "as = [PersistLogEntries (?p + 1) ys]"
        "log_slice s' (?p + 1) (lli s' + 1) = Some ys" by blast
      with r True log_slice_tail [of s' "?p + 1"] have "ys = drop (?p - last_included_index s) (log s')" by simp
      with ys(1) r f disk_step_tail [OF True, of s'] disk_either_one [of "[]" "[]"] show ?thesis by simp
    qed (simp add: disk_either_untouched)
    with r f show ?thesis by simp
  next
    case False
    have v: "?p = 0" using assms(4) False
      by (auto simp: ae_valid_def opt_bind checked log_term_at_def split: if_splits)
    have n: "node_path H s'"
    proof (cases ?es)
      case Nil
      with l assms(2) show ?thesis by simp
    next
      case (Cons e fs)
      from l [unfolded Cons v] False v have r: "append_loop (1 + 1) fs s = Some s'" "last_included_index s = 1"
        "last_included_term s = le_term e"
        by (auto simp: opt_bind checked log_term_at_def lli_def split: if_splits)
      with es Cons v append_loop_path [OF r(1) assms(2), of "le_term e"] show ?thesis
        by (simp add: lli_def log_term_at_def)
    qed
    have b: "last_included_index s' = last_included_index s" using f by (simp add: base_def)
    have t: "takeWhile (\<lambda>f. fst f \<noteq> Suc 0) (log_frames s) = log_frames s"
      using False v by (auto simp: log_frames_def takeWhile_eq_all_conv in_set_enumerate_eq)
    have "as = [] \<or> as = [PersistLogEntries 1 []]" using as False v b by auto
    moreover have "disk_either s ([] @ [PersistLogEntries 1 []]) s'"
      by (rule disk_either_one) (simp_all add: store_frames_def t)
    ultimately have "disk_either s as s'" using disk_either_untouched [of "[]"] by auto
    with n f show ?thesis by simp
  qed
qed

lemma append_entries_request_path:
  assumes "handle_append_entries rng req s = Some (as, s')" and "node_path H s"
    and "msg_path H (AppendEntries req)"
  shows "path_effect H s as s'"
  using assms(1)
proof (cases rule: handle_append_entries_Some)
  case (refused pa s1)
  show ?thesis
    unfolding refused(5) by (rule path_effect_checked [OF refused(1) assms(2)])
      (simp_all add: refused(3) append_response_def)
next
  case (conflict pa s1 tm r)
  show ?thesis
    unfolding conflict(7) by (rule path_effect_checked [OF conflict(1) assms(2)])
      (simp_all add: conflict(4) append_response_def base_def)
next
  case (accepted pa s1 tm more)
  let ?f = "following (ae_leader_id req) tm s1"
  have n: "node_path H ?f"
    using check_msg_term_path(1) [OF accepted(1) assms(2)] node_path_cong [of ?f s1] by simp
  from accept_append_entries_Some [OF accepted(5)] obtain p s2 a where
    p: "append_new_entries req ?f = Some (p, s2)"
    and a: "follower_commit (ae_leader_commit req) s2 = Some (a, s')"
    and m: "more = p @ a @ [append_response (ae_leader_id req) (success_response s' (lli s'))]" .
  note q = append_new_entries_path [OF p n assms(3) accepted(4)]
  from follower_commit_frame [OF a] obtain x y where s': "s' = s2\<lparr>commit_index := x, last_applied := y\<rparr>"
    and u: "list_all (\<lambda>a. \<not> touches_log a) a" by blast
  have l: "log s' = log s2" "base s' = base s2" "node_path H s'"
    using q node_path_cong [of s' s2] by (simp_all add: s' base_def)
  have "disk_either ?f p s'" using q l(1,2) unfolding disk_either_def by metis
  then have "disk_either ?f more s'"
    unfolding m using u by (intro disk_either_append) (simp_all add: append_response_def)
  then have d: "disk_either s1 more s'" by (simp add: disk_either_def base_def)
  have "list_all (action_path H) more"
    using m append_new_entries_frame [OF p] p a
    by (auto simp: append_new_entries_def follower_commit_def opt_bind Let_def apply_actions_def
        append_response_def list_all_iff split: if_splits)
  then have "path_effect H s1 more s'"
    using l d unfolding path_effect_def extends_def by blast
  then show ?thesis unfolding accepted(6) by (rule path_effect_after [OF accepted(1) assms(2)])
qed

lemma append_response_path:
  assumes "handle_append_entries_response rng resp s = Some (as, s')" and "node_path H s"
  shows "path_effect H s as s'"
  using assms(1)
proof (cases rule: handle_append_entries_response_Some)
  case (success pa s1 s2 a s3 r)
  from leader_commit_Some(1) [OF success(4)] obtain k where
    s3: "s3 = s2\<lparr>commit_index := k, last_applied := k\<rparr>" by blast
  obtain B where s': "s' = s3\<lparr>read_barriers := B\<rparr>" using release_barriers_Some(1) [OF success(5)] by blast
  have "list_all (action_path H) a"
    using success(4) by (auto simp: leader_commit_def opt_bind Let_def apply_actions_def list_all_iff)
  moreover have "list_all (action_path H) r" "list_all (\<lambda>a. \<not> touches_log a) r"
    using release_barriers_Some(2) [OF success(5)] by (auto simp: list_all_iff)
  ultimately show ?thesis
    unfolding success(6)
    using record_success_Some [OF success(3)] leader_commit_Some(3) [OF success(4)]
    by (intro path_effect_checked [OF success(1) assms(2)]) (simp_all add: s' s3 base_def)
next
  case (failure pa s1 m)
  have n: "node_path H s'"
    using check_msg_term_path(1) [OF failure(1) assms(2)] node_path_cong [of s' s1] failure(3)
    by (simp add: record_failure_def)
  show ?thesis
    unfolding failure(5)
    using build_append_entries_path [OF failure(4) n] build_append_entries_quiet [OF failure(4)] failure(3)
    by (intro path_effect_checked [OF failure(1) assms(2)]) (simp_all add: record_failure_def base_def)
qed

lemma install_snapshot_path:
  assumes "handle_install_snapshot rng req s = Some (as, s')" and "node_path H s"
  shows "path_effect H s as s'"
  using assms(1)
proof (cases rule: handle_install_snapshot_Some)
  case (stale pa s1)
  show ?thesis
    unfolding stale(4) by (rule path_effect_checked [OF stale(1) assms(2)])
      (simp_all add: stale(3) snapshot_response_def)
next
  case (known pa s1 st tm i)
  show ?thesis
    unfolding known(7) by (rule path_effect_checked [OF known(1) assms(2)])
      (simp_all add: known(5) snapshot_response_def base_def)
next
  case (replaced pa s1 st tm)
  have l: "log s' = []" "base s' = (is_last_included_index req, is_last_included_term req)"
    "last_included_index s' = is_last_included_index req"
    by (simp_all add: replaced(7) installed_def base_def)
  then have "node_path H s'" using replaced(5) by (simp add: node_path_def)
  moreover have "disk_either s1 ([] @ InstallSnapshot (is_last_included_index req) (is_last_included_term req)
      (is_data req) # [snapshot_response s' (is_leader_id req) (is_last_included_index req)]) s'"
    by (rule disk_either_one) (simp_all add: l snapshot_response_def)
  ultimately have "path_effect H s1 [InstallSnapshot (is_last_included_index req) (is_last_included_term req)
      (is_data req), snapshot_response s' (is_leader_id req) (is_last_included_index req)] s'"
    unfolding path_effect_def extends_def by (auto simp: snapshot_response_def)
  then show ?thesis unfolding replaced(8) by (rule path_effect_after [OF replaced(1) assms(2)])
qed

lemma install_snapshot_response_path:
  assumes "handle_install_snapshot_response rng resp s = Some (as, s')" and "node_path H s"
  shows "path_effect H s as s'"
  using assms(1)
proof (cases rule: handle_install_snapshot_response_Some)
  case (1 pa s1)
  with path_effect_checked [OF 1(1) assms(2), of s' "[]"] show ?thesis by (auto simp: base_def)
qed

lemma complete_snapshot_path:
  assumes "prepare_snapshot s = Some m" and "complete_snapshot m s = Some s'" and "node_path H s"
  shows "node_path H s'"
  using complete_snapshot_Some [OF assms(2)]
proof (elim disjE conjE)
  let ?n = "sm_last_applied m"
  assume n: "last_included_index s < ?n" "?n \<le> lli s"
    and s': "s' = s\<lparr>log := drop (?n - last_included_index s) (log s), last_included_index := ?n,
      last_included_term := sm_last_applied_term m\<rparr>"
  have "log_term_at s ?n = Some (sm_last_applied_term m)"
    using assms(1) by (auto simp: prepare_snapshot_def opt_bind)
  then have "end_term (last_included_term s) (take (?n - last_included_index s) (log s)) = sm_last_applied_term m"
    using log_term_end [of s ?n] n by simp
  moreover have "path H ?n (end_term (last_included_term s) (take (?n - last_included_index s) (log s)))
      (drop (?n - last_included_index s) (log s))"
    using path_drop [of H "last_included_index s" "last_included_term s" "log s" "?n - last_included_index s"]
      assms(3) n by (simp add: node_path_def lli_def)
  ultimately show ?thesis using n by (simp add: s' node_path_def)
qed (simp add: assms(3))

text \<open>The effect of every step of the core.\<close>

lemma core_step_path:
  assumes "core_step rng i s = Some (as, s')" and "node_path H s"
    and "\<And>m. i = Receive m \<Longrightarrow> msg_path H m"
  shows "path_effect H s as s'"
proof (cases i)
  case Tick
  with assms show ?thesis by (simp add: tick_path)
next
  case (Propose c)
  with assms(1) obtain r where "propose c s = Some (r, s')" "as = opt_list r" by (auto simp: opt_bind)
  with assms(2) show ?thesis by (simp add: propose_path)
next
  case (Receive m)
  with assms have "dispatch_message rng m s = Some (as, s')" "msg_path H m" by simp_all
  with assms(2) show ?thesis
    by (cases m) (simp_all add: dispatch_message_def request_vote_path vote_response_path
        append_entries_request_path append_response_path install_snapshot_path install_snapshot_response_path)
next
  case ReadBarrier
  with assms(1) obtain r where r: "request_read_barrier s = Some (r, s')" "as = []" by (auto simp: opt_bind)
  with request_read_barrier_Some [OF r(1)] assms(2) show ?thesis
    by (intro path_effect_same) (auto simp: base_def)
next
  case TakeSnapshot
  with assms(1) obtain m where "prepare_snapshot s = Some m" "complete_snapshot m s = Some s'" "as = []"
    by (auto simp: opt_bind)
  with complete_snapshot_path assms(2) show ?thesis
    unfolding path_effect_def extends_def by (auto intro: disk_either_untouched)
qed

end
