(* ===== verification/LogMatching.thy ===== *)
theory LogMatching
  imports Cluster LogPaths
begin

text \<open>
  The log matching property of the cluster of \<open>Cluster\<close>: two logs that hold an entry of the same index
  and term agree up to that entry.  The history of \<open>LogPaths\<close> is not part of the state; the invariant
  says that one exists.
\<close>

section \<open>Runs in which the disk follows the core\<close>

text \<open>No second leader sends a leader a snapshot in its own term, and a node that crashes comes back with
  the log and the snapshot position that the actions carried out before the crash have persisted.\<close>

definition rival_free :: "NodeId \<Rightarrow> input \<Rightarrow> cluster \<Rightarrow> bool" where
  "rival_free n i c \<longleftrightarrow> (case i of Receive m \<Rightarrow> no_rival m (cores c n) | _ \<Rightarrow> True)"

fun restores :: "event \<Rightarrow> cluster \<Rightarrow> bool" where
  "restores (Run n rng i d) c \<longleftrightarrow> rival_free n i c"
| "restores (Crash n rng i d k es lii lit) c \<longleftrightarrow>
     rival_free n i c \<and>
     (case core_step rng i (cores c n) of
        None \<Rightarrow> True
      | Some (as, _) \<Rightarrow>
          es = map snd (disk_replay (take k as) (log_frames (cores c n))) \<and>
          (lii, lit) = snap_replay (take k as) (base (cores c n)))"

inductive durable_reachable :: "NodeId list \<Rightarrow> cluster \<Rightarrow> bool" for members where
  start: "fresh_cluster members c \<Longrightarrow> durable_reachable members c"
| step: "durable_reachable members c \<Longrightarrow> timely e c \<Longrightarrow> restores e c \<Longrightarrow>
         cluster_exec members e c = Some c' \<Longrightarrow> durable_reachable members c'"

lemma durable_reachable_reachable: "durable_reachable members c \<Longrightarrow> reachable members c"
  by (induction rule: durable_reachable.induct) (auto intro: reachable.intros)

section \<open>The invariant\<close>

definition history_inv :: "NodeId list \<Rightarrow> cluster \<Rightarrow> history \<Rightarrow> bool" where
  "history_inv members c H \<longleftrightarrow>
     unique_history H \<and>
     (\<forall>n\<in>set members. node_path H (cores c n)) \<and>
     (\<forall>x\<in>set (sent c). msg_path H (snd x)) \<and>
     (\<forall>i e t. (i, e, t) \<in> H \<longrightarrow> (\<exists>n. (le_term e, n) \<in> led c)) \<and>
     (\<forall>n\<in>set members. state (cores c n) = Leader \<longrightarrow>
        (\<forall>i e t. (i, e, t) \<in> H \<longrightarrow> le_term e = current_term (cores c n) \<longrightarrow> i \<le> lli (cores c n)))"

definition led_inv :: "NodeId list \<Rightarrow> cluster \<Rightarrow> bool" where
  "led_inv members c \<longleftrightarrow>
     (\<forall>n\<in>set members. (\<forall>t. (t, n) \<in> led c \<longrightarrow> t \<le> current_term (cores c n)) \<and>
        (state (cores c n) = Candidate \<longrightarrow> (current_term (cores c n), n) \<notin> led c))"

lemma history_invD:
  assumes "history_inv members c H"
  shows "unique_history H" and "n \<in> set members \<Longrightarrow> node_path H (cores c n)"
    and "x \<in> set (sent c) \<Longrightarrow> msg_path H (snd x)"
    and "(i, e, t) \<in> H \<Longrightarrow> \<exists>n. (le_term e, n) \<in> led c"
    and "n \<in> set members \<Longrightarrow> state (cores c n) = Leader \<Longrightarrow> (i, e, t) \<in> H \<Longrightarrow>
      le_term e = current_term (cores c n) \<Longrightarrow> i \<le> lli (cores c n)"
  using assms unfolding history_inv_def by blast+

text \<open>The messages of a node's actions.\<close>

lemma outgoing_path:
  assumes "list_all (action_path H) as" and "x \<in> set (concat (map (outgoing n d) as))"
  shows "msg_path H (snd x)"
proof -
  from assms(2) obtain a where a: "a \<in> set as" "x \<in> set (outgoing n d a)" by auto
  with assms(1) have "action_path H a" by (simp add: list_all_iff)
  with a(2) show ?thesis by (cases a) auto
qed

text \<open>A leader that stays leader keeps its term and does not shorten its log.\<close>

lemma core_step_leader_log:
  assumes "core_step rng i s = Some (as, s')" and "state s = Leader" and "state s' = Leader"
    and "\<And>m. i = Receive m \<Longrightarrow> no_rival m s" and "self_vote s"
  shows "lli s \<le> lli s' \<and> current_term s' = current_term s"
proof -
  have t: "current_term s' = current_term s"
    using core_step_role [OF assms(1,5)] assms(3) by (auto simp: role_step_def)
  have "lli s \<le> lli s'"
  proof (cases i)
    case Tick
    with assms(1,2) tick_cases [of rng s as s'] show ?thesis by (auto dest!: heartbeat_Some simp: lli_def)
  next
    case (Propose c)
    with assms(1) obtain r where r: "propose c s = Some (r, s')" by (auto simp: opt_bind)
    then show ?thesis
    proof (cases r)
      case None
      with r assms(2) show ?thesis by (auto simp: propose_def opt_bind Let_def)
    next
      case (Some as)
      with propose_Some(2) [of c s as s'] r show ?thesis by (simp add: lli_def)
    qed
  next
    case (Receive m)
    with assms dispatch_leader_log [of rng m s as s'] show ?thesis by simp
  next
    case ReadBarrier
    with assms(1) show ?thesis by (auto simp: opt_bind lli_def dest!: request_read_barrier_Some)
  next
    case TakeSnapshot
    with assms(1) obtain m where "complete_snapshot m s = Some s'" by (auto simp: opt_bind)
    from complete_snapshot_Some [OF this] show ?thesis by (auto simp: lli_def)
  qed
  with t show ?thesis by simp
qed

section \<open>One step\<close>

text \<open>A node \<open>n\<close> makes a step from \<open>s\<close> to \<open>s'\<close> and is left in state \<open>x\<close>: \<open>s'\<close>, or a follower that restored
  its disk in the middle of the step.\<close>

definition node_step :: "NodeId list \<Rightarrow> cluster \<Rightarrow> NodeId \<Rightarrow> RaftCore \<Rightarrow> Action list \<Rightarrow> RaftCore \<Rightarrow> cluster \<Rightarrow> bool" where
  "node_step members c n s' as x c' \<longleftrightarrow>
     n \<in> set members \<and> cores c' = (cores c)(n := x) \<and>
     led c' = led c \<union> (if state s' = Leader then {(current_term s', n)} else {}) \<and>
     (\<forall>y\<in>set (sent c'). y \<in> set (sent c) \<or> (\<exists>d. y \<in> set (concat (map (outgoing n d) as)))) \<and>
     (x = s' \<or> state x = Follower \<and> (log x, base x) \<in> {(log (cores c n), base (cores c n)), (log s', base s')}) \<and>
     current_term (cores c n) \<le> current_term x"

text \<open>What the other components of the invariant say about the step.\<close>

definition sound_step :: "NodeId list \<Rightarrow> cluster \<Rightarrow> NodeId \<Rightarrow> rng \<Rightarrow> input \<Rightarrow> Action list \<Rightarrow> RaftCore \<Rightarrow> cluster \<Rightarrow> bool" where
  "sound_step members c n rng i as s' c' \<longleftrightarrow>
     cluster_inv members c \<and> led_inv members c \<and> available n i c \<and> rival_free n i c \<and>
     core_step rng i (cores c n) = Some (as, s') \<and>
     (\<forall>t m m'. (t, m) \<in> led c' \<longrightarrow> (t, m') \<in> led c' \<longrightarrow> m = m')"

text \<open>Before a leader creates an entry, the history has no entry of its term behind its log.\<close>

lemma leader_fresh:
  assumes "node_step members c n s' as x c'" and "sound_step members c n rng i as s' c'"
    and "history_inv members c H" and "state s' = Leader" and "(j, e, t) \<in> H" and "le_term e = current_term s'"
  shows "j \<le> lli (cores c n) \<and> lli (cores c n) \<le> lli s'"
proof -
  let ?s = "cores c n"
  have n: "n \<in> set members" and l: "(current_term s', n) \<in> led c'" "led c \<subseteq> led c'"
    using assms(1,4) by (auto simp: node_step_def)
  have st: "core_step rng i ?s = Some (as, s')" using assms(2) by (simp add: sound_step_def)
  have sv: "self_vote ?s" using assms(2) n by (auto simp: sound_step_def cluster_inv_def node_inv_def)
  show ?thesis
  proof (cases "state ?s = Leader")
    case True
    have "no_rival m ?s" if "i = Receive m" for m
      using assms(2) that by (simp add: sound_step_def rival_free_def)
    from core_step_leader_log [OF st True assms(4) this sv]
    have "lli ?s \<le> lli s'" "current_term s' = current_term ?s" by auto
    with history_invD(5) [OF assms(3) n True assms(5)] assms(6) show ?thesis by simp
  next
    case False
    with core_step_role [OF st sv] assms(4) have c: "state ?s = Candidate" "current_term s' = current_term ?s"
      by (cases "state ?s"; auto simp: role_step_def)+
    from history_invD(4) [OF assms(3,5)] assms(6) obtain m where "(current_term s', m) \<in> led c" by auto
    moreover from this l have "m = n" using assms(2) unfolding sound_step_def by blast
    ultimately have "(current_term ?s, n) \<in> led c" using c by simp
    with assms(2) n c(1) show ?thesis by (simp add: sound_step_def led_inv_def)
  qed
qed

lemma step_history:
  assumes "node_step members c n s' as x c'" and "sound_step members c n rng i as s' c'"
    and "history_inv members c H"
  shows "\<exists>H'. history_inv members c' H'"
proof -
  let ?s = "cores c n"
  have n: "n \<in> set members" and cores': "cores c' = (cores c)(n := x)"
    and led': "led c' = led c \<union> (if state s' = Leader then {(current_term s', n)} else {})"
    using assms(1) by (auto simp: node_step_def)
  have st: "core_step rng i ?s = Some (as, s')" using assms(2) by (simp add: sound_step_def)
  have "msg_path H m" if "i = Receive m" for m
  proof -
    have "(n, m) \<in> set (sent c)" using assms(2) that by (simp add: sound_step_def available_def)
    from history_invD(3) [OF assms(3) this] show ?thesis by simp
  qed
  from core_step_path [OF st history_invD(2) [OF assms(3) n] this] obtain H' where
    ext: "extends H ?s s' H'" and p': "node_path H' s'" and acts: "list_all (action_path H') as"
    unfolding path_effect_def by blast
  have sub: "H \<subseteq> H'" using ext by (auto simp: extends_def)
  note fresh = leader_fresh [OF assms]
  have new: "state s' = Leader \<and> lli s' = lli ?s + 1 \<and> j = lli ?s + 1 \<and> le_term e = current_term s' \<and>
      (\<forall>e2 t2. (j, e2, t2) \<in> H' \<longrightarrow> le_term e2 = current_term s' \<longrightarrow> e2 = e \<and> t2 = t)"
    if "(j, e, t) \<in> H'" "(j, e, t) \<notin> H" for j e t
    using ext that fresh by (fastforce simp: extends_def)
  have u: "unique_history H'"
    unfolding unique_history_def
  proof (intro allI impI)
    fix j e t e2 t2 assume a: "(j, e, t) \<in> H'" "(j, e2, t2) \<in> H'" "le_term e = le_term e2"
    show "e = e2 \<and> t = t2"
    proof (cases "(j, e, t) \<in> H \<and> (j, e2, t2) \<in> H")
      case True
      with a(3) history_invD(1) [OF assms(3)] show ?thesis unfolding unique_history_def by blast
    next
      case False
      with a new show ?thesis by metis
    qed
  qed
  have paths: "node_path H' (cores c' m)" if "m \<in> set members" for m
  proof (cases "m = n")
    case False
    with node_path_mono [OF history_invD(2) [OF assms(3) that] sub] cores' show ?thesis by simp
  next
    case True
    have "node_path H' ?s" using history_invD(2) [OF assms(3) n] sub by (rule node_path_mono)
    with p' assms(1) node_path_cong [of x ?s H'] node_path_cong [of x s' H'] True cores' show ?thesis
      by (auto simp: node_step_def base_def)
  qed
  have msgs: "msg_path H' (snd y)" if "y \<in> set (sent c')" for y
    using that assms(1) history_invD(3) [OF assms(3)] sub outgoing_path [OF acts] msg_path_mono
    unfolding node_step_def by metis
  have bylead: "\<exists>m. (le_term e, m) \<in> led c'" if "(j, e, t) \<in> H'" for j e t
  proof (cases "(j, e, t) \<in> H")
    case True
    with history_invD(4) [OF assms(3)] led' show ?thesis by blast
  next
    case False
    with new [OF that] led' show ?thesis by auto
  qed
  have bound: "j \<le> lli (cores c' m)"
    if m: "m \<in> set members" "state (cores c' m) = Leader" "(j, e, t) \<in> H'" "le_term e = current_term (cores c' m)"
    for m j e t
  proof (cases "m = n")
    case True
    then have x: "x = s'" using m(2) assms(1) cores' by (auto simp: node_step_def)
    with True cores' m(2,4) have l: "state s' = Leader" "le_term e = current_term s'" "cores c' m = s'" by auto
    show ?thesis
    proof (cases "(j, e, t) \<in> H")
      case in_H: True
      with fresh [OF l(1) _ l(2)] l(3) show ?thesis by fastforce
    next
      case out: False
      from new [OF m(3) out] l(3) show ?thesis by simp
    qed
  next
    case False
    with cores' m have old: "state (cores c m) = Leader" "le_term e = current_term (cores c m)" "cores c' m = cores c m"
      by auto
    show ?thesis
    proof (cases "(j, e, t) \<in> H")
      case True
      with history_invD(5) [OF assms(3) m(1) old(1)] old show ?thesis by simp
    next
      case out: False
      have "(current_term (cores c m), m) \<in> led c"
        using assms(2) m(1) old(1) by (auto simp: sound_step_def cluster_inv_def node_inv_def)
      moreover have "(le_term e, n) \<in> led c'" using new [OF m(3) out] led' by auto
      ultimately have "m = n" using assms(2) old(2) led' unfolding sound_step_def by (metis UnI1)
      with False show ?thesis by simp
    qed
  qed
  from u paths msgs bylead bound show ?thesis unfolding history_inv_def by blast
qed

lemma step_led:
  assumes "node_step members c n s' as x c'" and "sound_step members c n rng i as s' c'"
  shows "led_inv members c'"
proof -
  let ?s = "cores c n"
  have n: "n \<in> set members" and cores': "cores c' = (cores c)(n := x)"
    and led': "led c' = led c \<union> (if state s' = Leader then {(current_term s', n)} else {})"
    and t: "current_term ?s \<le> current_term x" and x: "x = s' \<or> state x = Follower"
    using assms(1) by (auto simp: node_step_def)
  have sv: "self_vote ?s" using assms(2) n by (auto simp: sound_step_def cluster_inv_def node_inv_def)
  have r: "role_step (votes_of i) ?s s'" using assms(2) sv core_step_role unfolding sound_step_def by blast
  have old: "u \<le> current_term ?s" if "(u, n) \<in> led c" for u
    using assms(2) n that by (auto simp: sound_step_def led_inv_def)
  have "u \<le> current_term x" if "(u, n) \<in> led c'" for u
  proof (cases "(u, n) \<in> led c")
    case True
    with old t show ?thesis by fastforce
  next
    case False
    with that led' r t show ?thesis by (auto simp: role_step_def split: if_splits)
  qed
  moreover have "(current_term x, n) \<notin> led c'" if c: "state x = Candidate"
  proof -
    from c x have s': "x = s'" by auto
    with c r consider "state ?s = Candidate" "current_term s' = current_term ?s" | "current_term s' = current_term ?s + 1"
      by (auto simp: role_step_def)
    then have "(current_term s', n) \<notin> led c"
    proof cases
      case 1
      with assms(2) n show ?thesis by (auto simp: sound_step_def led_inv_def)
    next
      case 2
      with old show ?thesis by fastforce
    qed
    with s' c led' show ?thesis by simp
  qed
  moreover have "(u, m) \<in> led c' \<longleftrightarrow> (u, m) \<in> led c" if "m \<noteq> n" for u m using led' that by auto
  ultimately show ?thesis
    using assms(2) cores' unfolding sound_step_def led_inv_def by auto
qed

section \<open>Reachable states\<close>

lemma reborn_Some:
  assumes "reborn rng members m es lii lit s = Some r"
  shows "state r = Follower" and "log r = es" and "base r = (lii, lit)" and "metadata r = m"
  using assms
  by (auto simp: reborn_def restore_with_snapshot_def restore_def new_def opt_bind base_def metadata_def)

lemma exec_history:
  assumes "reachable members c" and "led_inv members c" and "history_inv members c H"
    and "timely e c" and "restores e c" and "cluster_exec members e c = Some c'"
  shows "led_inv members c' \<and> (\<exists>H'. history_inv members c' H')"
proof -
  have ci: "cluster_inv members c" using reachable_inv [OF assms(1)] .
  have one: "\<forall>t m m'. (t, m) \<in> led c' \<longrightarrow> (t, m') \<in> led c' \<longrightarrow> m = m'"
    using one_leader_per_term reachable.step [OF assms(1,4,6)] by blast
  have "\<exists>n s' as x rng i. node_step members c n s' as x c' \<and> sound_step members c n rng i as s' c'"
  proof (cases e)
    case (Run n rng i d)
    with assms(6) obtain as s' where n: "n \<in> set members" "available n i c"
      and st: "core_step rng i (cores c n) = Some (as, s')" and c': "c' = record_node n d s' as c"
      by (auto simp: opt_bind split: if_splits)
    have "current_term (cores c n) \<le> current_term s'"
      using core_step_contract [OF st] by (auto simp: op_contract_def vote_kept_def)
    then have "node_step members c n s' as s' c'"
      using n(1) by (auto simp: node_step_def c' record_node_def)
    moreover have "sound_step members c n rng i as s' c'"
      using ci assms(2,5) n st one Run by (simp add: sound_step_def)
    ultimately show ?thesis by blast
  next
    case (Crash n rng i d k es lii lit)
    with assms(6) obtain as s' r where n: "n \<in> set members" "available n i c"
      and st: "core_step rng i (cores c n) = Some (as, s')"
      and rb: "reborn rng members (disk_meta (metadata (cores c n)) (take k as)) es lii lit (cores c n) = Some r"
      and c': "c' = record_node n d r (take k as) (mark_led n s' c)"
      by (auto simp: opt_bind Let_def split: if_splits)
    note r = reborn_Some [OF rb]
    obtain H' where "path_effect H (cores c n) as s'"
    proof (rule that, rule core_step_path [OF st history_invD(2) [OF assms(3) n(1)]])
      fix m assume "i = Receive m"
      with n(2) have "(n, m) \<in> set (sent c)" by (simp add: available_def)
      from history_invD(3) [OF assms(3) this] show "msg_path H m" by simp
    qed
    then have "disk_either (cores c n) as s'" by (simp add: path_effect_def)
    with assms(5) Crash st r have disk:
      "(log r, base r) \<in> {(log (cores c n), base (cores c n)), (log s', base s')}"
      by (simp add: disk_either_def)
    have "durable_sends (metadata s') (metadata (cores c n)) as"
      using core_step_contract [OF st] by (simp add: op_contract_def)
    from durable_sends_prefix [OF this, of k] r(4) have "meta_le (metadata (cores c n)) (metadata r)" by simp
    then have "current_term (cores c n) \<le> current_term r" by (auto simp: metadata_def)
    moreover have "y \<in> set (sent c) \<or> y \<in> set (concat (map (outgoing n d) as))" if "y \<in> set (sent c')" for y
      using that by (auto simp: c' dest: in_set_takeD)
    moreover have "led c' = led c \<union> (if state s' = Leader then {(current_term s', n)} else {})"
      using r(1) by (auto simp: c' record_node_def mark_led_def)
    ultimately have "node_step members c n s' as r c'"
      using n(1) r(1) disk unfolding node_step_def c' by (simp only: record_node_sel mark_led_sel) blast
    moreover have "sound_step members c n rng i as s' c'"
      using ci assms(2,5) n st one Crash by (simp add: sound_step_def)
    ultimately show ?thesis by blast
  qed
  with step_history [OF _ _ assms(3)] step_led show ?thesis by blast
qed

lemma fresh_history:
  assumes "fresh_cluster members c"
  shows "led_inv members c \<and> history_inv members c {}"
proof -
  have "state (cores c n) = Follower \<and> node_path {} (cores c n)" if "n \<in> set members" for n
  proof -
    from assms that obtain rng hb erange where "new rng n members hb erange = Some (cores c n)"
      by (auto simp: fresh_cluster_def)
    then show ?thesis by (simp add: new_Some node_path_def)
  qed
  with assms show ?thesis
    by (auto simp: led_inv_def history_inv_def unique_history_def fresh_cluster_def)
qed

lemma durable_reachable_history:
  "durable_reachable members c \<Longrightarrow> led_inv members c \<and> (\<exists>H. history_inv members c H)"
proof (induction rule: durable_reachable.induct)
  case (start c)
  with fresh_history show ?case by blast
next
  case (step c e c')
  with exec_history durable_reachable_reachable show ?case by blast
qed

section \<open>Log matching\<close>

text \<open>The entry of a node's log at an index, with the term before it.\<close>

lemma log_entry_history:
  assumes "node_path H s" and "log_entry_at s i = Some e"
  shows "\<exists>t. log_term_at s (i - 1) = Some t \<and> (i, e, t) \<in> H"
proof -
  have i: "last_included_index s < i" "i \<le> lli s" "e = log s ! (i - last_included_index s - 1)"
    using assms(2) by (auto simp: log_entry_at_Some)
  let ?k = "i - last_included_index s - 1"
  have "log_term_at s (i - 1) = Some (end_term (last_included_term s) (take ?k (log s)))"
    using log_term_end [of s "i - 1"] i by simp
  moreover have "(i, e, end_term (last_included_term s) (take ?k (log s))) \<in> H"
    using path_nth [of H "last_included_index s" "last_included_term s" "log s" ?k] assms(1) i
    by (simp add: node_path_def lli_def)
  ultimately show ?thesis by blast
qed

lemma paths_agree:
  assumes "unique_history H" and "node_path H s" and "node_path H s'"
    and "log_entry_at s i = Some e" and "log_entry_at s' i = Some e'" and "le_term e = le_term e'"
    and "j \<le> i" and "last_included_index s < j" and "last_included_index s' < j"
  shows "log_entry_at s j = log_entry_at s' j"
  using assms(4-9)
proof (induction "i - j" arbitrary: i e e')
  case 0
  from log_entry_history [OF assms(2) "0.prems"(1)] log_entry_history [OF assms(3) "0.prems"(2)]
    assms(1) "0.prems"(3) have "e = e'" unfolding unique_history_def by blast
  with 0 show ?case by simp
next
  case (Suc d)
  obtain t where t: "log_term_at s (i - 1) = Some t" "(i, e, t) \<in> H"
    using log_entry_history [OF assms(2) Suc.prems(1)] by blast
  obtain t' where t': "log_term_at s' (i - 1) = Some t'" "(i, e', t') \<in> H"
    using log_entry_history [OF assms(3) Suc.prems(2)] by blast
  have "t = t'" using assms(1) t(2) t'(2) Suc.prems(3) unfolding unique_history_def by blast
  moreover have b: "last_included_index s < i - 1" "last_included_index s' < i - 1" "j \<le> i - 1" "d = i - 1 - j"
    using Suc by auto
  obtain f where f: "log_entry_at s (i - 1) = Some f" "le_term f = t"
    using t(1) b(1) by (auto simp: log_term_at_def split: if_splits)
  obtain f' where f': "log_entry_at s' (i - 1) = Some f'" "le_term f' = t'"
    using t'(1) b(2) by (auto simp: log_term_at_def split: if_splits)
  ultimately show ?case using Suc.hyps(1) [OF b(4) f(1) f'(1)] f(2) f'(2) b(3) Suc.prems(5,6) by simp
qed

lemma logs_match:
  assumes "durable_reachable members c" and "n \<in> set members" and "m \<in> set members"
    and "log_entry_at (cores c n) i = Some e" and "log_entry_at (cores c m) i = Some e'"
    and "le_term e = le_term e'" and "j \<le> i"
    and "last_included_index (cores c n) < j" and "last_included_index (cores c m) < j"
  shows "log_entry_at (cores c n) j = log_entry_at (cores c m) j"
proof -
  from durable_reachable_history [OF assms(1)] obtain H where h: "history_inv members c H" by blast
  from paths_agree [OF history_invD(1) [OF h] history_invD(2) [OF h assms(2)] history_invD(2) [OF h assms(3)] assms(4-9)]
  show ?thesis .
qed

section \<open>Concrete runs\<close>

primrec durable_run :: "NodeId list \<Rightarrow> event list \<Rightarrow> cluster \<Rightarrow> bool" where
  "durable_run members [] c \<longleftrightarrow> True"
| "durable_run members (e # es) c \<longleftrightarrow>
     timely e c \<and> restores e c \<and>
     (case cluster_exec members e c of None \<Rightarrow> True | Some c' \<Rightarrow> durable_run members es c')"

lemma cluster_run_durable:
  assumes "durable_reachable members c" and "durable_run members es c" and "cluster_run members es c = Some c'"
  shows "durable_reachable members c'"
  using assms
proof (induction es arbitrary: c)
  case (Cons e es)
  then obtain d where d: "cluster_exec members e c = Some d" "cluster_run members es d = Some c'"
    by (auto simp: opt_bind)
  with Cons show ?case by (auto intro: durable_reachable.step)
qed simp

lemma demo_cluster_durable: "durable_reachable demo_members demo_cluster"
  by (rule durable_reachable.start [OF demo_cluster_fresh])

text \<open>The leader elected by \<open>orderly_run\<close> brings its first entry to node 2, which crashes and comes back
  after it has persisted the entry.\<close>

definition demo_first :: LogEntry where
  "demo_first = \<lparr> le_term = 1, le_command = [] \<rparr>"

definition demo_request_entries :: "u64 \<Rightarrow> u64 \<Rightarrow> LogEntry list \<Rightarrow> Message" where
  "demo_request_entries p t es =
     AppendEntries \<lparr> ae_term = 1, ae_leader_id = 1, ae_prev_log_index = p, ae_prev_log_term = t,
       ae_entries = es, ae_leader_commit = 0 \<rparr>"

definition demo_conflict :: Message where
  "demo_conflict =
     AppendEntriesResponse \<lparr> aer_id = 2, aer_term = 1, aer_match_index = 0, aer_success = False,
       aer_first_conflicting_index = Some 1, aer_first_conflicting_term = None \<rparr>"

definition replication_run :: "event list" where
  "replication_run = orderly_run @
     [Run 2 demo_rng (Receive (demo_request_entries 1 1 [])) [],
      Run 1 demo_rng (Receive demo_conflict) [],
      Crash 2 demo_rng (Receive (demo_request_entries 0 0 [demo_first])) [] 1 [demo_first] 0 0]"

lemmas replication_exec [exec] =
  demo_first_def demo_request_entries_def demo_conflict_def replication_run_def rival_free_def no_rival_def
  reborn_def metadata_def log_frames_def store_frames_def base_def

end
