(* ===== verification/Agreement.thy ===== *)
theory Agreement
  imports Cluster LogPaths "HOL-Library.Sublist"
begin

text \<open>
  The agreement argument of the protocol, apart from messages and machine states: for every node its term
  and its log, for every term the log of its leader, and which entries a node has held in the term of the
  entry.  The abstract steps are those a node of the cluster can make; the invariant gives that an entry
  held by a majority in its own term is in the log of every later leader.
\<close>

section \<open>The abstract state\<close>

record proto =
  p_term :: "NodeId \<Rightarrow> u64"
  p_log :: "NodeId \<Rightarrow> LogEntry list"
  p_lead :: "u64 \<Rightarrow> LogEntry list"
  p_cand :: "u64 \<Rightarrow> NodeId \<Rightarrow> LogEntry list"
  p_acks :: "(NodeId \<times> nat \<times> u64) set"
  p_votes :: "(NodeId \<times> u64 \<times> NodeId) set"
  p_led :: "(u64 \<times> NodeId) set"

text \<open>\<open>p_lead\<close>: the log of the leader of a term, as far as it has been written; \<open>p_cand\<close>: the log with which a
  node stands for election; \<open>p_acks\<close>: the node has held, in the term given, an entry of that term.\<close>

definition has :: "LogEntry list \<Rightarrow> nat \<Rightarrow> u64 \<Rightarrow> bool" where
  "has f i t \<longleftrightarrow> i < length f \<and> le_term (f ! i) = t"

definition traced :: "(u64 \<Rightarrow> LogEntry list) \<Rightarrow> LogEntry list \<Rightarrow> bool" where
  "traced L f \<longleftrightarrow> (\<forall>i t. has f i t \<longrightarrow> take (Suc i) f = take (Suc i) (L t))"

text \<open>A leader of a later term lacks the entry.\<close>

definition lacking :: "proto \<Rightarrow> u64 \<Rightarrow> nat \<Rightarrow> u64 \<Rightarrow> bool" where
  "lacking p w i t \<longleftrightarrow> (\<exists>d. (w, d) \<in> p_led p \<and> \<not> has (p_cand p w d) i t)"

definition chosen :: "NodeId set \<Rightarrow> proto \<Rightarrow> nat \<Rightarrow> u64 \<Rightarrow> bool" where
  "chosen M p i t \<longleftrightarrow> (\<exists>Q. majority_of M Q \<and> (\<forall>v\<in>Q. (v, i, t) \<in> p_acks p))"

definition up_to_date :: "LogEntry list \<Rightarrow> LogEntry list \<Rightarrow> bool" where
  "up_to_date k f \<longleftrightarrow>
     end_term 0 f < end_term 0 k \<or> end_term 0 f = end_term 0 k \<and> length f \<le> length k"

section \<open>The abstract steps\<close>

definition held :: "NodeId \<Rightarrow> u64 \<Rightarrow> LogEntry list \<Rightarrow> (NodeId \<times> nat \<times> u64) set" where
  "held n t f = {(n, i, t) | i. has f i t}"

inductive proto_step :: "NodeId set \<Rightarrow> proto \<Rightarrow> proto \<Rightarrow> bool" for M where
  prepare: "n \<in> M \<Longrightarrow> p_term p n < t \<Longrightarrow>
    proto_step M p (p\<lparr>p_cand := (p_cand p)(t := (p_cand p t)(n := p_log p n))\<rparr>)"
| advance: "n \<in> M \<Longrightarrow> p_term p n \<le> t \<Longrightarrow> proto_step M p (p\<lparr>p_term := (p_term p)(n := t)\<rparr>)"
| vote: "n \<in> M \<Longrightarrow> d \<in> M \<Longrightarrow> t = p_term p n \<Longrightarrow> t \<le> p_term p d \<Longrightarrow>
    up_to_date (p_cand p t d) (p_log p n) \<Longrightarrow>
    proto_step M p (p\<lparr>p_votes := insert (n, t, d) (p_votes p)\<rparr>)"
| elect: "d \<in> M \<Longrightarrow> t \<le> p_term p d \<Longrightarrow> \<forall>x. (t, x) \<notin> p_led p \<Longrightarrow>
    majority_of M {v. (v, t, d) \<in> p_votes p} \<Longrightarrow> le_term e = t \<Longrightarrow>
    proto_step M p (p\<lparr>p_led := insert (t, d) (p_led p), p_lead := (p_lead p)(t := p_cand p t d @ [e])\<rparr>)"
| create: "(t, d) \<in> p_led p \<Longrightarrow> le_term e = t \<Longrightarrow>
    proto_step M p (p\<lparr>p_lead := (p_lead p)(t := p_lead p t @ [e])\<rparr>)"
| store: "n \<in> M \<Longrightarrow> t = p_term p n \<Longrightarrow> (t, d) \<in> p_led p \<Longrightarrow> prefix l (p_lead p t) \<Longrightarrow>
    length (p_cand p t d) < length l \<Longrightarrow> f = (if prefix l (p_log p n) then p_log p n else l) \<Longrightarrow>
    proto_step M p (p\<lparr>p_log := (p_log p)(n := f), p_acks := p_acks p \<union> held n t f\<rparr>)"

section \<open>The invariant\<close>

definition node_ok :: "proto \<Rightarrow> NodeId \<Rightarrow> bool" where
  "node_ok p n \<longleftrightarrow>
     traced (p_lead p) (p_log p n) \<and> (\<forall>e\<in>set (p_log p n). le_term e \<le> p_term p n) \<and>
     held n (p_term p n) (p_log p n) \<subseteq> p_acks p"

definition cand_ok :: "proto \<Rightarrow> u64 \<Rightarrow> NodeId \<Rightarrow> bool" where
  "cand_ok p t d \<longleftrightarrow> traced (p_lead p) (p_cand p t d) \<and> (\<forall>e\<in>set (p_cand p t d). le_term e < t)"

definition leads :: "proto \<Rightarrow> u64 \<Rightarrow> NodeId \<Rightarrow> bool" where
  "leads p t d \<longleftrightarrow> (\<exists>ys. ys \<noteq> [] \<and> p_lead p t = p_cand p t d @ ys \<and> (\<forall>e\<in>set ys. le_term e = t))"

definition ack_ok :: "proto \<Rightarrow> NodeId \<Rightarrow> nat \<Rightarrow> u64 \<Rightarrow> bool" where
  "ack_ok p n i t \<longleftrightarrow>
     t \<le> p_term p n \<and> has (p_lead p t) i t \<and>
     (has (p_log p n) i t \<or> (\<exists>w. t < w \<and> w \<le> p_term p n \<and> lacking p w i t))"

text \<open>What a candidate \<open>d\<close> of term \<open>u\<close> has of the entries that \<open>v\<close> has held.\<close>

definition covers :: "proto \<Rightarrow> (u64 \<Rightarrow> bool) \<Rightarrow> NodeId \<Rightarrow> u64 \<Rightarrow> NodeId \<Rightarrow> bool" where
  "covers p before v u d \<longleftrightarrow>
     u \<le> p_term p v \<and>
     (\<forall>i t. (v, i, t) \<in> p_acks p \<longrightarrow> t < u \<longrightarrow>
        has (p_cand p u d) i t \<or> (\<exists>w. t < w \<and> before w \<and> lacking p w i t))"

definition proto_inv :: "NodeId set \<Rightarrow> proto \<Rightarrow> bool" where
  "proto_inv M p \<longleftrightarrow>
     (\<forall>n\<in>M. node_ok p n) \<and> (\<forall>t d. cand_ok p t d) \<and>
     (\<forall>t. p_lead p t \<noteq> [] \<longrightarrow> (\<exists>d. (t, d) \<in> p_led p)) \<and>
     (\<forall>t d. (t, d) \<in> p_led p \<longrightarrow> d \<in> M \<and> t \<le> p_term p d \<and> leads p t d \<and>
        (\<exists>Q. majority_of M Q \<and> (\<forall>v\<in>Q. covers p (\<lambda>w. w < t) v t d))) \<and>
     (\<forall>t d d'. (t, d) \<in> p_led p \<longrightarrow> (t, d') \<in> p_led p \<longrightarrow> d = d') \<and>
     (\<forall>n i t. (n, i, t) \<in> p_acks p \<longrightarrow> n \<in> M \<and> ack_ok p n i t) \<and>
     (\<forall>v u d. (v, u, d) \<in> p_votes p \<longrightarrow> v \<in> M \<and> d \<in> M \<and> u \<le> p_term p d \<and> covers p (\<lambda>w. w \<le> u) v u d)"

lemma proto_invD:
  assumes "proto_inv M p"
  shows "n \<in> M \<Longrightarrow> node_ok p n" and "cand_ok p t d"
    and "p_lead p t \<noteq> [] \<Longrightarrow> \<exists>d. (t, d) \<in> p_led p"
    and "(t, d) \<in> p_led p \<Longrightarrow> d \<in> M" and "(t, d) \<in> p_led p \<Longrightarrow> t \<le> p_term p d"
    and "(t, d) \<in> p_led p \<Longrightarrow> leads p t d"
    and "(t, d) \<in> p_led p \<Longrightarrow> \<exists>Q. majority_of M Q \<and> (\<forall>v\<in>Q. covers p (\<lambda>w. w < t) v t d)"
    and "(t, d) \<in> p_led p \<Longrightarrow> (t, d') \<in> p_led p \<Longrightarrow> d = d'"
    and "(n, i, t) \<in> p_acks p \<Longrightarrow> n \<in> M" and "(n, i, t) \<in> p_acks p \<Longrightarrow> ack_ok p n i t"
    and "(v, u, d) \<in> p_votes p \<Longrightarrow> v \<in> M \<and> d \<in> M \<and> u \<le> p_term p d \<and> covers p (\<lambda>w. w \<le> u) v u d"
  using assms unfolding proto_inv_def by blast+

section \<open>Logs\<close>

lemma has_take [simp]: "has (take k f) i t \<longleftrightarrow> i < k \<and> has f i t"
  by (auto simp: has_def)

lemma has_append: "has (f @ g) i t \<longleftrightarrow> has f i t \<or> length f \<le> i \<and> has g (i - length f) t"
  by (auto simp: has_def nth_append)

lemma has_prefix: "prefix f g \<Longrightarrow> has f i t \<Longrightarrow> has g i t"
  by (auto simp: prefix_def has_append)

lemma has_prefix_iff: "prefix f g \<Longrightarrow> i < length f \<Longrightarrow> has g i t \<longleftrightarrow> has f i t"
  by (auto simp: prefix_def has_def nth_append)

lemma has_nth: "has f i t \<Longrightarrow> \<exists>e\<in>set f. le_term e = t"
  by (auto simp: has_def)

lemma has_unique: "has f i t \<Longrightarrow> has f i t' \<Longrightarrow> t = t'"
  by (simp add: has_def)

lemma has_last: "f \<noteq> [] \<Longrightarrow> has f (length f - 1) (end_term 0 f)"
  by (simp add: has_def end_term_def last_conv_nth)

lemma has_same: "take (Suc k) f = take (Suc k) g \<Longrightarrow> i \<le> k \<Longrightarrow> has f i t \<longleftrightarrow> has g i t"
  using has_take [of "Suc k" f i t] has_take [of "Suc k" g i t] by simp

lemma tracedD: "traced L f \<Longrightarrow> has f i t \<Longrightarrow> take (Suc i) f = take (Suc i) (L t)"
  by (simp add: traced_def)

lemma traced_Nil [simp]: "traced L []"
  by (simp add: traced_def has_def)

lemma traced_prefix: "traced L g \<Longrightarrow> prefix f g \<Longrightarrow> traced L f"
  unfolding traced_def by (metis Suc_leI has_def has_prefix prefix_def take_append diff_is_0_eq' take0 append_Nil2)

lemma traced_in_lead: "traced L f \<Longrightarrow> has f i t \<Longrightarrow> has (L t) i t"
  using tracedD [of L f i t] has_same [of i f "L t" i t] by simp

lemma traced_mono:
  assumes "traced L f" and "\<And>t. prefix (L t) (L' t)"
  shows "traced L' f"
  unfolding traced_def
proof (intro allI impI)
  fix i t assume h: "has f i t"
  have "Suc i \<le> length (L t)" using traced_in_lead [OF assms(1) h] by (simp add: has_def)
  with assms(2) [of t] tracedD [OF assms(1) h] show "take (Suc i) f = take (Suc i) (L' t)"
    by (auto simp: prefix_def)
qed

lemma traced_match:
  assumes "traced L f" and "traced L g" and "has f i t" and "has g i t"
  shows "take (Suc i) f = take (Suc i) g"
  using tracedD [OF assms(1,3)] tracedD [OF assms(2,4)] by simp

lemma leads_has:
  assumes "leads p t d" and "cand_ok p t d"
  shows "has (p_lead p t) i t \<longleftrightarrow> length (p_cand p t d) \<le> i \<and> i < length (p_lead p t)"
    and "u \<noteq> t \<Longrightarrow> has (p_lead p t) i u \<longleftrightarrow> has (p_cand p t d) i u"
    and "has (p_lead p t) i u \<Longrightarrow> u \<le> t"
proof -
  from assms(1) obtain ys where ys: "p_lead p t = p_cand p t d @ ys" "\<forall>e\<in>set ys. le_term e = t"
    by (auto simp: leads_def)
  have k: "\<not> has (p_cand p t d) i t" for i using assms(2) has_nth by (fastforce simp: cand_ok_def)
  have y: "has ys j u \<Longrightarrow> u = t" "j < length ys \<Longrightarrow> has ys j t" for j u using ys(2) by (auto simp: has_def)
  show "has (p_lead p t) i t \<longleftrightarrow> length (p_cand p t d) \<le> i \<and> i < length (p_lead p t)"
    using k [of i] y(2) [of "i - length (p_cand p t d)"] unfolding ys(1) has_append by (auto simp: has_def)
  show "u \<noteq> t \<Longrightarrow> has (p_lead p t) i u \<longleftrightarrow> has (p_cand p t d) i u"
    unfolding ys(1) has_append using y(1) by blast
  show "has (p_lead p t) i u \<Longrightarrow> u \<le> t"
    unfolding ys(1) has_append using y(1) assms(2) has_nth by (fastforce simp: cand_ok_def)
qed

text \<open>An entry of a term is behind all entries that the leader of that term had when it was elected.\<close>

lemma traced_leader:
  assumes "proto_inv M p" and "traced (p_lead p) f" and "has f j s"
  shows "\<exists>d. (s, d) \<in> p_led p \<and> length (p_cand p s d) \<le> j \<and> j < length (p_lead p s)"
proof -
  have h: "has (p_lead p s) j s" using traced_in_lead [OF assms(2,3)] .
  then have "p_lead p s \<noteq> []" by (auto simp: has_def)
  from proto_invD(3) [OF assms(1) this] obtain d where d: "(s, d) \<in> p_led p" by blast
  with leads_has(1) [OF proto_invD(6,2) [OF assms(1)], OF d] h show ?thesis by blast
qed

lemma traced_through:
  assumes "proto_inv M p" and "traced (p_lead p) f" and "has f j s"
    and "(s, d) \<in> p_led p" and "has (p_cand p s d) i t"
  shows "has f i t" and "i < j"
proof -
  from traced_leader [OF assms(1-3)] proto_invD(8) [OF assms(1,4)] have j: "length (p_cand p s d) \<le> j" by blast
  with assms(5) show i: "i < j" by (simp add: has_def)
  from proto_invD(6) [OF assms(1,4)] assms(5) have "has (p_lead p s) i t"
    by (auto simp: leads_def has_append)
  with has_same [OF tracedD [OF assms(2,3)], of i t] i show "has f i t" by simp
qed

lemma traced_same_term:
  assumes "traced L f" and "has f j s" and "has (L s) i s" and "i \<le> j"
  shows "has f i s"
  using has_same [OF tracedD [OF assms(1,2)] assms(4)] assms(3) by simp

lemma traced_terms:
  assumes "proto_inv M p" and "traced (p_lead p) f" and "has f i t" and "has f j s" and "i \<le> j"
  shows "t \<le> s"
proof -
  from traced_leader [OF assms(1,2,4)] obtain d where d: "(s, d) \<in> p_led p" by blast
  have "has (p_lead p s) i t" using has_same [OF tracedD [OF assms(2,4)] assms(5)] assms(3) by simp
  with leads_has(3) [OF proto_invD(6,2) [OF assms(1)], OF d] show ?thesis by blast
qed

section \<open>A chosen entry is in the log of every later leader\<close>

lemma leader_has_chosen:
  assumes "proto_inv M p" and "chosen M p i t"
  shows "(u, d) \<in> p_led p \<Longrightarrow> t < u \<Longrightarrow> has (p_cand p u d) i t"
proof (induction u arbitrary: d rule: less_induct)
  case (less u)
  from assms(2) obtain Q where Q: "majority_of M Q" "\<forall>v\<in>Q. (v, i, t) \<in> p_acks p" by (auto simp: chosen_def)
  from proto_invD(7) [OF assms(1) less.prems(1)] obtain R where
    R: "majority_of M R" "\<forall>v\<in>R. covers p (\<lambda>w. w < u) v u d" by blast
  from majority.meet [OF Q(1) R(1)] obtain v where "v \<in> Q" "v \<in> R" by blast
  with Q(2) R(2) less.prems(2) consider "has (p_cand p u d) i t"
    | w where "t < w" "w < u" "lacking p w i t" by (fastforce simp: covers_def)
  then show ?case
  proof cases
    case 2
    with less.IH show ?thesis by (auto simp: lacking_def)
  qed
qed

lemma chosen_not_lacking:
  "proto_inv M p \<Longrightarrow> chosen M p i t \<Longrightarrow> t < w \<Longrightarrow> \<not> lacking p w i t"
  using leader_has_chosen by (auto simp: lacking_def)

lemma chosen_in_lead:
  assumes "proto_inv M p" and "chosen M p i t"
  shows "has (p_lead p t) i t"
proof -
  from assms(2) obtain v where "(v, i, t) \<in> p_acks p"
    by (force simp: chosen_def majority_of_def card_gt_0_iff)
  from proto_invD(10) [OF assms(1) this] show ?thesis by (simp add: ack_ok_def)
qed

text \<open>Of two chosen entries the later one is on top of the earlier one.\<close>

lemma chosen_below:
  assumes "proto_inv M p" and "chosen M p i t" and "chosen M p j s" and "i \<le> j"
    and "traced (p_lead p) f" and "has f j s"
  shows "has f i t"
proof (cases rule: linorder_cases [of t s])
  case less
  from traced_leader [OF assms(1,5,6)] obtain d where d: "(s, d) \<in> p_led p" by blast
  from traced_through(1) [OF assms(1,5,6) d] leader_has_chosen [OF assms(1,2) d less] show ?thesis .
next
  case equal
  with traced_same_term [OF assms(5,6) _ assms(4)] chosen_in_lead [OF assms(1,2)] show ?thesis by simp
next
  case greater
  have t: "has (p_lead p t) i t" using chosen_in_lead [OF assms(1,2)] .
  then have "p_lead p t \<noteq> []" by (auto simp: has_def)
  with proto_invD(3) [OF assms(1)] obtain d where d: "(t, d) \<in> p_led p" by blast
  from leader_has_chosen [OF assms(1,3) d greater] have "j < length (p_cand p t d)" by (simp add: has_def)
  with leads_has(1) [OF proto_invD(6,2) [OF assms(1)], OF d] t assms(4) show ?thesis by auto
qed

section \<open>The steps keep the invariant\<close>

definition evolves :: "proto \<Rightarrow> proto \<Rightarrow> bool" where
  "evolves p p' \<longleftrightarrow>
     (\<forall>t. prefix (p_lead p t) (p_lead p' t)) \<and> (\<forall>n. p_term p n \<le> p_term p' n) \<and>
     (\<forall>u d. u \<le> p_term p d \<longrightarrow> p_cand p' u d = p_cand p u d) \<and>
     p_acks p \<subseteq> p_acks p' \<and> p_votes p \<subseteq> p_votes p' \<and> p_led p \<subseteq> p_led p' \<and>
     (\<forall>v i t. (v, i, t) \<in> p_acks p' \<longrightarrow> (v, i, t) \<in> p_acks p \<or> p_term p v \<le> t)"

lemma evolvesD:
  assumes "evolves p p'"
  shows "prefix (p_lead p t) (p_lead p' t)" and "p_term p n \<le> p_term p' n"
    and "u \<le> p_term p d \<Longrightarrow> p_cand p' u d = p_cand p u d"
    and "x \<in> p_acks p \<Longrightarrow> x \<in> p_acks p'" and "(w, d) \<in> p_led p \<Longrightarrow> (w, d) \<in> p_led p'"
    and "(v, i, t) \<in> p_acks p' \<Longrightarrow> (v, i, t) \<in> p_acks p \<or> p_term p v \<le> t"
  using assms unfolding evolves_def by blast+

lemma lacking_mono:
  assumes "proto_inv M p" and "evolves p p'" and "lacking p w i t"
  shows "lacking p' w i t"
proof -
  from assms(3) obtain d where d: "(w, d) \<in> p_led p" "\<not> has (p_cand p w d) i t" by (auto simp: lacking_def)
  with evolvesD(3) [OF assms(2) proto_invD(5) [OF assms(1) d(1)]] evolvesD(5) [OF assms(2)] show ?thesis
    unfolding lacking_def by metis
qed

lemma covers_mono:
  assumes "proto_inv M p" and "evolves p p'" and "covers p b v u d" and "u \<le> p_term p d"
  shows "covers p' b v u d"
proof -
  have u: "u \<le> p_term p v" using assms(3) by (simp add: covers_def)
  have c: "p_cand p' u d = p_cand p u d" using evolvesD(3) [OF assms(2,4)] .
  have "has (p_cand p' u d) i t \<or> (\<exists>w. t < w \<and> b w \<and> lacking p' w i t)"
    if a: "(v, i, t) \<in> p_acks p'" "t < u" for i t
  proof -
    from evolvesD(6) [OF assms(2) a(1)] a(2) u have "(v, i, t) \<in> p_acks p" by auto
    with assms(3) a(2) lacking_mono [OF assms(1,2)] c show ?thesis unfolding covers_def by metis
  qed
  with u evolvesD(2) [OF assms(2)] show ?thesis unfolding covers_def by (meson le_trans)
qed

lemma chosen_mono: "evolves p p' \<Longrightarrow> chosen M p i t \<Longrightarrow> chosen M p' i t"
  using evolvesD(4) unfolding chosen_def by blast

lemma ack_ok_mono:
  assumes "proto_inv M p" and "evolves p p'" and "ack_ok p n i t" and "p_log p' n = p_log p n"
  shows "ack_ok p' n i t"
proof -
  have "t \<le> p_term p' n" "has (p_lead p' t) i t"
    using assms(3) evolvesD(1,2) [OF assms(2)] has_prefix unfolding ack_ok_def by (blast intro: le_trans)+
  moreover have "w \<le> p_term p' n" if "w \<le> p_term p n" for w using that evolvesD(2) [OF assms(2)] le_trans by blast
  ultimately show ?thesis
    using assms(3,4) lacking_mono [OF assms(1,2)] unfolding ack_ok_def by metis
qed

lemma proto_inv_evolves:
  assumes "proto_inv M p" and "evolves p p'"
    and "\<And>n. n \<in> M \<Longrightarrow> node_ok p' n" and "\<And>t d. cand_ok p' t d"
    and "\<And>t. p_lead p' t \<noteq> [] \<Longrightarrow> \<exists>d. (t, d) \<in> p_led p'" and "\<And>t d. (t, d) \<in> p_led p' \<Longrightarrow> leads p' t d"
    and "\<And>t d. (t, d) \<in> p_led p' \<Longrightarrow> (t, d) \<notin> p_led p \<Longrightarrow> d \<in> M \<and> t \<le> p_term p' d \<and>
        (\<forall>x. (t, x) \<in> p_led p' \<longrightarrow> x = d) \<and>
        (\<exists>Q. majority_of M Q \<and> (\<forall>v\<in>Q. covers p' (\<lambda>w. w < t) v t d))"
    and "\<And>n i t. (n, i, t) \<in> p_acks p' \<Longrightarrow> n \<in> M \<and> ack_ok p' n i t"
    and "\<And>v u d. (v, u, d) \<in> p_votes p' \<Longrightarrow> (v, u, d) \<notin> p_votes p \<Longrightarrow>
        v \<in> M \<and> d \<in> M \<and> u \<le> p_term p' d \<and> covers p' (\<lambda>w. w \<le> u) v u d"
  shows "proto_inv M p'"
proof -
  have lead: "d \<in> M \<and> t \<le> p_term p' d \<and> (\<exists>Q. majority_of M Q \<and> (\<forall>v\<in>Q. covers p' (\<lambda>w. w < t) v t d))"
    if "(t, d) \<in> p_led p'" for t d
  proof (cases "(t, d) \<in> p_led p")
    case True
    note d = proto_invD(4,5,7) [OF assms(1) True]
    have "t \<le> p_term p' d" using d(2) evolvesD(2) [OF assms(2)] le_trans by blast
    with d covers_mono [OF assms(1,2) _ d(2)] show ?thesis by blast
  next
    case False
    with assms(7) [OF that] show ?thesis by blast
  qed
  have one: "d = d'" if "(t, d) \<in> p_led p'" "(t, d') \<in> p_led p'" for t d d'
    using that assms(7) proto_invD(8) [OF assms(1)] by metis
  have votes: "v \<in> M \<and> d \<in> M \<and> u \<le> p_term p' d \<and> covers p' (\<lambda>w. w \<le> u) v u d"
    if "(v, u, d) \<in> p_votes p'" for v u d
  proof (cases "(v, u, d) \<in> p_votes p")
    case True
    note d = proto_invD(11) [OF assms(1) True]
    have "u \<le> p_term p' d" using d evolvesD(2) [OF assms(2)] le_trans by blast
    with d covers_mono [OF assms(1,2)] show ?thesis by blast
  next
    case False
    with assms(9) [OF that] show ?thesis by blast
  qed
  from assms(3-6,8) lead one votes show ?thesis unfolding proto_inv_def by blast
qed

text \<open>What a vote promises: the candidate has everything the voter has held, or an earlier leader lacked it.\<close>

lemma up_to_date_has:
  assumes "proto_inv M p" and "traced (p_lead p) k" and "traced (p_lead p) f" and "up_to_date k f"
    and "has f i t"
  shows "has k i t \<or> (\<exists>w. t < w \<and> lacking p w i t \<and> w = end_term 0 k \<and> k \<noteq> [])"
proof -
  have f: "f \<noteq> []" using assms(5) by (auto simp: has_def)
  have i: "i \<le> length f - 1" using assms(5) by (auto simp: has_def)
  have t: "t \<le> end_term 0 f" using traced_terms [OF assms(1,3,5) has_last [OF f] i] .
  show ?thesis
  proof (cases "end_term 0 f < end_term 0 k")
    case True
    then have k: "k \<noteq> []" by auto
    from traced_leader [OF assms(1,2) has_last [OF k]] obtain d where
      d: "(end_term 0 k, d) \<in> p_led p" by blast
    show ?thesis
    proof (cases "has (p_cand p (end_term 0 k) d) i t")
      case True
      with traced_through(1) [OF assms(1,2) has_last [OF k] d] show ?thesis by blast
    next
      case no: False
      with d k True t show ?thesis by (force simp: lacking_def)
    qed
  next
    case False
    with assms(4) have e: "end_term 0 f = end_term 0 k" and l: "length f \<le> length k"
      by (auto simp: up_to_date_def)
    with f have k: "k \<noteq> []" by auto
    have "has (p_lead p (end_term 0 k)) (length f - 1) (end_term 0 k)"
      using traced_in_lead [OF assms(3) has_last [OF f]] e by simp
    then have "has k (length f - 1) (end_term 0 k)"
      using traced_same_term [OF assms(2) has_last [OF k]] l by simp
    from traced_match [OF assms(3,2) has_last [OF f, unfolded e] this] has_same [OF _ i] assms(5) show ?thesis by blast
  qed
qed

lemma prepare_inv:
  assumes "proto_inv M p" and "n \<in> M" and "p_term p n < t"
    and "p' = p\<lparr>p_cand := (p_cand p)(t := (p_cand p t)(n := p_log p n))\<rparr>"
  shows "evolves p p' \<and> proto_inv M p'"
proof -
  have e: "evolves p p'" using assms(3,4) by (auto simp: evolves_def)
  have same: "p_cand p' u d = p_cand p u d" if "u \<le> p_term p d" for u d using evolvesD(3) [OF e that] .
  have node: "node_ok p n" using proto_invD(1) [OF assms(1,2)] .
  have "proto_inv M p'"
  proof (rule proto_inv_evolves [OF assms(1) e])
    show "node_ok p' m" if "m \<in> M" for m using proto_invD(1) [OF assms(1) that] by (simp add: node_ok_def assms(4))
    show "cand_ok p' u d" for u d
      using proto_invD(2) [OF assms(1), of u d] node assms(3) by (fastforce simp: cand_ok_def node_ok_def assms(4))
    show "leads p' u d" if "(u, d) \<in> p_led p'" for u d
    proof -
      from that have "(u, d) \<in> p_led p" by (simp add: assms(4))
      from proto_invD(6) [OF assms(1) this] same [OF proto_invD(5) [OF assms(1) this]] show ?thesis
        unfolding leads_def by (simp add: assms(4))
    qed
    show "m \<in> M \<and> ack_ok p' m i u" if "(m, i, u) \<in> p_acks p'" for m i u
      using that ack_ok_mono [OF assms(1) e proto_invD(10) [OF assms(1)]] proto_invD(9) [OF assms(1)]
      by (simp add: assms(4))
  qed (use proto_invD(3) [OF assms(1)] in \<open>auto simp: assms(4)\<close>)
  with e show ?thesis ..
qed

lemma advance_inv:
  assumes "proto_inv M p" and "n \<in> M" and "p_term p n \<le> t" and "p' = p\<lparr>p_term := (p_term p)(n := t)\<rparr>"
  shows "evolves p p' \<and> proto_inv M p'"
proof -
  have e: "evolves p p'" using assms(3,4) by (auto simp: evolves_def)
  have "proto_inv M p'"
  proof (rule proto_inv_evolves [OF assms(1) e])
    fix m assume m: "m \<in> M"
    note o = proto_invD(1) [OF assms(1) m]
    have "held n t (p_log p n) \<subseteq> held n (p_term p n) (p_log p n)" if "m = n"
    proof -
      have "u \<le> p_term p n" if "has (p_log p n) i u" for i u
        using o \<open>m = n\<close> has_nth [OF that] by (auto simp: node_ok_def)
      with assms(3) show ?thesis by (fastforce simp: held_def)
    qed
    with o assms(3) show "node_ok p' m" by (fastforce simp: node_ok_def assms(4))
  next
    show "m \<in> M \<and> ack_ok p' m i u" if "(m, i, u) \<in> p_acks p'" for m i u
      using that ack_ok_mono [OF assms(1) e proto_invD(10) [OF assms(1)]] proto_invD(9) [OF assms(1)]
      by (simp add: assms(4))
  qed (use proto_invD(2,3,6) [OF assms(1)] in \<open>auto simp: assms(4) cand_ok_def leads_def\<close>)
  with e show ?thesis ..
qed

lemma vote_inv:
  assumes "proto_inv M p" and "n \<in> M" and "d \<in> M" and "t = p_term p n" and "t \<le> p_term p d"
    and "up_to_date (p_cand p t d) (p_log p n)" and "p' = p\<lparr>p_votes := insert (n, t, d) (p_votes p)\<rparr>"
  shows "evolves p p' \<and> proto_inv M p'"
proof -
  have e: "evolves p p'" by (auto simp: evolves_def assms(7))
  have tr: "traced (p_lead p) (p_log p n)" using proto_invD(1) [OF assms(1,2)] by (simp add: node_ok_def)
  have k: "cand_ok p t d" using proto_invD(2) [OF assms(1)] .
  have "has (p_cand p t d) i u \<or> (\<exists>w. u < w \<and> w \<le> t \<and> lacking p w i u)"
    if a: "(n, i, u) \<in> p_acks p" "u < t" for i u
  proof (cases "has (p_log p n) i u")
    case True
    have "w < t" if "w = end_term 0 (p_cand p t d)" "p_cand p t d \<noteq> []" for w
      using k that by (auto simp: cand_ok_def end_term_def)
    with up_to_date_has [OF assms(1) _ tr assms(6) True] k show ?thesis
      by (auto simp: cand_ok_def intro: less_imp_le)
  next
    case False
    with proto_invD(10) [OF assms(1) a(1)] assms(4) show ?thesis by (auto simp: ack_ok_def)
  qed
  then have c: "covers p (\<lambda>w. w \<le> t) n t d" using assms(4) by (auto simp: covers_def)
  have "proto_inv M p'"
  proof (rule proto_inv_evolves [OF assms(1) e])
    show "m \<in> M \<and> ack_ok p' m i u" if "(m, i, u) \<in> p_acks p'" for m i u
      using that ack_ok_mono [OF assms(1) e proto_invD(10) [OF assms(1)]] proto_invD(9) [OF assms(1)]
      by (simp add: assms(7))
    show "v \<in> M \<and> x \<in> M \<and> u \<le> p_term p' x \<and> covers p' (\<lambda>w. w \<le> u) v u x"
      if "(v, u, x) \<in> p_votes p'" "(v, u, x) \<notin> p_votes p" for v u x
      using that assms(2,3,5) covers_mono [OF assms(1) e c assms(5)] by (simp add: assms(7))
  qed (use proto_invD(1,2,3,6) [OF assms(1)] in \<open>auto simp: assms(7) node_ok_def cand_ok_def leads_def\<close>)
  with e show ?thesis ..
qed

lemma longer_leads_inv:
  assumes "proto_inv M p" and "evolves p p'"
    and "p_term p' = p_term p" and "p_log p' = p_log p" and "p_acks p' = p_acks p" and "p_cand p' = p_cand p"
    and "p_votes p' = p_votes p"
    and "\<And>u. p_lead p' u \<noteq> [] \<Longrightarrow> \<exists>d. (u, d) \<in> p_led p'" and "\<And>u d. (u, d) \<in> p_led p' \<Longrightarrow> leads p' u d"
    and "\<And>t d. (t, d) \<in> p_led p' \<Longrightarrow> (t, d) \<notin> p_led p \<Longrightarrow> d \<in> M \<and> t \<le> p_term p' d \<and>
        (\<forall>x. (t, x) \<in> p_led p' \<longrightarrow> x = d) \<and>
        (\<exists>Q. majority_of M Q \<and> (\<forall>v\<in>Q. covers p' (\<lambda>w. w < t) v t d))"
  shows "proto_inv M p'"
proof (rule proto_inv_evolves [OF assms(1,2) _ _ assms(8-10)])
  show "node_ok p' n" if "n \<in> M" for n
    using proto_invD(1) [OF assms(1) that] traced_mono evolvesD(1) [OF assms(2)] assms(3-5)
    unfolding node_ok_def by metis
  show "cand_ok p' u d" for u d
    using proto_invD(2) [OF assms(1), of u d] traced_mono evolvesD(1) [OF assms(2)] assms(6)
    unfolding cand_ok_def by metis
  show "m \<in> M \<and> ack_ok p' m i u" if "(m, i, u) \<in> p_acks p'" for m i u
    using that ack_ok_mono [OF assms(1,2) proto_invD(10) [OF assms(1)]] proto_invD(9) [OF assms(1)] assms(4,5)
    by simp
qed (simp_all add: assms(7))

lemma elect_inv:
  assumes "proto_inv M p" and "d \<in> M" and "t \<le> p_term p d" and "\<forall>x. (t, x) \<notin> p_led p"
    and "majority_of M {v. (v, t, d) \<in> p_votes p}" and "le_term e = t"
    and "p' = p\<lparr>p_led := insert (t, d) (p_led p), p_lead := (p_lead p)(t := p_cand p t d @ [e])\<rparr>"
  shows "evolves p p' \<and> proto_inv M p'"
proof -
  have "p_lead p t = []" using proto_invD(3) [OF assms(1)] assms(4) by blast
  then have e: "evolves p p'" by (auto simp: evolves_def assms(7))
  have no: "\<not> lacking p t i u" for i u using assms(4) by (simp add: lacking_def)
  have "covers p (\<lambda>w. w < t) v t d" if "(v, t, d) \<in> p_votes p" for v
    using proto_invD(11) [OF assms(1) that] no unfolding covers_def by (metis le_neq_implies_less)
  then have c: "covers p' (\<lambda>w. w < t) v t d" if "(v, t, d) \<in> p_votes p" for v
    using that covers_mono [OF assms(1) e _ assms(3)] by blast
  have "proto_inv M p'"
  proof (rule longer_leads_inv [OF assms(1) e])
    show "\<exists>x. (u, x) \<in> p_led p'" if "p_lead p' u \<noteq> []" for u
      using that proto_invD(3) [OF assms(1), of u] by (auto simp: assms(7) split: if_splits)
    show "leads p' u x" if "(u, x) \<in> p_led p'" for u x
      using that assms(4,6) proto_invD(6) [OF assms(1), of u x] by (auto simp: assms(7) leads_def)
    show "x \<in> M \<and> u \<le> p_term p' x \<and> (\<forall>y. (u, y) \<in> p_led p' \<longrightarrow> y = x) \<and>
        (\<exists>Q. majority_of M Q \<and> (\<forall>v\<in>Q. covers p' (\<lambda>w. w < u) v u x))"
      if "(u, x) \<in> p_led p'" "(u, x) \<notin> p_led p" for u x
    proof -
      from that have x: "u = t" "x = d" by (auto simp: assms(7))
      have "\<exists>Q. majority_of M Q \<and> (\<forall>v\<in>Q. covers p' (\<lambda>w. w < t) v t d)" using assms(5) c by blast
      with x assms(2-4) show ?thesis by (auto simp: assms(7))
    qed
  qed (simp_all add: assms(7))
  with e show ?thesis ..
qed

lemma create_inv:
  assumes "proto_inv M p" and "(t, d) \<in> p_led p" and "le_term e = t"
    and "p' = p\<lparr>p_lead := (p_lead p)(t := p_lead p t @ [e])\<rparr>"
  shows "evolves p p' \<and> proto_inv M p'"
proof -
  have e: "evolves p p'" by (auto simp: evolves_def assms(4))
  have "proto_inv M p'"
  proof (rule longer_leads_inv [OF assms(1) e])
    show "\<exists>x. (u, x) \<in> p_led p'" if "p_lead p' u \<noteq> []" for u
      using that proto_invD(3) [OF assms(1), of u] assms(2) by (auto simp: assms(4) split: if_splits)
    show "leads p' u x" if "(u, x) \<in> p_led p'" for u x
    proof -
      from that have "(u, x) \<in> p_led p" by (simp add: assms(4))
      from proto_invD(6) [OF assms(1) this] assms(3) show ?thesis
        unfolding leads_def by (auto simp: assms(4))
    qed
  qed (auto simp: assms(4))
  with e show ?thesis ..
qed

lemma lead_traced:
  assumes "proto_inv M p" and "(t, d) \<in> p_led p"
  shows "traced (p_lead p) (p_lead p t)"
  unfolding traced_def
proof (intro allI impI)
  note led = proto_invD(6) [OF assms] proto_invD(2) [OF assms(1), of t d]
  fix i u assume h: "has (p_lead p t) i u"
  show "take (Suc i) (p_lead p t) = take (Suc i) (p_lead p u)"
  proof (cases "u = t")
    case False
    with h leads_has(2) [OF led] have k: "has (p_cand p t d) i u" by blast
    with led tracedD [of "p_lead p" _ i u] show ?thesis
      by (auto simp: leads_def cand_ok_def has_def)
  qed simp
qed

text \<open>Storing a prefix of the leader's log.\<close>

lemma store_keeps:
  assumes "proto_inv M p" and "n \<in> M" and "(p_term p n, d) \<in> p_led p" and "prefix l (p_lead p (p_term p n))"
    and "length (p_cand p (p_term p n) d) < length l" and "has (p_log p n) i t" and "t \<le> p_term p n"
  shows "has (if prefix l (p_log p n) then p_log p n else l) i t \<or>
     t < p_term p n \<and> lacking p (p_term p n) i t"
proof (cases "prefix l (p_log p n) \<or> has l i t")
  case True
  with assms(6) show ?thesis by auto
next
  case False
  let ?t = "p_term p n"
  note ld = leads_has [OF proto_invD(6) [OF assms(1,3)] proto_invD(2) [OF assms(1)]]
  show ?thesis
  proof (cases "t = ?t")
    case True
    have tr: "traced (p_lead p) (p_log p n)" using proto_invD(1) [OF assms(1,2)] by (simp add: node_ok_def)
    have same: "take (Suc i) (p_log p n) = take (Suc i) (p_lead p ?t)" using tracedD [OF tr assms(6)] True by simp
    have "has (p_lead p ?t) i t" using traced_in_lead [OF tr assms(6)] True by simp
    with has_prefix_iff [OF assms(4)] False have "length l \<le> i" using not_le by blast
    with same assms(4) have "prefix l (take (Suc i) (p_log p n))"
      by (auto simp: prefix_def)
    then have "prefix l (p_log p n)" using take_is_prefix prefix_order.order_trans by blast
    with False show ?thesis by simp
  next
    case ne: False
    have "\<not> has (p_cand p ?t d) i t"
    proof
      assume k: "has (p_cand p ?t d) i t"
      then have "has (p_lead p ?t) i t" using ld(2) ne by simp
      with has_prefix_iff [OF assms(4)] k assms(5) False show False by (auto simp: has_def)
    qed
    with ne assms(3,7) show ?thesis by (auto simp: lacking_def)
  qed
qed

lemma store_inv:
  assumes "proto_inv M p" and "n \<in> M" and "t = p_term p n" and "(t, d) \<in> p_led p" and "prefix l (p_lead p t)"
    and "length (p_cand p t d) < length l" and "f = (if prefix l (p_log p n) then p_log p n else l)"
    and "p' = p\<lparr>p_log := (p_log p)(n := f), p_acks := p_acks p \<union> held n t f\<rparr>"
  shows "evolves p p' \<and> proto_inv M p'"
proof -
  have e: "evolves p p'" using assms(3) by (auto simp: evolves_def assms(8) held_def)
  note node = proto_invD(1) [OF assms(1,2)]
  note led = proto_invD(6) [OF assms(1,4)] proto_invD(2) [OF assms(1), of t d]
  note tl = lead_traced [OF assms(1,4)]
  have tf: "traced (p_lead p) f" using node traced_prefix [OF tl assms(5)] assms(7) by (simp add: node_ok_def)
  have lt: "\<forall>x\<in>set f. le_term x \<le> t"
  proof
    fix x assume "x \<in> set f"
    then obtain i where "has f i (le_term x)" by (auto simp: has_def in_set_conv_nth)
    with has_prefix [OF assms(5)] leads_has(3) [OF led] node assms(3,7) has_nth show "le_term x \<le> t"
      unfolding node_ok_def by (metis (no_types, lifting))
  qed
  have new: "ack_ok p' n i t" if "has f i t" for i
    using that traced_in_lead [OF tf that] assms(3) by (simp add: ack_ok_def assms(8))
  have old: "ack_ok p' n i u" if a: "(n, i, u) \<in> p_acks p" for i u
  proof -
    note k = proto_invD(10) [OF assms(1) a]
    from k consider "has (p_log p n) i u" | w where "u < w" "w \<le> p_term p n" "lacking p w i u"
      by (auto simp: ack_ok_def)
    then have "has f i u \<or> (\<exists>w. u < w \<and> w \<le> p_term p n \<and> lacking p w i u)"
    proof cases
      case 1
      with store_keeps [OF assms(1,2), of d l i u] k assms(3-7) show ?thesis by (auto simp: ack_ok_def)
    qed blast
    then have "has f i u \<or> (\<exists>w. u < w \<and> w \<le> p_term p n \<and> lacking p' w i u)"
      using lacking_mono [OF assms(1) e] by blast
    with k show ?thesis by (simp add: ack_ok_def assms(8))
  qed
  have "proto_inv M p'"
  proof (rule proto_inv_evolves [OF assms(1) e])
    show "node_ok p' m" if "m \<in> M" for m
      using proto_invD(1) [OF assms(1) that] tf lt assms(3) by (auto simp: node_ok_def assms(8))
    show "m \<in> M \<and> ack_ok p' m i u" if "(m, i, u) \<in> p_acks p'" for m i u
    proof (cases "(m, i, u) \<in> p_acks p")
      case True
      with old ack_ok_mono [OF assms(1) e proto_invD(10) [OF assms(1) True]] proto_invD(9) [OF assms(1) True]
      show ?thesis by (cases "m = n") (simp_all add: assms(8))
    next
      case False
      with that new assms(2) show ?thesis by (auto simp: assms(8) held_def)
    qed
  qed (use proto_invD(2,3,6) [OF assms(1)] in \<open>auto simp: assms(8) cand_ok_def leads_def\<close>)
  with e show ?thesis ..
qed

lemma evolves_refl [simp]: "evolves p p"
  by (simp add: evolves_def)

lemma proto_step_inv:
  assumes "proto_inv M p" and "proto_step M p p'"
  shows "evolves p p' \<and> proto_inv M p'"
  using assms(2)
proof cases
  case (prepare n t) then show ?thesis by (intro prepare_inv [OF assms(1)])
next
  case (advance n t) then show ?thesis by (intro advance_inv [OF assms(1)])
next
  case (vote n d t) then show ?thesis by (intro vote_inv [OF assms(1)])
next
  case (elect d t e) then show ?thesis by (intro elect_inv [OF assms(1)])
next
  case (create t d e) then show ?thesis by (intro create_inv [OF assms(1)])
next
  case (store n t d l f) then show ?thesis by (intro store_inv [OF assms(1)])
qed

end
