(* ===== verification/SafeInvariant.thy ===== *)
theory SafeInvariant
  imports Agreement LogMatching
begin

text \<open>
  The cluster of \<open>Cluster\<close> and the abstract protocol of \<open>Agreement\<close>: what the logs, the records of a leader, its
  commit index and the messages on the network mean in terms of the abstract state, for runs in which
  responses are handled as the protocol has it and no log is compacted; and where a step of a node ends,
  crash or not.
\<close>

section \<open>Runs without the deviations of the code\<close>

text \<open>An AppendEntries response reaches the leader of its term only, and if it is a refusal, it names a
  conflicting index; no snapshot is taken or sent.\<close>

fun calm_input :: "input \<Rightarrow> RaftCore \<Rightarrow> bool" where
  "calm_input (Receive (AppendEntriesResponse r)) s \<longleftrightarrow>
     state s = Leader \<and> aer_term r = current_term s \<and> (aer_success r \<or> aer_first_conflicting_index r \<noteq> None)"
| "calm_input (Receive (InstallSnapshotMsg r)) s \<longleftrightarrow> False"
| "calm_input (Receive (InstallSnapshotResponse r)) s \<longleftrightarrow> False"
| "calm_input TakeSnapshot s \<longleftrightarrow> False"
| "calm_input _ s \<longleftrightarrow> True"

fun calm :: "event \<Rightarrow> cluster \<Rightarrow> bool" where
  "calm (Run n _ i _) c \<longleftrightarrow> calm_input i (cores c n)"
| "calm (Crash n _ i _ _ _ _ _) c \<longleftrightarrow> calm_input i (cores c n)"

inductive calm_steps :: "NodeId list \<Rightarrow> cluster \<Rightarrow> cluster \<Rightarrow> bool" for members where
  calm_start: "calm_steps members c c"
| calm_step: "calm_steps members c c' \<Longrightarrow> timely e c' \<Longrightarrow> restores e c' \<Longrightarrow> calm e c' \<Longrightarrow>
         cluster_exec members e c' = Some c'' \<Longrightarrow> calm_steps members c c''"

lemma calm_steps_durable:
  "calm_steps members c c' \<Longrightarrow> durable_reachable members c \<Longrightarrow> durable_reachable members c'"
  by (induction rule: calm_steps.induct) (auto intro: durable_reachable.step)

section \<open>The invariant\<close>

definition commit_ok :: "NodeId set \<Rightarrow> proto \<Rightarrow> LogEntry list \<Rightarrow> u64 \<Rightarrow> bool" where
  "commit_ok M p f k \<longleftrightarrow> k = 0 \<or> (\<exists>t. has f (k - 1) t \<and> chosen M p (k - 1) t)"

text \<open>What a leader has recorded about its followers.\<close>

definition records_ok :: "proto \<Rightarrow> RaftCore \<Rightarrow> bool" where
  "records_ok p s \<longleftrightarrow>
     fst ` set (match_index s) = set (peers s) \<and>
     (\<forall>q k. (q, k) \<in> set (match_index s) \<longrightarrow> k \<le> length (log s) \<and>
        (\<forall>j<k. has (log s) j (current_term s) \<longrightarrow> (q, j, current_term s) \<in> p_acks p)) \<and>
     (\<forall>q k. map_of (next_index s) q = Some k \<longrightarrow> 1 \<le> k)"

definition core_safe :: "NodeId set \<Rightarrow> proto \<Rightarrow> NodeId \<Rightarrow> RaftCore \<Rightarrow> bool" where
  "core_safe M p n s \<longleftrightarrow>
     base s = (0, 0) \<and> keyed s \<and> last_applied s \<le> commit_index s \<and> commit_ok M p (log s) (commit_index s) \<and>
     (state s = Candidate \<longrightarrow> p_cand p (current_term s) n = log s) \<and>
     (state s = Leader \<longrightarrow> p_lead p (current_term s) = log s \<and> records_ok p s)"

text \<open>A request carries the end of a prefix of the leader's log.\<close>

definition request_ok :: "NodeId set \<Rightarrow> proto \<Rightarrow> AppendEntriesRPC \<Rightarrow> LogEntry list \<Rightarrow> bool" where
  "request_ok M p r l \<longleftrightarrow>
     (ae_term r, ae_leader_id r) \<in> p_led p \<and> prefix l (p_lead p (ae_term r)) \<and>
     length (p_cand p (ae_term r) (ae_leader_id r)) < length l \<and>
     ae_prev_log_index r \<le> length l \<and> ae_entries r = drop (ae_prev_log_index r) l \<and>
     (0 < ae_prev_log_index r \<longrightarrow> has l (ae_prev_log_index r - 1) (ae_prev_log_term r)) \<and>
     commit_ok M p l (ae_leader_commit r)"

fun msg_ok :: "NodeId set \<Rightarrow> proto \<Rightarrow> NodeId \<Rightarrow> Message \<Rightarrow> bool" where
  "msg_ok M p x (AppendEntries r) \<longleftrightarrow> x \<in> M \<and> x \<noteq> ae_leader_id r \<and> (\<exists>l. request_ok M p r l)"
| "msg_ok M p x (AppendEntriesResponse r) \<longleftrightarrow>
     aer_id r \<in> M \<and> aer_id r \<noteq> x \<and> aer_first_conflicting_index r \<noteq> Some 0 \<and>
     (aer_success r \<longrightarrow>
        (aer_term r, x) \<in> p_led p \<and>
        aer_match_index r \<le> length (p_lead p (aer_term r)) \<and>
        (\<forall>j<aer_match_index r. has (p_lead p (aer_term r)) j (aer_term r) \<longrightarrow>
           (aer_id r, j, aer_term r) \<in> p_acks p))"
| "msg_ok M p x (RequestVote r) \<longleftrightarrow>
     rv_candidate_id r \<in> M \<and> rv_term r \<le> p_term p (rv_candidate_id r) \<and>
     rv_last_log_index r = length (p_cand p (rv_term r) (rv_candidate_id r)) \<and>
     rv_last_log_term r = end_term 0 (p_cand p (rv_term r) (rv_candidate_id r))"
| "msg_ok M p x _ \<longleftrightarrow> True"

definition views :: "cluster \<Rightarrow> proto \<Rightarrow> bool" where
  "views c p \<longleftrightarrow>
     p_term p = (\<lambda>n. current_term (cores c n)) \<and> p_log p = (\<lambda>n. log (cores c n)) \<and>
     p_votes p = ballots c \<and> p_led p = led c"

definition safe_inv :: "NodeId list \<Rightarrow> cluster \<Rightarrow> proto \<Rightarrow> bool" where
  "safe_inv members c p \<longleftrightarrow>
     views c p \<and> proto_inv (set members) p \<and>
     (\<forall>n\<in>set members. core_safe (set members) p n (cores c n)) \<and>
     (\<forall>y\<in>set (sent c). msg_ok (set members) p (fst y) (snd y))"

lemma safe_invD:
  assumes "safe_inv members c p"
  shows "p_term p n = current_term (cores c n)" and "p_log p n = log (cores c n)"
    and "p_votes p = ballots c" and "p_led p = led c" and "proto_inv (set members) p"
    and "n \<in> set members \<Longrightarrow> core_safe (set members) p n (cores c n)"
    and "(x, m) \<in> set (sent c) \<Longrightarrow> msg_ok (set members) p x m"
  using assms unfolding safe_inv_def views_def by auto

section \<open>The invariant is kept as the logs grow\<close>

lemma commit_ok_mono:
  assumes "commit_ok M p f k" and "evolves p p'" and "prefix f g"
  shows "commit_ok M p' g k"
  using assms chosen_mono has_prefix unfolding commit_ok_def by metis

lemma led_cand:
  assumes "proto_inv M p" and "evolves p p'" and "(t, d) \<in> p_led p"
  shows "p_cand p' t d = p_cand p t d" and "(t, d) \<in> p_led p'"
  using evolvesD(3) [OF assms(2) proto_invD(5) [OF assms(1,3)]] evolvesD(5) [OF assms(2,3)] by blast+

lemma request_ok_mono:
  assumes "proto_inv M p" and "evolves p p'" and "request_ok M p r l"
  shows "request_ok M p' r l"
proof -
  have d: "(ae_term r, ae_leader_id r) \<in> p_led p" using assms(3) by (simp add: request_ok_def)
  have "prefix l (p_lead p' (ae_term r))"
    using assms(3) evolvesD(1) [OF assms(2)] prefix_order.order_trans unfolding request_ok_def by blast
  with led_cand [OF assms(1,2) d] assms(3) commit_ok_mono [OF _ assms(2), of M l _ l] show ?thesis
    by (simp add: request_ok_def)
qed

lemma msg_ok_mono:
  assumes "proto_inv M p" and "evolves p p'" and "msg_ok M p x m"
  shows "msg_ok M p' x m"
proof (cases m)
  case (AppendEntries r)
  with assms(3) request_ok_mono [OF assms(1,2)] show ?thesis by auto
next
  case (AppendEntriesResponse r)
  have "has (p_lead p' t) j t \<longleftrightarrow> has (p_lead p t) j t" if "j < length (p_lead p t)" for j t
    using has_prefix_iff [OF evolvesD(1) [OF assms(2)] that] .
  moreover have "k \<le> length (p_lead p' t)" if "k \<le> length (p_lead p t)" for k t
    using that prefix_length_le [OF evolvesD(1) [OF assms(2)], of t] by linarith
  ultimately show ?thesis
    using assms(3) AppendEntriesResponse evolvesD(4,5) [OF assms(2)]
    by (auto 4 3)
next
  case (RequestVote r)
  have "k \<le> p_term p' d" if "k \<le> p_term p d" for k d
    using that evolvesD(2) [OF assms(2)] le_trans by blast
  with assms(3) RequestVote evolvesD(3) [OF assms(2)] show ?thesis by auto
qed simp_all

lemma records_ok_mono: "records_ok p s \<Longrightarrow> evolves p p' \<Longrightarrow> records_ok p' s"
  using evolvesD(4) unfolding records_ok_def by blast

text \<open>A step of one node, from the changed node and the new messages.\<close>

lemma safe_inv_step:
  assumes "safe_inv members c p" and "cluster_inv members c" and "evolves p p'" and "proto_inv (set members) p'"
    and "cores c' = (cores c)(n := x)" and "p_term p' = (p_term p)(n := current_term x)"
    and "p_log p' = (p_log p)(n := log x)" and "p_votes p' = ballots c'" and "p_led p' = led c'"
    and "\<And>t. p_lead p' t \<noteq> p_lead p t \<Longrightarrow> (t, n) \<in> led c'"
    and "n \<in> set members \<Longrightarrow> core_safe (set members) p' n x"
    and "\<And>y. y \<in> set (sent c') \<Longrightarrow> y \<notin> set (sent c) \<Longrightarrow> msg_ok (set members) p' (fst y) (snd y)"
  shows "safe_inv members c' p'"
proof -
  have v: "views c' p'"
    using assms(1,5-9) by (auto simp: safe_inv_def views_def fun_eq_iff)
  have "core_safe (set members) p' m (cores c' m)" if m: "m \<in> set members" for m
  proof (cases "m = n")
    case True
    with assms(5,11) m show ?thesis by simp
  next
    case False
    let ?s = "cores c m"
    have o: "core_safe (set members) p m ?s" using safe_invD(6) [OF assms(1) m] .
    have cand: "p_cand p' (current_term ?s) m = p_cand p (current_term ?s) m"
      using evolvesD(3) [OF assms(3), of "current_term ?s" m] safe_invD(1) [OF assms(1), of m] by simp
    have "p_lead p' (current_term ?s) = p_lead p (current_term ?s)" if "state ?s = Leader"
    proof (rule ccontr)
      assume "p_lead p' (current_term ?s) \<noteq> p_lead p (current_term ?s)"
      with assms(9,10) have "(current_term ?s, n) \<in> p_led p'" by simp
      moreover have "(current_term ?s, m) \<in> led c"
        using assms(2) m that by (simp add: cluster_inv_def node_inv_def)
      then have "(current_term ?s, m) \<in> p_led p'"
        using evolvesD(5) [OF assms(3)] safe_invD(4) [OF assms(1)] by simp
      ultimately show False using proto_invD(8) [OF assms(4)] False by blast
    qed
    with o cand False assms(5) commit_ok_mono [OF _ assms(3)] records_ok_mono [OF _ assms(3)] show ?thesis
      by (auto simp: core_safe_def)
  qed
  moreover have "msg_ok (set members) p' (fst y) (snd y)" if "y \<in> set (sent c')" for y
  proof (cases "y \<in> set (sent c)")
    case True
    with safe_invD(7) [OF assms(1), of "fst y" "snd y"] msg_ok_mono [OF safe_invD(5) [OF assms(1)] assms(3)]
    show ?thesis by simp
  next
    case False
    with assms(12) that show ?thesis by blast
  qed
  ultimately show ?thesis using v assms(4) by (simp add: safe_inv_def)
qed

section \<open>Requests of a leader\<close>

text \<open>A leader, as far as its requests are concerned.\<close>

definition sends_log :: "NodeId set \<Rightarrow> proto \<Rightarrow> RaftCore \<Rightarrow> bool" where
  "sends_log M p s \<longleftrightarrow>
     base s = (0, 0) \<and> (current_term s, node_id s) \<in> p_led p \<and> p_lead p (current_term s) = log s \<and>
     commit_ok M p (log s) (commit_index s) \<and> (\<forall>q k. map_of (next_index s) q = Some k \<longrightarrow> 1 \<le> k)"

lemma has_log_term:
  assumes "last_included_index s = 0" and "0 < i" and "log_term_at s i = Some t"
  shows "has (log s) (i - 1) t"
  using assms log_term_at_None [of s i] log_term_at_above [of s i] by (auto simp: has_def lli_def)

lemma build_request_ok:
  assumes "proto_inv M p" and "sends_log M p s" and "build_append_entries_for_peer s q = Some a"
    and "q \<in> M" and "q \<noteq> node_id s" and "y \<in> set (outgoing n d a)"
  shows "msg_ok M p (fst y) (snd y)"
proof -
  define k where "k = (case map_of (next_index s) q of Some k \<Rightarrow> k | None \<Rightarrow> lli s)"
  let ?t = "current_term s" and ?d = "node_id s"
  have b: "last_included_index s = 0" and led: "(?t, ?d) \<in> p_led p" and l: "p_lead p ?t = log s"
    using assms(2) by (simp_all add: sends_log_def base_def)
  from proto_invD(6) [OF assms(1) led] l have len: "length (p_cand p ?t ?d) < length (log s)"
    by (auto simp: leads_def)
  then have "1 \<le> lli s" by (simp add: lli_def)
  then have k: "1 \<le> k" using assms(2) by (auto simp: k_def sends_log_def split: option.splits)
  show ?thesis
  proof (cases "log_term_at s (k - 1)")
    case None
    with assms(3) k have "a = install_snapshot_for_peer s q"
      unfolding build_append_entries_for_peer_def k_def by (auto simp: opt_bind checked Let_def)
    with assms(6) show ?thesis by (simp add: install_snapshot_for_peer_def)
  next
    case (Some t)
    with assms(3) k obtain es where es: "log_slice s k (lli s + 1) = Some es"
      and a: "a = SendMessage q (AppendEntries
        \<lparr> ae_term = ?t, ae_leader_id = ?d, ae_prev_log_index = k - 1,
          ae_prev_log_term = t, ae_entries = es, ae_leader_commit = commit_index s \<rparr>)" (is "a = SendMessage q (AppendEntries ?r)")
      unfolding build_append_entries_for_peer_def k_def by (auto simp: opt_bind checked Let_def)
    have q: "k - 1 \<le> lli s" using Some log_term_at_None [of s "k - 1"] by auto
    with es k b log_slice_tail [of s k] have e: "es = drop (k - 1) (log s)" by simp
    have "0 < k - 1 \<longrightarrow> has (log s) (k - 1 - 1) t" using has_log_term [OF b _ Some] by blast
    then have "request_ok M p ?r (log s)"
      using assms(2) led l len q e b by (simp add: request_ok_def sends_log_def lli_def)
    with a assms(4-6) show ?thesis by auto
  qed
qed

lemma append_entries_ok:
  assumes "proto_inv M p" and "sends_log M p s" and "append_entries s = Some as"
    and "set (peers s) \<subseteq> M - {node_id s}" and "y \<in> set (concat (map (outgoing n d) as))"
  shows "msg_ok M p (fst y) (snd y)"
proof -
  from assms(5) obtain a where a: "a \<in> set as" "y \<in> set (outgoing n d a)" by auto
  with map_opt_set [OF assms(3) [unfolded append_entries_def]] obtain q where
    q: "q \<in> set (peers s)" "build_append_entries_for_peer s q = Some a" by blast
  with assms(4) a(2) show ?thesis by (intro build_request_ok [OF assms(1,2) q(2)]) auto
qed

section \<open>Accepting a request\<close>

lemma append_loop_stores:
  assumes "append_loop (n + 1) (drop n l) s = Some s'" and "last_included_index s = 0"
    and "n \<le> length (log s)" and "n \<le> length l" and "take n (log s) = take n l"
    and "traced L (log s)" and "traced L l"
  shows "log s' = (if prefix l (log s) then log s else l)"
  using assms
proof (induction "length l - n" arbitrary: n s)
  case 0
  then have n: "n = length l" by simp
  with "0.prems" have "s' = s" "prefix l (log s)" by (auto simp: prefix_def) (metis append_take_drop_id)
  then show ?case by simp
next
  case (Suc k)
  then have n: "n < length l" by simp
  then have d: "drop n l = l ! n # drop (Suc n) l" by (simp add: Cons_nth_drop_Suc)
  let ?s1 = "s\<lparr>log := take n (log s) @ [l ! n]\<rparr>"
  have s1: "log ?s1 = take (Suc n) l" using n Suc.prems(5) by (simp add: take_Suc_conv_app_nth)
  show ?case
  proof (cases "n < length (log s) \<and> le_term (log s ! n) = le_term (l ! n)")
    case True
    then have "has (log s) n (le_term (l ! n))" "has l n (le_term (l ! n))" using n by (simp_all add: has_def)
    from traced_match [OF Suc.prems(6,7) this] have t: "take (Suc n) (log s) = take (Suc n) l" .
    have "append_loop (Suc n + 1) (drop (Suc n) l) s = Some s'"
      using Suc.prems(1,2) True by (auto simp: d opt_bind checked log_term_at_above lli_def)
    from Suc.hyps(1) [OF _ this Suc.prems(2) _ _ t Suc.prems(6,7)] Suc.hyps(2) True n show ?thesis by simp
  next
    case False
    have r: "append_loop (Suc n + 1) (drop (Suc n) l) ?s1 = Some s'"
    proof (cases "n < length (log s)")
      case True
      with False Suc.prems(1,2) show ?thesis by (auto simp: d opt_bind checked log_term_at_above lli_def)
    next
      case no: False
      with Suc.prems(1-3) show ?thesis by (auto simp: d opt_bind checked lli_def)
    qed
    have tr: "traced L (log ?s1)" unfolding s1 using Suc.prems(7) take_is_prefix by (rule traced_prefix)
    have "length (log ?s1) = Suc n" unfolding s1 using n by simp
    with Suc.hyps(1) [OF _ r _ _ _ _ tr Suc.prems(7)] Suc.hyps(2) Suc.prems(2) n s1
    have "log s' = (if prefix l (take (Suc n) l) then take (Suc n) l else l)" by simp
    moreover have "prefix l (take (Suc n) l) \<Longrightarrow> take (Suc n) l = l"
      by (rule prefix_order.antisym [OF take_is_prefix])
    moreover have "\<not> prefix l (log s)" using False n by (auto simp: prefix_def nth_append)
    ultimately show ?thesis by simp
  qed
qed

section \<open>Where a step ends\<close>

text \<open>After a crash in the middle of a step the node comes back with what the actions carried out before it
  had persisted.\<close>

definition crashed :: "RaftCore \<Rightarrow> Action list \<Rightarrow> RaftCore \<Rightarrow> Action list \<Rightarrow> bool" where
  "crashed s as x ms \<longleftrightarrow>
     state x = Follower \<and> commit_index x = fst (base x) \<and> last_applied x = fst (base x) \<and> keyed x \<and>
     (\<exists>k. ms = take k as) \<and> metadata x = disk_meta (metadata s) ms \<and>
     log x = map snd (disk_replay ms (log_frames s)) \<and> base x = snap_replay ms (base s)"

definition landing ::
  "NodeId list \<Rightarrow> cluster \<Rightarrow> NodeId \<Rightarrow> RaftCore \<Rightarrow> Action list \<Rightarrow> RaftCore \<Rightarrow> Action list \<Rightarrow> cluster \<Rightarrow> bool" where
  "landing members c n s' as x ms c' \<longleftrightarrow>
     n \<in> set members \<and> cores c' = (cores c)(n := x) \<and>
     (\<exists>d. sent c' = sent c @ concat (map (outgoing n d) ms)) \<and>
     ballots c' = ballots c \<union> (case voted_for x of None \<Rightarrow> {} | Some v \<Rightarrow> {(n, current_term x, v)}) \<and>
     led c' = led c \<union> (if state s' = Leader then {(current_term s', n)} else {}) \<and>
     op_contract (cores c n) as s' \<and> disk_either (cores c n) as s' \<and>
     (x = s' \<and> ms = as \<or> crashed (cores c n) as x ms) \<and>
     cluster_inv members c \<and> cluster_inv members c' \<and> led_inv members c \<and>
     (\<forall>t m m'. (t, m) \<in> led c' \<longrightarrow> (t, m') \<in> led c' \<longrightarrow> m = m')"

lemma landingD:
  assumes "landing members c n s' as x ms c'"
  shows "n \<in> set members" and "cores c' = (cores c)(n := x)"
    and "\<exists>d. sent c' = sent c @ concat (map (outgoing n d) ms)"
    and "ballots c' = ballots c \<union> (case voted_for x of None \<Rightarrow> {} | Some v \<Rightarrow> {(n, current_term x, v)})"
    and "led c' = led c \<union> (if state s' = Leader then {(current_term s', n)} else {})"
    and "op_contract (cores c n) as s'" and "disk_either (cores c n) as s'"
    and "x = s' \<and> ms = as \<or> crashed (cores c n) as x ms"
    and "cluster_inv members c" and "cluster_inv members c'" and "led_inv members c"
    and "(t, m) \<in> led c' \<Longrightarrow> (t, m') \<in> led c' \<Longrightarrow> m = m'"
  using assms unfolding landing_def by blast+

lemma landing_crashed:
  assumes "landing members c n s' as x ms c'" and "x \<noteq> s'"
  obtains k where "ms = take k as" "metadata x = disk_meta (metadata (cores c n)) ms" "state x = Follower"
    "log x = map snd (disk_replay ms (log_frames (cores c n)))" "base x = snap_replay ms (base (cores c n))"
  using landingD(8) [OF assms(1)] assms(2) unfolding crashed_def by blast

lemma exec_landing:
  assumes "durable_reachable members c" and "timely e c" and "restores e c" and "calm e c"
    and "cluster_exec members e c = Some c'"
  shows "\<exists>n rng i s' as x ms. landing members c n s' as x ms c' \<and> available n i c \<and>
     core_step rng i (cores c n) = Some (as, s') \<and> calm_input i (cores c n)"
proof -
  note r = durable_reachable_reachable [OF assms(1)]
  have ci: "cluster_inv members c" "cluster_inv members c'"
    using reachable_inv [OF r] reachable_inv [OF reachable.step [OF r assms(2,5)]] .
  have one: "\<forall>t m m'. (t, m) \<in> led c' \<longrightarrow> (t, m') \<in> led c' \<longrightarrow> m = m'"
    using one_leader_per_term reachable.step [OF r assms(2,5)] by blast
  from durable_reachable_history [OF assms(1)] obtain H where l: "led_inv members c" and h: "history_inv members c H"
    by blast
  have disk: "disk_either (cores c n) as s'"
    if st: "core_step rng i (cores c n) = Some (as, s')" and n: "n \<in> set members" "available n i c" for n rng i as s'
  proof -
    have "path_effect H (cores c n) as s'"
    proof (rule core_step_path [OF st history_invD(2) [OF h n(1)]])
      fix m assume "i = Receive m"
      with n(2) have "(n, m) \<in> set (sent c)" by (simp add: available_def)
      from history_invD(3) [OF h this] show "msg_path H m" by simp
    qed
    then show ?thesis by (simp add: path_effect_def)
  qed
  show ?thesis
  proof (cases e)
    case (Run n rng i d)
    with assms(5) obtain as s' where n: "n \<in> set members" "available n i c"
      and st: "core_step rng i (cores c n) = Some (as, s')" and c': "c' = record_node n d s' as c"
      by (auto simp: opt_bind split: if_splits)
    have "led c' = led c \<union> (if state s' = Leader then {(current_term s', n)} else {})"
      "ballots c' = ballots c \<union> (case voted_for s' of None \<Rightarrow> {} | Some v \<Rightarrow> {(n, current_term s', v)})"
      "cores c' = (cores c)(n := s')" "sent c' = sent c @ concat (map (outgoing n d) as)"
      by (simp_all add: c' record_node_def)
    then have "landing members c n s' as s' as c'"
      using n ci one l disk [OF st n] core_step_contract [OF st] unfolding landing_def by blast
    moreover have "calm_input i (cores c n)" using assms(4) Run by simp
    ultimately show ?thesis using n st by blast
  next
    case (Crash n rng i d k es lii lit)
    with assms(5) obtain as s' x where n: "n \<in> set members" "available n i c"
      and st: "core_step rng i (cores c n) = Some (as, s')"
      and rb: "reborn rng members (disk_meta (metadata (cores c n)) (take k as)) es lii lit (cores c n) = Some x"
      and c': "c' = record_node n d x (take k as) (mark_led n s' c)"
      by (auto simp: opt_bind Let_def split: if_splits)
    note x = reborn_Some [OF rb]
    have "commit_index x = lii" "last_applied x = lii" "keyed x"
      using rb by (auto simp: reborn_def restore_with_snapshot_def restore_def new_def opt_bind keyed_def)
    moreover have "es = map snd (disk_replay (take k as) (log_frames (cores c n)))"
      "(lii, lit) = snap_replay (take k as) (base (cores c n))" using assms(3) Crash st by auto
    ultimately have "crashed (cores c n) as x (take k as)"
      unfolding crashed_def x using x(1) by (metis fst_conv)
    moreover have "led c' = led c \<union> (if state s' = Leader then {(current_term s', n)} else {})"
      using x(1) by (auto simp: c' record_node_def mark_led_def)
    moreover have "ballots c' = ballots c \<union> (case voted_for x of None \<Rightarrow> {} | Some v \<Rightarrow> {(n, current_term x, v)})"
      by (simp add: c' record_node_def)
    moreover have "cores c' = (cores c)(n := x)" "sent c' = sent c @ concat (map (outgoing n d) (take k as))"
      by (simp_all add: c')
    ultimately have "landing members c n s' as x (take k as) c'"
      using n ci one l disk [OF st n] core_step_contract [OF st] unfolding landing_def by blast
    moreover have "calm_input i (cores c n)" using assms(4) Crash by simp
    ultimately show ?thesis using n st by blast
  qed
qed

lemma disk_meta_append: "disk_meta m (xs @ ys) = disk_meta (disk_meta m xs) ys"
  by (induction m xs rule: disk_meta.induct) simp_all

lemma disk_meta_silent: "list_all (\<lambda>a. \<not> persists_metadata a) as \<Longrightarrow> disk_meta m as = m"
  by (induction m as rule: disk_meta.induct) auto

lemma disk_meta_in: "disk_meta m as = m \<or> (\<exists>t v. PersistMetadata t v \<in> set as \<and> disk_meta m as = (t, v))"
  by (induction m as rule: disk_meta.induct) auto

text \<open>Where the metadata and the log of the node are after the step.\<close>

lemma landing_meta:
  assumes "landing members c n s' as x ms c'"
  shows "current_term (cores c n) \<le> current_term x" and "current_term x \<le> current_term s'"
    and "list_ex is_send ms \<Longrightarrow> metadata x = metadata s'"
proof -
  let ?s = "cores c n"
  have d: "durable_sends (metadata s') (metadata ?s) as" using landingD(6) [OF assms] by (simp add: op_contract_def)
  have "meta_le (metadata ?s) (metadata x) \<and> meta_le (metadata x) (metadata s') \<and>
      (list_ex is_send ms \<longrightarrow> metadata x = metadata s')"
  proof (cases "x = s'")
    case True
    with durable_sends_le [OF d] show ?thesis by simp
  next
    case False
    with landing_crashed [OF assms] obtain k where "ms = take k as" "metadata x = disk_meta (metadata ?s) ms"
      by blast
    with durable_sends_prefix [OF d, of k] show ?thesis by simp
  qed
  then show "current_term ?s \<le> current_term x" and "current_term x \<le> current_term s'"
    and "list_ex is_send ms \<Longrightarrow> metadata x = metadata s'" by (auto simp: metadata_def)
qed

lemma landing_vote:
  assumes "landing members c n s' as x ms c'" and "voted_for x = Some v"
    and "\<And>t v. PersistMetadata t v \<in> set as \<Longrightarrow> v = None \<or> (t, v) = metadata s'"
  shows "(n, current_term x, v) \<in> ballots c \<or> metadata x = metadata s'"
proof (cases "x = s'")
  case False
  with landing_crashed [OF assms(1)] obtain k where
    k: "ms = take k as" "metadata x = disk_meta (metadata (cores c n)) ms" by blast
  have n: "node_inv members c n" using landingD(1,9) [OF assms(1)] by (simp add: cluster_inv_def)
  from disk_meta_in [of "metadata (cores c n)" ms] show ?thesis
  proof
    assume "disk_meta (metadata (cores c n)) ms = metadata (cores c n)"
    with k n assms(2) show ?thesis by (auto simp: node_inv_def metadata_def)
  next
    assume "\<exists>t v. PersistMetadata t v \<in> set ms \<and> disk_meta (metadata (cores c n)) ms = (t, v)"
    then obtain t u where u: "PersistMetadata t u \<in> set as" "metadata x = (t, u)"
      using k by (auto dest: in_set_takeD)
    with assms(2) assms(3) [OF u(1)] show ?thesis by (auto simp: metadata_def)
  qed
qed simp

lemma landing_log:
  assumes "landing members c n s' as x ms c'"
  shows "(log x, base x) \<in> {(log (cores c n), base (cores c n)), (log s', base s')}"
proof (cases "x = s'")
  case False
  with landing_crashed [OF assms] landingD(7) [OF assms] show ?thesis unfolding disk_either_def by metis
qed simp

lemma landing_late_log:
  assumes "landing members c n s' (xs @ ys) x ms c'" and "list_all (\<lambda>a. \<not> touches_log a) xs"
    and "list_all (\<lambda>a. \<not> persists_metadata a) ys"
  shows "log x = log (cores c n) \<or> log x = log s' \<and> metadata x = metadata s'"
proof (cases "x = s'")
  case False
  let ?s = "cores c n"
  from landing_crashed [OF assms(1) False] obtain k where
    k: "ms = take k (xs @ ys)" "metadata x = disk_meta (metadata ?s) ms"
    "log x = map snd (disk_replay ms (log_frames ?s))" by blast
  show ?thesis
  proof (cases "k \<le> length xs")
    case True
    then have "list_all (\<lambda>a. \<not> touches_log a) ms" using k(1) assms(2) by (auto simp: list_all_iff dest: in_set_takeD)
    with k(3) show ?thesis by (simp add: disk_replay_untouched)
  next
    case later: False
    have "durable_sends (metadata s') (metadata ?s) (xs @ ys)"
      using landingD(6) [OF assms(1)] by (simp add: op_contract_def)
    from durable_sends_final [OF this] have "disk_meta (metadata ?s) xs = metadata s'"
      using assms(3) by (simp add: disk_meta_append disk_meta_silent)
    moreover have "list_all (\<lambda>a. \<not> persists_metadata a) (take (k - length xs) ys)"
      using assms(3) by (auto simp: list_all_iff dest: in_set_takeD)
    ultimately have "metadata x = metadata s'" using later k(1,2) by (simp add: disk_meta_append disk_meta_silent)
    with landing_log [OF assms(1)] show ?thesis by auto
  qed
qed simp

end
