(* ===== verification/SafeSteps.thy ===== *)
theory SafeSteps
  imports SafeInvariant
begin

text \<open>
  Every operation of the core keeps the invariant of \<open>SafeInvariant\<close>, with some abstract steps in between:
  voting, standing, being elected, creating and storing entries, and moving the commit index.
\<close>

section \<open>Steps that keep the log\<close>

lemma evolves_trans: "evolves p p1 \<Longrightarrow> evolves p1 p2 \<Longrightarrow> evolves p p2"
  unfolding evolves_def
proof (elim conjE, intro conjI allI)
  fix t n assume a: "\<forall>t. prefix (p_lead p t) (p_lead p1 t)" "\<forall>t. prefix (p_lead p1 t) (p_lead p2 t)"
    "\<forall>n. p_term p n \<le> p_term p1 n" "\<forall>n. p_term p1 n \<le> p_term p2 n"
  from a(1,2) show "prefix (p_lead p t) (p_lead p2 t)" by (blast intro: prefix_order.order_trans)
  from a(3,4) show "p_term p n \<le> p_term p2 n" by (blast intro: le_trans)
next
  fix u d assume "\<forall>u d. u \<le> p_term p d \<longrightarrow> p_cand p1 u d = p_cand p u d" "\<forall>n. p_term p n \<le> p_term p1 n"
    "\<forall>u d. u \<le> p_term p1 d \<longrightarrow> p_cand p2 u d = p_cand p1 u d"
  then show "u \<le> p_term p d \<longrightarrow> p_cand p2 u d = p_cand p u d" by (metis le_trans)
next
  fix v i t assume "\<forall>v i t. (v, i, t) \<in> p_acks p1 \<longrightarrow> (v, i, t) \<in> p_acks p \<or> p_term p v \<le> t"
    "\<forall>v i t. (v, i, t) \<in> p_acks p2 \<longrightarrow> (v, i, t) \<in> p_acks p1 \<or> p_term p1 v \<le> t" "\<forall>n. p_term p n \<le> p_term p1 n"
  then show "(v, i, t) \<in> p_acks p2 \<longrightarrow> (v, i, t) \<in> p_acks p \<or> p_term p v \<le> t" by (metis le_trans)
qed (blast+)

definition moved :: "proto \<Rightarrow> NodeId \<Rightarrow> u64 \<Rightarrow> (NodeId \<times> u64 \<times> NodeId) set \<Rightarrow> proto" where
  "moved p n t B = p\<lparr>p_term := (p_term p)(n := t), p_votes := B\<rparr>"

lemma moved_sel [simp]:
  "p_lead (moved p n t B) = p_lead p" "p_cand (moved p n t B) = p_cand p" "p_acks (moved p n t B) = p_acks p"
  "p_led (moved p n t B) = p_led p" "p_log (moved p n t B) = p_log p" "p_votes (moved p n t B) = B"
  "p_term (moved p n t B) = (p_term p)(n := t)" "chosen M (moved p n t B) = chosen M p"
  by (auto simp: moved_def chosen_def fun_eq_iff)

lemma core_safe_moved [simp]: "core_safe M (moved p n t B) m s = core_safe M p m s"
  by (simp add: core_safe_def commit_ok_def records_ok_def)

text \<open>A vote for a candidate that stands in the term and is up to date.\<close>

definition vote_ok :: "NodeId set \<Rightarrow> proto \<Rightarrow> NodeId \<Rightarrow> u64 \<Rightarrow> NodeId \<Rightarrow> bool" where
  "vote_ok M p n t d \<longleftrightarrow>
     d \<in> M \<and> (d = n \<or> t \<le> p_term p d) \<and> up_to_date (p_cand p t d) (p_log p n)"

lemma moved_inv:
  assumes "proto_inv M p" and "n \<in> M" and "p_term p n \<le> t"
    and "B = p_votes p \<union> (case v of None \<Rightarrow> {} | Some d \<Rightarrow> {(n, t, d)})"
    and "\<And>d. v = Some d \<Longrightarrow> (n, t, d) \<in> p_votes p \<or> vote_ok M p n t d"
  shows "evolves p (moved p n t B) \<and> proto_inv M (moved p n t B)"
proof -
  let ?p1 = "p\<lparr>p_term := (p_term p)(n := t)\<rparr>"
  have a: "evolves p ?p1 \<and> proto_inv M ?p1" using advance_inv [OF assms(1-3) refl] .
  show ?thesis
  proof (cases "B = p_votes p")
    case True
    then have "moved p n t B = ?p1" by (simp add: moved_def)
    with a show ?thesis by simp
  next
    case False
    with assms(4,5) obtain d where d: "v = Some d" "vote_ok M p n t d" "B = insert (n, t, d) (p_votes p)"
      by (cases v) auto
    have "evolves ?p1 (moved p n t B) \<and> proto_inv M (moved p n t B)"
      using d a assms(2) by (intro vote_inv [where n = n and d = d]) (auto simp: vote_ok_def moved_def)
    with a evolves_trans show ?thesis by blast
  qed
qed

text \<open>The node keeps its log and no leader is elected.\<close>

lemma kept_step:
  assumes "safe_inv members c p" and "landing members c n s' as x ms c'" and "log x = log (cores c n)"
    and "led c' = led c" and "core_safe (set members) p n x"
    and "\<And>v. voted_for x = Some v \<Longrightarrow> (n, current_term x, v) \<in> ballots c \<or>
        vote_ok (set members) p n (current_term x) v"
    and "\<And>d y p'. p' = moved p n (current_term x) (ballots c') \<Longrightarrow> proto_inv (set members) p' \<Longrightarrow>
        y \<in> set (concat (map (outgoing n d) ms)) \<Longrightarrow> msg_ok (set members) p' (fst y) (snd y)"
  shows "\<exists>p'. evolves p p' \<and> safe_inv members c' p'"
proof -
  let ?p = "moved p n (current_term x) (ballots c')"
  note v = safe_invD(1-4) [OF assms(1)]
  have m: "evolves p ?p \<and> proto_inv (set members) ?p"
    using assms(6) landingD(4) [OF assms(2)] landing_meta(1) [OF assms(2)] v
    by (intro moved_inv [OF safe_invD(5) [OF assms(1)] landingD(1) [OF assms(2)], where v = "voted_for x"]) simp_all
  have "safe_inv members c' ?p"
  proof (rule safe_inv_step [OF assms(1) landingD(9) [OF assms(2)] _ _ landingD(2) [OF assms(2)]])
    show "msg_ok (set members) ?p (fst y) (snd y)" if "y \<in> set (sent c')" "y \<notin> set (sent c)" for y
      using that landingD(3) [OF assms(2)] assms(7) [OF refl] m by (metis UnE set_append)
  qed (use m v assms(3-5) in \<open>simp_all add: fun_eq_iff\<close>)
  with m show ?thesis by blast
qed

text \<open>The state after a crash is as safe as the one the step would have ended in.\<close>

lemma landed_safe:
  assumes "landing members c n s' as x ms c'" and "base (cores c n) = (0, 0)"
    and "list_all (\<lambda>a. \<not> installs a) as" and "core_safe M p n s'"
  shows "core_safe M p n x"
proof (cases "x = s'")
  case False
  with landingD(8) [OF assms(1)] have c: "crashed (cores c n) as x ms" by blast
  then have "list_all (\<lambda>a. \<not> installs a) ms"
    using assms(3) by (auto simp: crashed_def list_all_iff dest: in_set_takeD)
  with c assms(2) have "base x = (0, 0)" by (simp add: crashed_def snap_replay_none)
  with c show ?thesis by (simp add: crashed_def core_safe_def commit_ok_def)
qed (simp add: assms(4))

lemma landing_msgs:
  assumes "landing members c n s' as x ms c'" and "y \<in> set (concat (map (outgoing n d) ms))"
  shows "y \<in> set (concat (map (outgoing n d) as))"
  using landingD(8) [OF assms(1)] assms(2) by (auto simp: crashed_def dest: in_set_takeD)

lemma outgoing_is_send: "y \<in> set (outgoing n d a) \<Longrightarrow> is_send a"
  by (cases a) auto

lemma landing_sent:
  assumes "landing members c n s' as x ms c'" and "y \<in> set (concat (map (outgoing n d) ms))"
  shows "metadata x = metadata s'"
  using assms(2) by (intro landing_meta(3) [OF assms(1)]) (auto simp: list_ex_iff dest: outgoing_is_send)

lemma landing_node:
  assumes "landing members c n s' as x ms c'"
  shows "node_id (cores c n) = n" and "set (peers (cores c n)) = set members - {n}"
    and "voted_for (cores c n) = Some v \<Longrightarrow> (n, current_term (cores c n), v) \<in> ballots c"
    and "state (cores c n) = Leader \<Longrightarrow> (current_term (cores c n), n) \<in> led c"
    and "self_vote (cores c n)"
  using landingD(1,9) [OF assms] by (auto simp: cluster_inv_def node_inv_def)

lemma quiet_step:
  assumes "safe_inv members c p" and "landing members c n s' as x ms c'"
    and "core_safe (set members) p n s'" and "log s' = log (cores c n)" and "list_all (\<lambda>a. \<not> installs a) as"
    and "state s' = Leader \<Longrightarrow> state (cores c n) = Leader \<and> current_term s' = current_term (cores c n)"
    and "\<And>t v. PersistMetadata t v \<in> set as \<Longrightarrow> v = None \<or> (t, v) = metadata s'"
    and "\<And>v. voted_for s' = Some v \<Longrightarrow>
        voted_for (cores c n) = Some v \<and> current_term s' = current_term (cores c n) \<or>
        vote_ok (set members) p n (current_term s') v"
    and "\<And>d y t B. y \<in> set (concat (map (outgoing n d) as)) \<Longrightarrow> proto_inv (set members) (moved p n t B) \<Longrightarrow>
        msg_ok (set members) (moved p n t B) (fst y) (snd y)"
  shows "\<exists>p'. evolves p p' \<and> safe_inv members c' p'"
proof (rule kept_step [OF assms(1,2)])
  note nd = landing_node [OF assms(2)]
  have "base (cores c n) = (0, 0)"
    using safe_invD(6) [OF assms(1) landingD(1) [OF assms(2)]] by (simp add: core_safe_def)
  from landed_safe [OF assms(2) this assms(5,3)] show "core_safe (set members) p n x" .
  show "log x = log (cores c n)" using landing_log [OF assms(2)] assms(4) by auto
  show "led c' = led c"
    using landingD(5) [OF assms(2)] assms(6) nd(4) by auto
  show "(n, current_term x, v) \<in> ballots c \<or> vote_ok (set members) p n (current_term x) v"
    if "voted_for x = Some v" for v
    using landing_vote [OF assms(2) that assms(7)] assms(8) [of v] that nd(3) by (auto simp: metadata_def)
  show "msg_ok (set members) p' (fst y) (snd y)" if "p' = moved p n (current_term x) (ballots c')"
    "proto_inv (set members) p'" "y \<in> set (concat (map (outgoing n d) ms))" for d y p'
    using that assms(9) landing_msgs [OF assms(2)] by blast
qed

text \<open>The state after a step that keeps the log, the commit index and the records of a leader.\<close>

lemma core_safe_same:
  assumes "core_safe M p n s" and "log s' = log s" and "base s' = base s" and "commit_index s' = commit_index s"
    and "last_applied s' = last_applied s" and "next_index s' = next_index s" and "match_index s' = match_index s"
    and "peers s' = peers s" and "state s' = Follower \<or> state s' = state s \<and> current_term s' = current_term s"
  shows "core_safe M p n s'"
  using assms by (auto simp: core_safe_def keyed_def records_ok_def)

lemma sends_log_moved [simp]: "sends_log M (moved p n t B) s = sends_log M p s"
  by (simp add: sends_log_def commit_ok_def)

lemma leader_sends_log:
  assumes "core_safe M p n s" and "state s = Leader" and "(current_term s, node_id s) \<in> p_led p"
  shows "sends_log M p s"
  using assms by (simp add: core_safe_def sends_log_def records_ok_def)

lemma check_msg_term_calm:
  assumes "check_msg_term rng t s = Some (pa, s1)"
  shows "log s1 = log s" and "base s1 = base s" and "commit_index s1 = commit_index s"
    and "last_applied s1 = last_applied s" and "next_index s1 = next_index s" and "match_index s1 = match_index s"
    and "peers s1 = peers s" and "node_id s1 = node_id s"
    and "state s1 = Follower \<or> state s1 = state s \<and> current_term s1 = current_term s"
    and "state s1 = Leader \<Longrightarrow> state s = Leader \<and> current_term s1 = current_term s"
    and "voted_for s1 = Some v \<Longrightarrow> voted_for s = Some v \<and> current_term s1 = current_term s"
    and "list_all (\<lambda>a. \<not> installs a) (opt_list pa)" and "concat (map (outgoing n d) (opt_list pa)) = []"
    and "PersistMetadata u w \<in> set (opt_list pa) \<Longrightarrow> w = None \<and> u = current_term s1"
    and "list_all (\<lambda>a. \<not> touches_log a) (opt_list pa)"
  using check_msg_term_Some [OF assms] by (auto simp: base_def opt_list_def)

section \<open>The operations that keep the log\<close>

lemma last_entry_term:
  assumes "base s = (0, 0)" and "last_log_term s = Some t"
  shows "t = end_term 0 (log s)" and "lli s = length (log s)"
  using assms by (auto simp: checked base_def end_term_def lli_def)

lemma quiet_no_metadata: "quiet a \<Longrightarrow> a \<noteq> PersistMetadata t v"
  by (auto simp: quiet_def)

lemma request_vote_safe:
  assumes "safe_inv members c p" and "landing members c n s' as x ms c'"
    and "(n, RequestVote r) \<in> set (sent c)" and "handle_request_vote rng r (cores c n) = Some (as, s')"
  shows "\<exists>p'. evolves p p' \<and> safe_inv members c' p'"
  using assms(4)
proof (cases rule: handle_request_vote_Some)
  case (rejected pa s)
  note k = check_msg_term_calm [OF rejected(1)]
  have "core_safe (set members) p n s"
    using safe_invD(6) [OF assms(1) landingD(1) [OF assms(2)]] by (rule core_safe_same) (use k in auto)
  then show ?thesis
    by (intro quiet_step [OF assms(1,2)]) (use rejected k in \<open>auto simp: vote_response_def metadata_def\<close>)
next
  case (granted pa s tm t)
  note k = check_msg_term_calm [OF granted(1)]
  note sf = safe_invD(6) [OF assms(1) landingD(1) [OF assms(2)]]
  have b: "base s = (0, 0)" using sf k by (simp add: core_safe_def)
  have "msg_ok (set members) p n (RequestVote r)" using safe_invD(7) [OF assms(1,3)] .
  with granted(2,5) last_entry_term [OF b granted(4)] k(1) safe_invD(2) [OF assms(1), of n]
  have "vote_ok (set members) p n (current_term s) (rv_candidate_id r)"
    by (auto simp: vote_ok_def up_to_date_def log_check_def)
  moreover have "core_safe (set members) p n s'"
    using sf by (rule core_safe_same) (use k granted(6) in \<open>auto simp: base_def\<close>)
  ultimately show ?thesis
  proof (intro quiet_step [OF assms(1,2)])
    show "v = None \<or> (u, v) = metadata s'" if "PersistMetadata u v \<in> set as" for u v
      using that k(14) granted(6,7) by (auto simp: vote_response_def metadata_def)
    show "state (cores c n) = Leader \<and> current_term s' = current_term (cores c n)" if "state s' = Leader"
      using that k(10) granted(6) by simp
  qed (use granted(6,7) k(1,12,13) in \<open>simp_all add: vote_response_def\<close>)
qed

lemma request_refused_safe:
  assumes "safe_inv members c p" and "landing members c n s' as x ms c'"
    and "check_msg_term rng t (cores c n) = Some (pa, s)" and "s' = s \<or> s' = following l tm s"
    and "as = opt_list pa @ [append_response l r]" and "\<not> aer_success r" and "aer_first_conflicting_index r \<noteq> Some 0"
    and "aer_id r = n" and "n \<noteq> l"
  shows "\<exists>p'. evolves p p' \<and> safe_inv members c' p'"
proof -
  note k = check_msg_term_calm [OF assms(3)]
  have "core_safe (set members) p n s'"
    using safe_invD(6) [OF assms(1) landingD(1) [OF assms(2)]]
    by (rule core_safe_same) (use k assms(4) in \<open>auto simp: base_def\<close>)
  then show ?thesis
    by (intro quiet_step [OF assms(1,2)])
      (use assms(4-9) k landingD(1) [OF assms(2)] in \<open>auto simp: append_response_def metadata_def\<close>)
qed

lemma conflict_response_index:
  assumes "conflict_response req s (base_response s0 k) = Some r"
  shows "\<not> aer_success r \<and> aer_first_conflicting_index r \<noteq> Some 0 \<and> aer_id r = node_id s0"
proof -
  have "find_conflict s t i \<noteq> Some 0" for t i using find_conflict_Some [of s t i 0] by simp
  with assms show ?thesis
    by (auto simp: conflict_response_def base_response_def opt_bind checked Let_def split: if_splits)
qed

lemma heartbeat_safe:
  assumes "safe_inv members c p" and "landing members c n s' as x ms c'" and "state (cores c n) = Leader"
    and "s = (cores c n)\<lparr>ticks_since_last_heartbeat := k\<rparr>" and "heartbeat s = Some (as, s')"
  shows "\<exists>p'. evolves p p' \<and> safe_inv members c' p'"
proof -
  note sf = safe_invD(6) [OF assms(1) landingD(1) [OF assms(2)]]
  note nd = landing_node [OF assms(2)]
  have "sends_log (set members) p (cores c n)"
    using leader_sends_log [OF sf assms(3)] nd(1,4) assms(3) safe_invD(4) [OF assms(1)] by simp
  then have sl: "sends_log (set members) p s" by (simp add: sends_log_def assms(4) base_def)
  have h: "as = [] \<or> append_entries s = Some as" and s': "\<exists>j. s' = (cores c n)\<lparr>ticks_since_last_heartbeat := j\<rparr>"
    using heartbeat_Some [OF assms(5)] by (auto simp: assms(4))
  have "core_safe (set members) p n s'" using sf by (rule core_safe_same) (use s' in \<open>auto simp: base_def\<close>)
  then show ?thesis
  proof (intro quiet_step [OF assms(1,2)])
    show "list_all (\<lambda>a. \<not> installs a) as" using h append_entries_untouched untouched_no_install by auto
    show "v = None \<or> (t, v) = metadata s'" if "PersistMetadata t v \<in> set as" for t v
      using that h append_entries_quiet [of s as] quiet_no_metadata by (auto simp: list_all_iff)
    show "msg_ok (set members) (moved p n t B) (fst y) (snd y)"
      if "y \<in> set (concat (map (outgoing n d) as))" "proto_inv (set members) (moved p n t B)" for d y t B
    proof -
      have "set (peers s) \<subseteq> set members - {node_id s}" using nd(1,2) by (simp add: assms(4))
      with that h sl append_entries_ok [OF that(2), of s as y n d] show ?thesis by auto
    qed
  qed (use s' in auto)
qed

lemma read_barrier_safe:
  assumes "safe_inv members c p" and "landing members c n s' as x ms c'"
    and "request_read_barrier (cores c n) = Some (r, s')" and "as = []"
  shows "\<exists>p'. evolves p p' \<and> safe_inv members c' p'"
proof -
  let ?s = "cores c n"
  have s': "s' = ?s \<or> (\<exists>i b. s' = ?s\<lparr>next_read_barrier_id := i, read_barriers := b\<rparr>)"
    using request_read_barrier_Some [OF assms(3)] by blast
  have "core_safe (set members) p n s'"
    using safe_invD(6) [OF assms(1) landingD(1) [OF assms(2)]] by (rule core_safe_same) (use s' in \<open>auto simp: base_def\<close>)
  then show ?thesis by (intro quiet_step [OF assms(1,2)]) (use s' assms(4) in auto)
qed

lemma idle_safe:
  assumes "safe_inv members c p" and "landing members c n s' as x ms c'" and "as = []"
    and "s' = (cores c n)\<lparr>ticks_since_last_heartbeat := k, votes_received := V\<rparr>"
  shows "\<exists>p'. evolves p p' \<and> safe_inv members c' p'"
proof -
  have "core_safe (set members) p n s'"
    using safe_invD(6) [OF assms(1) landingD(1) [OF assms(2)]]
    by (rule core_safe_same) (simp_all add: assms(4) base_def)
  then show ?thesis by (intro quiet_step [OF assms(1,2)]) (simp_all add: assms(3,4))
qed

lemma stepped_safe:
  assumes "safe_inv members c p" and "landing members c n s' as x ms c'"
    and "check_msg_term rng t (cores c n) = Some (pa, s')" and "as = opt_list pa"
  shows "\<exists>p'. evolves p p' \<and> safe_inv members c' p'"
proof -
  note k = check_msg_term_calm [OF assms(3)]
  have "core_safe (set members) p n s'"
    using safe_invD(6) [OF assms(1) landingD(1) [OF assms(2)]] by (rule core_safe_same) (use k in auto)
  then show ?thesis
  proof (intro quiet_step [OF assms(1,2)])
    show "v = None \<or> (u, v) = metadata s'" if "PersistMetadata u v \<in> set as" for u v
      using that k(14) assms(4) by blast
  qed (use k(1,10,11,12,13) assms(4) in auto)
qed

section \<open>Standing for election\<close>

lemma stand_safe:
  assumes "safe_inv members c p" and "landing members c n s' as x ms c'"
    and "s = (cores c n)\<lparr>ticks_since_last_heartbeat := k\<rparr>" and "s' = candidate_of tm s"
    and "rv_term req = current_term s + 1" and "rv_candidate_id req = node_id s"
    and "rv_last_log_index req = lli s" and "last_log_term s = Some (rv_last_log_term req)"
    and "as = PersistMetadata (current_term s + 1) (Some (node_id s)) #
             map (\<lambda>q. SendMessage q (RequestVote req)) (peers s)"
  shows "\<exists>p'. evolves p p' \<and> safe_inv members c' p'"
proof -
  let ?M = "set members" and ?t = "current_term (cores c n) + 1" and ?f = "log (cores c n)"
  note nd = landing_node [OF assms(2)] and n = landingD(1) [OF assms(2)] and v = safe_invD(1-4) [OF assms(1)]
  note sf = safe_invD(6) [OF assms(1) n]
  have b: "base s = (0, 0)" using sf by (simp add: core_safe_def assms(3) base_def)
  have s': "current_term s' = ?t" "metadata s' = (?t, Some n)" "log s' = ?f" "state s' = Candidate"
    using nd(1) by (simp_all add: assms(3,4) metadata_def)
  define p0 where "p0 = p\<lparr>p_cand := (p_cand p)(?t := (p_cand p ?t)(n := ?f))\<rparr>"
  have p0: "evolves p p0 \<and> proto_inv ?M p0"
    using prepare_inv [OF safe_invD(5) [OF assms(1)] n, of ?t p0] v by (simp add: p0_def)
  have sel: "p_term p0 = p_term p" "p_log p0 = p_log p" "p_votes p0 = p_votes p" "p_led p0 = p_led p"
    "p_lead p0 = p_lead p" "p_acks p0 = p_acks p" "p_cand p0 ?t n = ?f" by (simp_all add: p0_def)
  let ?p = "moved p0 n (current_term x) (ballots c')"
  have vote: "vote_ok ?M p0 n (current_term x) w" if "voted_for x = Some w" "(n, current_term x, w) \<notin> ballots c" for w
  proof -
    have "v = None \<or> (u, v) = metadata s'" if "PersistMetadata u v \<in> set as" for u v
      using that s'(2) nd(1) by (auto simp: assms(3,9))
    with landing_vote [OF assms(2) that(1)] that(2) have "metadata x = metadata s'" by blast
    with that(1) s' n sel v(2) show ?thesis by (simp add: vote_ok_def up_to_date_def metadata_def)
  qed
  have m: "evolves p0 ?p \<and> proto_inv ?M ?p"
  proof (rule moved_inv [where v = "voted_for x"])
    show "ballots c' = p_votes p0 \<union> (case voted_for x of None \<Rightarrow> {} | Some d \<Rightarrow> {(n, current_term x, d)})"
      using landingD(4) [OF assms(2)] sel v by simp
  qed (use p0 n vote sel v landing_meta(1) [OF assms(2)] in auto)
  have e: "evolves p ?p" using p0 m evolves_trans by blast
  have safe: "core_safe ?M ?p n x"
  proof (rule landed_safe [OF assms(2)])
    show "core_safe ?M ?p n s'"
      using sf s' sel by (simp add: core_safe_def assms(3,4) base_def keyed_def commit_ok_def chosen_def)
  qed (use sf in \<open>simp_all add: core_safe_def assms(9) list_all_iff\<close>)
  have msg: "msg_ok ?M ?p (fst y) (snd y)" if y: "y \<in> set (concat (map (outgoing n d) ms))" for d y
  proof -
    from landing_msgs [OF assms(2) y] obtain q where q: "y = (q, RequestVote req)" by (auto simp: assms(9))
    from landing_sent [OF assms(2) y] s' have "current_term x = ?t" by (simp add: metadata_def)
    with q last_entry_term [OF b assms(8)] assms(3,5-7) nd(1) n sel show ?thesis by simp
  qed
  have "safe_inv members c' ?p"
  proof (rule safe_inv_step [OF assms(1) landingD(9) [OF assms(2)] e _ landingD(2) [OF assms(2)]])
    show "msg_ok ?M ?p (fst y) (snd y)" if "y \<in> set (sent c')" "y \<notin> set (sent c)" for y
      using that landingD(3) [OF assms(2)] msg by (metis UnE set_append)
    show "p_log ?p = (p_log p)(n := log x)"
      using landing_log [OF assms(2)] s'(3) v(2) sel by (auto simp: fun_eq_iff)
    show "p_led ?p = led c'" using landingD(5) [OF assms(2)] s'(4) v(4) sel by simp
  qed (use m safe sel in simp_all)
  with e show ?thesis by blast
qed

lemma tick_safe:
  assumes "safe_inv members c p" and "landing members c n s' as x ms c'" and "tick rng (cores c n) = Some (as, s')"
  shows "\<exists>p'. evolves p p' \<and> safe_inv members c' p'"
proof -
  let ?s = "cores c n"
  let ?s1 = "?s\<lparr>ticks_since_last_heartbeat := ticks_since_last_heartbeat ?s + 1\<rparr>"
  from tick_cases [OF assms(3)] show ?thesis
  proof (elim disjE conjE)
    assume "state ?s = Leader" "heartbeat ?s1 = Some (as, s')"
    then show ?thesis using heartbeat_safe [OF assms(1,2)] by blast
  next
    assume "election_timeout_check rng ?s1 = Some (as, s')"
    from election_timeout_check_Some [OF this] show ?thesis
    proof (elim disjE conjE exE)
      assume "as = []" "s' = ?s1"
      then show ?thesis by (intro idle_safe [OF assms(1,2), where V = "votes_received ?s"]) simp_all
    qed (rule stand_safe [OF assms(1,2) refl]; assumption)
  qed
qed

section \<open>Creating an entry\<close>

lemma grown_step:
  assumes "safe_inv members c p" and "landing members c n s' as x ms c'"
    and "evolves p p1" and "proto_inv (set members) p1"
    and "p1 = p\<lparr>p_led := led c', p_lead := (p_lead p)(current_term s' := log s')\<rparr>"
    and "log s' = log (cores c n) @ [e]" and "current_term s' = current_term (cores c n)" and "state s' = Leader"
    and "ballots c' = ballots c"
    and "as = PersistLogEntries i es # msgs" and "append_entries s' = Some msgs"
    and "\<And>p'. evolves p1 p' \<Longrightarrow> p_lead p' = p_lead p1 \<Longrightarrow> core_safe (set members) p' n s'"
  shows "\<exists>p'. evolves p p' \<and> safe_inv members c' p'"
proof -
  let ?M = "set members" and ?t = "current_term s'"
  note n = landingD(1) [OF assms(2)] and v = safe_invD(1-4) [OF assms(1)] and nd = landing_node [OF assms(2)]
  have led: "(?t, n) \<in> led c'" using landingD(5) [OF assms(2)] assms(8) by simp
  have tx: "current_term x = ?t" using landing_meta(1,2) [OF assms(2)] assms(7) by simp
  have sel: "p_term p1 = p_term p" "p_log p1 = p_log p" "p_votes p1 = p_votes p" "p_acks p1 = p_acks p"
    "p_lead p1 ?t = log s'" "p_led p1 = led c'" by (simp_all add: assms(5))
  have "leads p1 ?t n" using proto_invD(6) [OF assms(4)] led sel by simp
  then have len: "length (p_cand p1 ?t n) < length (log s')" using sel by (auto simp: leads_def)
  define p' where "p' = (if log x = log s' then p1\<lparr>p_log := (p_log p1)(n := log s'),
      p_acks := p_acks p1 \<union> held n ?t (log s')\<rparr> else p1)"
  have pr: "\<not> prefix (log s') (p_log p1 n)" using assms(6) sel v(2) prefix_length_le by fastforce
  have "evolves p1 p' \<and> proto_inv ?M p'"
  proof (cases "log x = log s'")
    case True
    show ?thesis
      by (rule store_inv [OF assms(4) n, where t = ?t and d = n and l = "log s'" and f = "log s'"])
        (use True pr led len sel v(1) assms(7) in \<open>simp_all add: p'_def\<close>)
  next
    case False
    with assms(4) show ?thesis by (simp add: p'_def)
  qed
  then have e1: "evolves p1 p'" and i: "proto_inv ?M p'" by simp_all
  have e: "evolves p p'" using evolves_trans [OF assms(3) e1] .
  have sel': "p_lead p' = p_lead p1" "p_led p' = led c'" "p_term p' = p_term p" "p_votes p' = p_votes p"
    using sel by (simp_all add: p'_def)
  have safe: "core_safe ?M p' n s'" using assms(12) [OF e1 sel'(1)] .
  have nid: "node_id s' = n" "peers s' = peers (cores c n)"
    using landingD(6) [OF assms(2)] nd(1) by (simp_all add: op_contract_def same_config_def)
  have sl: "sends_log ?M p' s'" using leader_sends_log [OF safe assms(8)] led nid sel' by simp
  have untouched: "list_all (\<lambda>a. \<not> installs a) as"
    using append_entries_untouched [OF assms(11)] untouched_no_install by (simp add: assms(10))
  have base: "base (cores c n) = (0, 0)" using safe_invD(6) [OF assms(1) n] by (simp add: core_safe_def)
  have "safe_inv members c' p'"
  proof (rule safe_inv_step [OF assms(1) landingD(9) [OF assms(2)] e i landingD(2) [OF assms(2)]])
    show "msg_ok ?M p' (fst y) (snd y)" if y: "y \<in> set (sent c')" "y \<notin> set (sent c)" for y
    proof -
      from y landingD(3) [OF assms(2)] obtain d where "y \<in> set (concat (map (outgoing n d) ms))"
        by (metis UnE set_append)
      from landing_msgs [OF assms(2) this] have "y \<in> set (concat (map (outgoing n d) msgs))" by (simp add: assms(10))
      with append_entries_ok [OF i sl assms(11)] nid nd(2) show ?thesis by simp
    qed
    show "p_log p' = (p_log p)(n := log x)"
      using landing_log [OF assms(2)] v(2) sel(2) by (auto simp: p'_def fun_eq_iff)
    show "p_lead p' t \<noteq> p_lead p t \<Longrightarrow> (t, n) \<in> led c'" for t
      using led sel'(1) by (cases "t = ?t") (simp_all add: assms(5))
  qed (use sel' tx v assms(7,9) landed_safe [OF assms(2) base untouched safe] in \<open>simp_all add: fun_eq_iff\<close>)
  with e show ?thesis by blast
qed

lemma ballots_kept:
  assumes "landing members c n s' as x ms c'" and "\<And>t v. PersistMetadata t v \<in> set as \<Longrightarrow> v = None"
    and "\<And>v. voted_for s' = Some v \<Longrightarrow>
      voted_for (cores c n) = Some v \<and> current_term s' = current_term (cores c n)"
  shows "ballots c' = ballots c"
proof -
  have "(n, current_term x, v) \<in> ballots c" if "voted_for x = Some v" for v
    using landing_vote [OF assms(1) that]
  proof
    assume "metadata x = metadata s'"
    then have x: "voted_for s' = Some v" "current_term x = current_term s'" using that by (simp_all add: metadata_def)
    with assms(3) [OF x(1)] landing_node(3) [OF assms(1)] show ?thesis by simp
  qed (use assms(2) in auto)
  then show ?thesis using landingD(4) [OF assms(1)] by (auto split: option.splits)
qed

lemma propose_safe:
  assumes "safe_inv members c p" and "landing members c n s' as x ms c'"
    and "propose cmd (cores c n) = Some (r, s')" and "as = opt_list r"
  shows "\<exists>p'. evolves p p' \<and> safe_inv members c' p'"
proof (cases r)
  case None
  with assms(3) have "s' = cores c n" by (auto simp: propose_def opt_bind Let_def split: if_splits)
  with None assms(4) show ?thesis
    by (intro idle_safe [OF assms(1,2), where k = "ticks_since_last_heartbeat (cores c n)"
          and V = "votes_received (cores c n)"]) simp_all
next
  case (Some as0)
  let ?M = "set members" and ?s = "cores c n"
  let ?t = "current_term ?s" and ?e = "\<lparr>le_term = current_term ?s, le_command = cmd\<rparr>"
  note n = landingD(1) [OF assms(2)] and v = safe_invD(1-4) [OF assms(1)]
  note sf = safe_invD(6) [OF assms(1) n]
  from propose_Some [OF assms(3) [unfolded Some]] assms(4) Some obtain msgs where st: "state ?s = Leader"
    and s': "s' = ?s\<lparr>log := log ?s @ [?e], ticks_since_last_heartbeat := 0\<rparr>"
    and msgs: "append_entries s' = Some msgs" and as: "as = PersistLogEntries (lli ?s + 1) [?e] # msgs" by auto
  have led: "(?t, n) \<in> led c" using landing_node(4) [OF assms(2) st] .
  have lead: "p_lead p ?t = log ?s" and rec: "records_ok p ?s" using sf st by (simp_all add: core_safe_def)
  let ?p1 = "p\<lparr>p_lead := (p_lead p)(?t := p_lead p ?t @ [?e])\<rparr>"
  have c: "evolves p ?p1 \<and> proto_inv ?M ?p1"
    using create_inv [OF safe_invD(5) [OF assms(1)], of ?t n ?e ?p1] led v(4) by simp
  show ?thesis
  proof (rule grown_step [OF assms(1,2), of ?p1])
    show "?p1 = p\<lparr>p_led := led c', p_lead := (p_lead p)(current_term s' := log s')\<rparr>"
      using landingD(5) [OF assms(2)] led lead s' v(4) by (simp add: insert_absorb)
    show "ballots c' = ballots c"
      using quiet_no_metadata append_entries_quiet [OF msgs]
      by (intro ballots_kept [OF assms(2)]) (auto simp: as s' list_all_iff)
    fix p' assume p': "evolves ?p1 p'" "p_lead p' = p_lead ?p1"
    have "evolves p p'" using c p'(1) evolves_trans by blast
    then have "commit_ok ?M p' (log s') (commit_index ?s)" and "records_ok p' ?s"
      using sf rec commit_ok_mono records_ok_mono by (auto simp: core_safe_def s')
    moreover have "records_ok p' s'"
    proof -
      have "k \<le> length (log s') \<and> (\<forall>j<k. has (log s') j ?t \<longrightarrow> (q, j, ?t) \<in> p_acks p')"
        if "(q, k) \<in> set (match_index ?s)" for q k
      proof -
        from that \<open>records_ok p' ?s\<close> have "k \<le> length (log ?s)"
          "\<forall>j<k. has (log ?s) j ?t \<longrightarrow> (q, j, ?t) \<in> p_acks p'" by (auto simp: records_ok_def)
        moreover have "has (log ?s) j ?t" if "j < k" "has (log s') j ?t" for j
          using that \<open>k \<le> length (log ?s)\<close> by (simp add: s' has_def nth_append)
        ultimately show ?thesis by (auto simp: s')
      qed
      with \<open>records_ok p' ?s\<close> show ?thesis by (simp add: records_ok_def s')
    qed
    ultimately show "core_safe ?M p' n s'"
      using sf p'(2) lead st by (simp add: core_safe_def s' base_def keyed_def)
  qed (use c s' st as msgs in simp_all)
qed

lemma elected_safe:
  assumes "safe_inv members c p" and "landing members c n s' as x ms c'" and "state (cores c n) = Candidate"
    and "s1 = (cores c n)\<lparr>votes_received := V\<rparr>" and "become_leader rng s1 = Some (as, s')"
  shows "\<exists>p'. evolves p p' \<and> safe_inv members c' p'"
proof -
  let ?M = "set members" and ?s = "cores c n"
  let ?t = "current_term ?s" and ?e = "\<lparr>le_term = current_term ?s, le_command = []\<rparr>"
  note n = landingD(1) [OF assms(2)] and v = safe_invD(1-4) [OF assms(1)]
  note sf = safe_invD(6) [OF assms(1) n]
  define s2 where "s2 = s1\<lparr>state := Leader, current_leader := Some (node_id s1), log := log s1 @ [?e]\<rparr>"
  from become_leader_Some [OF assms(5)] obtain tm msgs where msgs: "append_entries s' = Some msgs"
    and as: "as = PersistLogEntries (lli s1 + 1) [?e] # msgs"
    and s': "s' = (init_peers (lli s1 + 2) (peers s1) s2)\<lparr>ticks_since_last_heartbeat := 0, election_timeout := tm\<rparr>"
    by (auto simp: s2_def assms(4))
  have f: "log s' = log ?s @ [?e]" "current_term s' = ?t" "state s' = Leader" "voted_for s' = voted_for ?s"
    "base s' = base ?s" "commit_index s' = commit_index ?s" "last_applied s' = last_applied ?s" "peers s' = peers ?s"
    by (simp_all add: s' s2_def assms(4) base_def)
  have led: "(?t, n) \<in> led c'" using landingD(5) [OF assms(2)] f by simp
  have fresh: "\<forall>y. (?t, y) \<notin> led c"
  proof
    fix y
    have "(?t, n) \<notin> led c" using landingD(11) [OF assms(2)] n assms(3) by (auto simp: led_inv_def)
    moreover have "(?t, y) \<in> led c \<Longrightarrow> y = n"
      using landingD(5) [OF assms(2)] by (intro landingD(12) [OF assms(2) _ led]) simp
    ultimately show "(?t, y) \<notin> led c" by blast
  qed
  have bal: "ballots c' = ballots c"
    using quiet_no_metadata append_entries_quiet [OF msgs]
    by (intro ballots_kept [OF assms(2)]) (auto simp: as f list_all_iff)
  have maj: "majority_of ?M {w. (w, ?t, n) \<in> ballots c}"
    using landingD(10) [OF assms(2)] led bal by (simp add: cluster_inv_def votes_inv_def)
  have cand: "p_cand p ?t n = log ?s" using sf assms(3) by (simp add: core_safe_def)
  let ?p1 = "p\<lparr>p_led := insert (?t, n) (p_led p), p_lead := (p_lead p)(?t := p_cand p ?t n @ [?e])\<rparr>"
  have c: "evolves p ?p1 \<and> proto_inv ?M ?p1"
    using elect_inv [OF safe_invD(5) [OF assms(1)] n, of ?t ?e ?p1] fresh maj v by simp
  have k: "keyed s2" "peers s2 = peers s1" using sf by (simp_all add: core_safe_def keyed_def s2_def assms(4))
  note ip = init_peers_entries [OF k, of "lli s1 + 2"]
  have ks: "keyed s'" using ip(1) by (simp add: s' keyed_def)
  have rec: "records_ok p' s'" for p'
  proof -
    have "q \<in> fst ` set (match_index s')" if "q \<in> set (peers s')" for q
      using that init_peers_match [of "lli s1 + 2" "peers s1" s2 q] map_of_SomeD
      by (force simp: s' k(2) assms(4) s2_def)
    with ks have "fst ` set (match_index s') = set (peers s')" by (auto simp: keyed_def)
    moreover have "j = 0" if "(q, j) \<in> set (match_index s')" for q j
      using that ip(3) by (auto simp: s' list_all_iff)
    moreover have "1 \<le> j" if "map_of (next_index s') q = Some j" for q j
      using that ip(2) by (auto simp: s' list_all_iff dest!: map_of_SomeD)
    ultimately show ?thesis unfolding records_ok_def by blast
  qed
  show ?thesis
  proof (rule grown_step [OF assms(1,2), of ?p1])
    show "?p1 = p\<lparr>p_led := led c', p_lead := (p_lead p)(current_term s' := log s')\<rparr>"
      using landingD(5) [OF assms(2)] f cand v(4) by simp
    fix p' assume p': "evolves ?p1 p'" "p_lead p' = p_lead ?p1"
    have "evolves p p'" using c p'(1) evolves_trans by blast
    then have "commit_ok ?M p' (log s') (commit_index s')"
      using sf commit_ok_mono f by (auto simp: core_safe_def)
    with sf p'(2) cand f rec ks show "core_safe ?M p' n s'" by (simp add: core_safe_def)
  qed (use c f bal as msgs in simp_all)
qed

section \<open>Accepting entries\<close>

text \<open>The log of a follower that has stored a prefix \<open>l\<close> of the leader's log.\<close>

lemma stored_log:
  assumes "proto_inv M p" and "(t, d) \<in> p_led p" and "prefix l (p_lead p t)" and "length (p_cand p t d) < length l"
    and "traced (p_lead p) g" and "\<forall>e\<in>set g. le_term e \<le> t" and "f = (if prefix l g then g else l)"
  shows "prefix l f" and "length f \<le> length (p_lead p t)"
    and "j < length f \<Longrightarrow> has (p_lead p t) j t \<Longrightarrow> has f j t"
proof -
  show "prefix l f" using assms(7) by simp
  note ld = leads_has(1) [OF proto_invD(6) [OF assms(1,2)] proto_invD(2) [OF assms(1)], of "length l - 1"]
  have "length (p_cand p t d) \<le> length l - 1 \<and> length l - 1 < length (p_lead p t)"
    using assms(4) prefix_length_le [OF assms(3)] by linarith
  then have "has (p_lead p t) (length l - 1) t" using ld by blast
  moreover have "length l - 1 < length l" using assms(4) by linarith
  ultimately have l: "has l (length l - 1) t" using has_prefix_iff [OF assms(3)] by blast
  have beyond: "has g i t" if "prefix l g" "length l \<le> i" "i < length g" for i
  proof -
    have u: "has g i (le_term (g ! i))" using that(3) by (simp add: has_def)
    from traced_terms [OF assms(1,5) has_prefix [OF that(1) l] u] that(2) have "t \<le> le_term (g ! i)" by simp
    moreover have "le_term (g ! i) \<le> t" using assms(6) that(3) by simp
    ultimately show ?thesis using u by simp
  qed
  show "length f \<le> length (p_lead p t)"
  proof (cases "prefix l g \<and> length l < length g")
    case True
    then have "length l \<le> length g - 1" "length g - 1 < length g" by linarith+
    with True beyond have "has g (length g - 1) t" by blast
    from traced_in_lead [OF assms(5) this] True assms(7) show ?thesis by (auto simp: has_def)
  next
    case False
    then have "length f \<le> length l" using assms(7) by auto
    with prefix_length_le [OF assms(3)] show ?thesis by simp
  qed
  assume j: "j < length f" "has (p_lead p t) j t"
  show "has f j t"
  proof (cases "j < length l")
    case True
    with has_prefix_iff [OF assms(3)] j(2) have "has l j t" by blast
    with has_prefix [of l f] assms(7) show ?thesis by auto
  next
    case False
    with j(1) assms(7) beyond show ?thesis by (auto split: if_splits)
  qed
qed

lemma valid_take:
  assumes "request_ok M p req l" and "ae_valid req s = Some True" and "last_included_index s = 0"
    and "traced L (log s)" and "traced L l"
  shows "take (ae_prev_log_index req) (log s) = take (ae_prev_log_index req) l"
    and "ae_prev_log_index req \<le> length (log s)"
proof -
  let ?n = "ae_prev_log_index req"
  have "take ?n (log s) = take ?n l \<and> ?n \<le> length (log s)"
  proof (cases "?n = 0")
    case False
    with assms(2) have v: "?n \<le> lli s" "log_term_at s ?n = Some (ae_prev_log_term req)"
      by (auto simp: ae_valid_def opt_bind checked)
    from has_log_term [OF assms(3) _ v(2)] False have h: "has (log s) (?n - 1) (ae_prev_log_term req)" by simp
    have "has l (?n - 1) (ae_prev_log_term req)" using assms(1) False by (simp add: request_ok_def)
    from traced_match [OF assms(4,5) h this] False v(1) assms(3) show ?thesis by (simp add: lli_def)
  qed simp
  then show "take ?n (log s) = take ?n l" and "?n \<le> length (log s)" by simp_all
qed

lemma append_new_entries_stores:
  assumes "append_new_entries req s = Some (as, s')" and "request_ok M p req l" and "ae_valid req s = Some True"
    and "last_included_index s = 0" and "traced L (log s)" and "traced L l"
  shows "log s' = (if prefix l (log s) then log s else l)" and "map snd (disk_replay as (log_frames s)) = log s'"
proof -
  let ?n = "ae_prev_log_index req"
  note t = valid_take [OF assms(2-6)]
  have r: "?n \<le> length l" "ae_entries req = drop ?n l" using assms(2) by (simp_all add: request_ok_def)
  from assms(1) have l: "append_loop (?n + 1) (drop ?n l) s = Some s'"
    by (auto simp: append_new_entries_def opt_bind checked r(2) split: if_splits)
  show log: "log s' = (if prefix l (log s) then log s else l)"
    by (rule append_loop_stores [OF l assms(4) t(2) r(1) t(1) assms(5,6)])
  from append_loop_frame [OF l] obtain X where "s' = s\<lparr>log := X\<rparr>" by blast
  then have f: "last_included_index s' = 0" using assms(4) by simp
  have as: "as = [] \<and> drop ?n l = [] \<or>
      (\<exists>ys. as = [PersistLogEntries (?n + 1) ys] \<and> log_slice s' (?n + 1) (lli s' + 1) = Some ys)"
    using assms(1) l by (auto simp: append_new_entries_def opt_bind checked r(2) split: if_splits)
  show "map snd (disk_replay as (log_frames s)) = log s'"
    using as
  proof (elim disjE conjE exE)
    assume "as = []" "drop ?n l = []"
    with l show ?thesis by simp
  next
    fix ys assume ys: "as = [PersistLogEntries (?n + 1) ys]" "log_slice s' (?n + 1) (lli s' + 1) = Some ys"
    have n: "?n \<le> lli s'" "take ?n (log s') = take ?n (log s)" using log r(1) t f by (simp_all add: lli_def)
    with ys(2) f log_slice_tail [of s' "?n + 1"] have "ys = drop ?n (log s')" by simp
    with ys(1) n disk_step_tail [of s ?n s'] assms(4) f show ?thesis by simp
  qed
qed

text \<open>The commit index of a follower that has stored the request: its own or that of the request.\<close>

lemma follower_commit_moves:
  assumes "follower_commit lc s = Some (a, s')" and "lc \<le> lli s"
  shows "commit_index s' = commit_index s \<and> last_applied s' = last_applied s \<or>
     commit_index s' = lc \<and> last_applied s' = lc"
  using assms by (auto simp: follower_commit_def opt_bind checked Let_def min_def split: if_splits)

lemma commit_ok_le: "commit_ok M p f k \<Longrightarrow> k \<le> length f"
  by (auto simp: commit_ok_def has_def)

text \<open>What is committed stays in the log when the entries of a leader are stored.\<close>

lemma commit_ok_stored:
  assumes "proto_inv M p" and "n \<in> M" and "(p_term p n, d) \<in> p_led p" and "prefix l (p_lead p (p_term p n))"
    and "length (p_cand p (p_term p n) d) < length l" and "commit_ok M p (p_log p n) k"
  shows "commit_ok M p (if prefix l (p_log p n) then p_log p n else l) k"
proof (cases "k = 0")
  case False
  with assms(6) obtain t where t: "has (p_log p n) (k - 1) t" "chosen M p (k - 1) t" by (auto simp: commit_ok_def)
  have le: "t \<le> p_term p n"
    using proto_invD(1) [OF assms(1,2)] has_nth [OF t(1)] by (auto simp: node_ok_def)
  from store_keeps [OF assms(1-5) t(1) le] chosen_not_lacking [OF assms(1) t(2)]
  have "has (if prefix l (p_log p n) then p_log p n else l) (k - 1) t" by blast
  with t(2) show ?thesis unfolding commit_ok_def by blast
qed (simp add: commit_ok_def)

text \<open>Nothing but the last action of an accepted request sends; after it the disk holds the new log.\<close>

lemma accepted_sent:
  assumes "landing members c n s' (zs @ [a]) x ms c'" and "list_all (\<lambda>a. \<not> is_send a) zs"
    and "map snd (disk_replay (zs @ [a]) (log_frames (cores c n))) = log s'"
    and "y \<in> set (concat (map (outgoing n d) ms))"
  shows "log x = log s'"
proof (cases "x = s'")
  case False
  from landing_crashed [OF assms(1) False] obtain k where k: "ms = take k (zs @ [a])"
    "log x = map snd (disk_replay ms (log_frames (cores c n)))" by blast
  from assms(4) obtain b where b: "b \<in> set ms" "is_send b" by (auto dest: outgoing_is_send)
  have "length zs < k"
  proof (rule ccontr)
    assume "\<not> length zs < k"
    with k(1) b(1) have "b \<in> set zs" by (auto dest: in_set_takeD)
    with b(2) assms(2) show False by (auto simp: list_all_iff)
  qed
  then have "ms = zs @ [a]" using k(1) by simp
  with k(2) assms(3) show ?thesis by simp
qed simp

lemma apply_actions_no_send [simp]: "list_all (\<lambda>a. \<not> is_send a) (apply_actions b es)"
  by (auto simp: apply_actions_def list_all_iff)

lemma accept_effect:
  assumes "accept_append_entries req s = Some (bs, s')" and "request_ok M p req l" and "ae_valid req s = Some True"
    and "base s = (0, 0)" and "traced L (log s)" and "traced L l"
  obtains zs where "bs = zs @ [append_response (ae_leader_id req) (success_response s' (lli s'))]"
    "list_all (\<lambda>a. \<not> is_send a \<and> \<not> persists_metadata a \<and> \<not> installs a) zs"
    "log s' = (if prefix l (log s) then log s else l)" "map snd (disk_replay bs (log_frames s)) = log s'"
    "commit_index s' = commit_index s \<and> last_applied s' = last_applied s \<or>
     commit_index s' = ae_leader_commit req \<and> last_applied s' = ae_leader_commit req"
    "\<exists>X k j. s' = s\<lparr>log := X, commit_index := k, last_applied := j\<rparr>"
proof -
  have b: "last_included_index s = 0" using assms(4) by (simp add: base_def)
  from accept_append_entries_Some [OF assms(1)] obtain q s1 a where q: "append_new_entries req s = Some (q, s1)"
    and a: "follower_commit (ae_leader_commit req) s1 = Some (a, s')"
    and m: "bs = q @ a @ [append_response (ae_leader_id req) (success_response s' (lli s'))]" .
  note st = append_new_entries_stores [OF q assms(2,3) b assms(5,6)]
  from append_new_entries_frame [OF q] obtain X where s1: "s1 = s\<lparr>log := X\<rparr>" by blast
  from follower_commit_frame [OF a] obtain k j where s': "s' = s1\<lparr>commit_index := k, last_applied := j\<rparr>"
    and u: "list_all (\<lambda>a. \<not> touches_log a) a" by blast
  have pre: "prefix l (log s1)" using st(1) by simp
  have "ae_leader_commit req \<le> length l" using assms(2) commit_ok_le by (auto simp: request_ok_def)
  with prefix_length_le [OF pre] have le: "ae_leader_commit req \<le> lli s1" by (simp add: lli_def)
  have sq: "list_all (\<lambda>a. \<not> is_send a \<and> \<not> persists_metadata a \<and> \<not> installs a) q"
    using q by (auto simp: append_new_entries_def opt_bind split: if_splits)
  have sa: "list_all (\<lambda>a. \<not> is_send a \<and> \<not> persists_metadata a \<and> \<not> installs a) a"
    using follower_commit_applies [OF a] by (auto simp: apply_actions_def list_all_iff)
  have "map snd (disk_replay bs (log_frames s)) = log s'"
    using st(2) u by (simp add: m s' disk_replay_untouched append_response_def)
  moreover have "\<exists>X k j. s' = s\<lparr>log := X, commit_index := k, last_applied := j\<rparr>" using s1 s' by auto
  moreover have "log s' = (if prefix l (log s) then log s else l)" using st(1) s' by simp
  moreover note follower_commit_moves [OF a le]
  ultimately show thesis using that [of "q @ a"] m sq sa s1 by simp
qed

text \<open>What a follower is after it has accepted the request, apart from crashes.\<close>

definition stores_request :: "NodeId set \<Rightarrow> proto \<Rightarrow> RaftCore \<Rightarrow> RaftCore \<Rightarrow> AppendEntriesRPC \<Rightarrow> LogEntry list \<Rightarrow> bool" where
  "stores_request M p s s' req l \<longleftrightarrow>
     request_ok M p req l \<and> current_term s \<le> current_term s' \<and> current_term s' = ae_term req \<and>
     log s' = (if prefix l (log s) then log s else l) \<and> state s' = Follower \<and> base s' = (0, 0) \<and>
     node_id s' = node_id s \<and> peers s' = peers s \<and> match_index s' = match_index s \<and> next_index s' = next_index s \<and>
     (voted_for s' \<noteq> None \<longrightarrow> voted_for s' = voted_for s \<and> current_term s' = current_term s) \<and>
     (commit_index s' = commit_index s \<and> last_applied s' = last_applied s \<or>
      commit_index s' = ae_leader_commit req \<and> last_applied s' = ae_leader_commit req)"

lemma node_log_ok:
  assumes "safe_inv members c p" and "n \<in> set members"
  shows "traced (p_lead p) (log (cores c n))" and "\<forall>e\<in>set (log (cores c n)). le_term e \<le> current_term (cores c n)"
  using proto_invD(1) [OF safe_invD(5) [OF assms(1)] assms(2)] safe_invD(1,2) [OF assms(1)]
  by (simp_all add: node_ok_def)

lemma request_log_ok:
  assumes "proto_inv M p" and "request_ok M p req l"
  shows "(ae_term req, ae_leader_id req) \<in> p_led p" and "prefix l (p_lead p (ae_term req))"
    and "length (p_cand p (ae_term req) (ae_leader_id req)) < length l" and "commit_ok M p l (ae_leader_commit req)"
    and "traced (p_lead p) l"
  using assms(2) traced_prefix [OF lead_traced [OF assms(1)]] by (auto simp: request_ok_def)

lemma accepted_stores:
  assumes "safe_inv members c p" and "n \<in> set members" and "request_ok (set members) p req l"
    and "check_msg_term rng (ae_term req) (cores c n) = Some (pa, s)" and "ae_term req = current_term s"
    and "ae_valid req (following (ae_leader_id req) tm s) = Some True"
    and "accept_append_entries req (following (ae_leader_id req) tm s) = Some (bs, s')"
  obtains zs where "bs = zs @ [append_response (ae_leader_id req) (success_response s' (lli s'))]"
    "list_all (\<lambda>a. \<not> is_send a \<and> \<not> persists_metadata a \<and> \<not> installs a) zs"
    "map snd (disk_replay bs (log_frames (cores c n))) = log s'"
    "stores_request (set members) p (cores c n) s' req l"
proof -
  let ?f = "following (ae_leader_id req) tm s"
  note sf = safe_invD(6) [OF assms(1,2)] and k = check_msg_term_calm [OF assms(4)]
  have fl: "log ?f = log (cores c n)" "base ?f = (0, 0)" "log_frames ?f = log_frames (cores c n)"
    using k sf by (auto simp: core_safe_def base_def log_frames_def)
  have trf: "traced (p_lead p) (log ?f)" using node_log_ok(1) [OF assms(1,2)] fl(1) by simp
  from accept_effect [OF assms(7,3,6) fl(2) trf request_log_ok(5) [OF safe_invD(5) [OF assms(1)] assms(3)], unfolded fl(1,3)]
  obtain zs where bs: "bs = zs @ [append_response (ae_leader_id req) (success_response s' (lli s'))]"
    and z: "list_all (\<lambda>a. \<not> is_send a \<and> \<not> persists_metadata a \<and> \<not> installs a) zs"
    and log: "log s' = (if prefix l (log (cores c n)) then log (cores c n) else l)"
    and disk: "map snd (disk_replay bs (log_frames (cores c n))) = log s'"
    and ci: "commit_index s' = commit_index ?f \<and> last_applied s' = last_applied ?f \<or>
      commit_index s' = ae_leader_commit req \<and> last_applied s' = ae_leader_commit req"
    and fr: "\<exists>X k j. s' = ?f\<lparr>log := X, commit_index := k, last_applied := j\<rparr>"
    by blast
  have up: "current_term (cores c n) \<le> current_term s" using check_msg_term_Some [OF assms(4)] by auto
  have s': "current_term s' = current_term s" "state s' = Follower" "voted_for s' = voted_for s"
    "node_id s' = node_id s" "base s' = base ?f" "peers s' = peers s" "match_index s' = match_index s"
    "next_index s' = next_index s" using fr by (auto simp: base_def)
  have "voted_for s \<noteq> None \<longrightarrow> voted_for s = voted_for (cores c n) \<and> current_term s = current_term (cores c n)"
    using k(11) by (cases "voted_for s") auto
  with s' up ci log fl(2) k(3-8) assms(3,5) have "stores_request (set members) p (cores c n) s' req l"
    by (simp add: stores_request_def)
  with bs z disk that show thesis by blast
qed

lemma stores_commit:
  assumes "safe_inv members c p" and "n \<in> set members" and "stores_request (set members) p (cores c n) s' req l"
  shows "commit_ok (set members) p (log s') (commit_index s')"
proof (cases "commit_index s' = commit_index (cores c n)")
  case True
  let ?M = "set members" and ?s = "cores c n"
  let ?p = "moved p n (current_term s') (p_votes p)"
  note pi = safe_invD(5) [OF assms(1)] and v = safe_invD(1,2) [OF assms(1)]
  have r: "request_ok ?M p req l" and up: "current_term ?s \<le> current_term s'" and t: "current_term s' = ae_term req"
    and log: "log s' = (if prefix l (log ?s) then log ?s else l)" using assms(3) by (simp_all add: stores_request_def)
  have "evolves p ?p \<and> proto_inv ?M ?p"
    using up v by (intro moved_inv [OF pi assms(2), where v = None]) simp_all
  then have i: "proto_inv ?M ?p" by blast
  have q: "p_term ?p n = current_term s'" "p_log ?p n = log ?s" using v by simp_all
  have "commit_ok ?M ?p (log ?s) (commit_index ?s)"
    using safe_invD(6) [OF assms(1,2)] by (simp add: core_safe_def commit_ok_def)
  from commit_ok_stored [OF i assms(2), unfolded q, of "ae_leader_id req" l, OF _ _ _ this] request_log_ok(1-3) [OF pi r]
  have "commit_ok ?M ?p (log s') (commit_index ?s)" by (simp add: log t)
  with True show ?thesis by (simp add: commit_ok_def)
next
  case False
  with assms(3) have "commit_index s' = ae_leader_commit req" "prefix l (log s')"
    and r: "request_ok (set members) p req l" by (auto simp: stores_request_def)
  with commit_ok_mono [OF request_log_ok(4) [OF safe_invD(5) [OF assms(1)] r] evolves_refl] show ?thesis by simp
qed

lemma stores_answer:
  assumes "safe_inv members c p" and "n \<in> set members" and "node_id (cores c n) = n" and "n \<noteq> ae_leader_id req"
    and "stores_request (set members) p (cores c n) s' req l"
    and "p_lead p' = p_lead p" and "p_led p' = p_led p" and "held n (current_term s') (log s') \<subseteq> p_acks p'"
  shows "msg_ok (set members) p' (ae_leader_id req) (AppendEntriesResponse (success_response s' (lli s')))"
proof -
  note pi = safe_invD(5) [OF assms(1)]
  have r: "request_ok (set members) p req l" and t: "current_term s' = ae_term req"
    and log: "log s' = (if prefix l (log (cores c n)) then log (cores c n) else l)"
    and f: "node_id s' = n" "lli s' = length (log s')" and up: "current_term (cores c n) \<le> ae_term req"
    using assms(3,5) by (simp_all add: stores_request_def lli_def base_def)
  have le: "\<forall>e\<in>set (log (cores c n)). le_term e \<le> ae_term req" using node_log_ok(2) [OF assms(1,2)] up by auto
  note sl = stored_log [OF pi request_log_ok(1-3) [OF pi r] node_log_ok(1) [OF assms(1,2)] le log]
  have "(n, j, ae_term req) \<in> p_acks p'" if "j < length (log s')" "has (p_lead p (ae_term req)) j (ae_term req)" for j
    using assms(8) sl(3) [OF that] t by (auto simp: held_def)
  with f t assms(2,4,6,7) sl(2) request_log_ok(1) [OF pi r] show ?thesis by (simp add: success_response_def)
qed

lemma accepted_safe:
  assumes "safe_inv members c p" and "landing members c n s' as x ms c'" and "n \<noteq> ae_leader_id req"
    and "stores_request (set members) p (cores c n) s' req l" and "\<And>w u. PersistMetadata w u \<in> set as \<Longrightarrow> u = None"
    and "log x = log (cores c n) \<or> log x = log s' \<and> metadata x = metadata s'" and "list_all (\<lambda>a. \<not> installs a) as"
    and "\<And>y d. y \<in> set (concat (map (outgoing n d) ms)) \<Longrightarrow> log x = log s' \<and>
      y = (ae_leader_id req, AppendEntriesResponse (success_response s' (lli s')))"
  shows "\<exists>p'. evolves p p' \<and> safe_inv members c' p'"
proof -
  let ?M = "set members" and ?s = "cores c n" and ?t = "current_term s'"
  note n = landingD(1) [OF assms(2)] and v = safe_invD(1-4) [OF assms(1)] and nd = landing_node [OF assms(2)]
  note sf = safe_invD(6) [OF assms(1) n] and pi = safe_invD(5) [OF assms(1)]
  have r: "request_ok ?M p req l" and t: "?t = ae_term req" and log: "log s' = (if prefix l (log ?s) then log ?s else l)"
    using assms(4) by (simp_all add: stores_request_def)
  have bal: "ballots c' = ballots c"
    using assms(4,5) by (intro ballots_kept [OF assms(2)]) (auto simp: stores_request_def)
  have led: "led c' = led c" using landingD(5) [OF assms(2)] assms(4) by (simp add: stores_request_def)
  define stored where "stored \<longleftrightarrow> log x = log s' \<and> current_term x = ?t"
  have other: "log x = log ?s" if "\<not> stored" using that assms(6) by (auto simp: stored_def metadata_def)
  let ?p1 = "moved p n (current_term x) (ballots c')"
  have m: "evolves p ?p1 \<and> proto_inv ?M ?p1"
    using landing_meta(1) [OF assms(2)] v bal by (intro moved_inv [OF pi n, where v = None]) simp_all
  define p' where "p' = (if stored then ?p1\<lparr>p_log := (p_log ?p1)(n := log s'),
      p_acks := p_acks ?p1 \<union> held n ?t (log s')\<rparr> else ?p1)"
  have "evolves ?p1 p' \<and> proto_inv ?M p'"
  proof (cases stored)
    case True
    show ?thesis
      by (rule store_inv [where d = "ae_leader_id req" and l = l and f = "log s'" and t = ?t])
        (use m n True request_log_ok(1-3) [OF pi r] log t v in \<open>simp_all add: p'_def stored_def\<close>)
  qed (use m in \<open>simp add: p'_def\<close>)
  then have e: "evolves p p'" and i: "proto_inv ?M p'" using m evolves_trans by blast+
  have sel: "p_lead p' = p_lead p" "p_led p' = p_led p" "p_votes p' = ballots c'"
    "p_term p' = (p_term p)(n := current_term x)" "stored \<Longrightarrow> held n ?t (log s') \<subseteq> p_acks p'"
    by (auto simp: p'_def)
  have safe: "core_safe ?M p' n s'"
    using sf assms(4) commit_ok_mono [OF stores_commit [OF assms(1) n assms(4)] e]
    by (auto simp: core_safe_def keyed_def stores_request_def)
  have "safe_inv members c' p'"
  proof (rule safe_inv_step [OF assms(1) landingD(9) [OF assms(2)] e i landingD(2) [OF assms(2)]])
    show "msg_ok ?M p' (fst y) (snd y)" if y: "y \<in> set (sent c')" "y \<notin> set (sent c)" for y
    proof -
      from y landingD(3) [OF assms(2)] obtain d where d: "y \<in> set (concat (map (outgoing n d) ms))"
        by (metis UnE set_append)
      note a = assms(8) [OF d]
      with landing_sent [OF assms(2) d] have stored by (simp add: stored_def metadata_def)
      from stores_answer [OF assms(1) n nd(1) assms(3,4) sel(1,2) sel(5) [OF this]] a show ?thesis by simp
    qed
    show "p_log p' = (p_log p)(n := log x)" using other v(2) by (auto simp: p'_def stored_def fun_eq_iff)
    show "core_safe ?M p' n x"
      using landed_safe [OF assms(2) _ assms(7) safe] sf by (simp add: core_safe_def)
  qed (use sel led v in simp_all)
  with e show ?thesis by blast
qed

lemma accepted_request_safe:
  assumes "safe_inv members c p" and "landing members c n s' as x ms c'"
    and "(n, AppendEntries req) \<in> set (sent c)"
    and "check_msg_term rng (ae_term req) (cores c n) = Some (pa, s)" and "ae_term req = current_term s"
    and "ae_valid req (following (ae_leader_id req) tm s) = Some True"
    and "accept_append_entries req (following (ae_leader_id req) tm s) = Some (bs, s')"
    and "as = opt_list pa @ bs"
  shows "\<exists>p'. evolves p p' \<and> safe_inv members c' p'"
proof -
  let ?d = "ae_leader_id req"
  let ?answer = "append_response ?d (success_response s' (lli s'))"
  note n = landingD(1) [OF assms(2)] and k = check_msg_term_calm [OF assms(4)]
  from safe_invD(7) [OF assms(1,3)] obtain l where d: "n \<noteq> ?d" and rq: "request_ok (set members) p req l" by auto
  obtain zs where bs: "bs = zs @ [?answer]"
    and z: "list_all (\<lambda>a. \<not> is_send a \<and> \<not> persists_metadata a \<and> \<not> installs a) zs"
    and disk: "map snd (disk_replay bs (log_frames (cores c n))) = log s'"
    and st: "stores_request (set members) p (cores c n) s' req l"
    by (rule accepted_stores [OF assms(1) n rq assms(4-7)])
  have as: "as = (opt_list pa @ zs) @ [?answer]" by (simp add: assms(8) bs)
  have quiet: "list_all (\<lambda>a. \<not> is_send a) (opt_list pa @ zs)"
    using z check_msg_term_Some [OF assms(4)] by (auto simp: list_all_iff opt_list_def)
  have all: "map snd (disk_replay as (log_frames (cores c n))) = log s'"
    using disk k(15) by (simp add: assms(8) disk_replay_untouched)
  show ?thesis
  proof (rule accepted_safe [OF assms(1,2) d st])
    show "u = None" if "PersistMetadata w u \<in> set as" for w u
      using that k(14) z by (auto simp: as append_response_def list_all_iff)
    show "log x = log (cores c n) \<or> log x = log s' \<and> metadata x = metadata s'"
      using z k(15) by (intro landing_late_log [OF assms(2) [unfolded assms(8)]])
        (auto simp: bs append_response_def list_all_iff)
    show "list_all (\<lambda>a. \<not> installs a) as" using k(12) z by (auto simp: as append_response_def list_all_iff)
    fix y e assume y: "y \<in> set (concat (map (outgoing n e) ms))"
    have "y = (?d, AppendEntriesResponse (success_response s' (lli s')))"
      using landing_msgs [OF assms(2) y] quiet
      by (auto simp: as append_response_def list_all_iff dest: outgoing_is_send)
    with accepted_sent [OF assms(2) [unfolded as] quiet all [unfolded as] y]
    show "log x = log s' \<and> y = (?d, AppendEntriesResponse (success_response s' (lli s')))" ..
  qed
qed

section \<open>The leader's commit index\<close>

text \<open>In a cluster of an odd number of members the replicated index is held by a majority.\<close>

lemma replicated_majority:
  assumes "odd (card M)" and "finite M" and "n \<in> M" and "keyed s" and "set (peers s) = M - {n}"
    and "fst ` set (match_index s) = set (peers s)"
  shows "majority_of M (insert n {q. \<exists>k. (q, k) \<in> set (match_index s) \<and> replicated_index s l \<le> k})"
proof -
  let ?r = "replicated_index s l" and ?m = "match_index s"
  let ?Q = "{q. \<exists>k. (q, k) \<in> set ?m \<and> ?r \<le> k}"
  have d: "distinct (map fst ?m)" using assms(4) by (simp add: keyed_def)
  have "length ?m = card (fst ` set ?m)" using distinct_card [OF d] by simp
  also have "\<dots> = card M - 1" using assms(2,3,5,6) by simp
  finally have len: "length ?m + 1 = card M" using assms(2,3) card_gt_0_iff [of M] by auto
  have "?Q = fst ` set (filter (\<lambda>e. ?r \<le> snd e) ?m)" by force
  then have "card ?Q = length (filter (\<lambda>e. ?r \<le> snd e) ?m)"
    using distinct_card [of "map fst (filter (\<lambda>e. ?r \<le> snd e) ?m)"] distinct_map_filter [OF d] by simp
  then have q: "length (filter (\<lambda>k. ?r \<le> k) (map snd ?m @ [l])) \<le> card ?Q + 1"
    by (simp add: filter_map comp_def)
  have sub: "?Q \<subseteq> M - {n}" using assms(5,6) by force
  then have fin: "finite ?Q" using assms(2) finite_subset by blast
  have "n \<notin> ?Q" using sub by auto
  then have c: "card (insert n ?Q) = card ?Q + 1" using fin by simp
  have "card M - card M div 2 \<le> card ?Q + 1"
    using replicated_index_members [of s l] q unfolding len by linarith
  then have "card M div 2 < card (insert n ?Q)" using assms(1) c by (auto elim!: oddE)
  then show ?thesis using sub assms(2,3) by (auto simp: majority_of_def)
qed

lemma leader_commit_chosen:
  assumes "proto_inv M p" and "odd (card M)" and "finite M" and "n \<in> M" and "keyed s" and "set (peers s) = M - {n}"
    and "records_ok p s" and "base s = (0, 0)" and "p_term p n = current_term s" and "p_log p n = log s"
    and "commit_ok M p (log s) (commit_index s)" and "leader_commit s = Some (as, s')"
  shows "commit_ok M p (log s) (commit_index s')"
proof (cases "commit_index s' = commit_index s")
  case False
  let ?k = "commit_index s'" and ?t = "current_term s"
  have k: "?k \<le> replicated_index s (lli s)" "log_term_at s ?k = Some ?t" "commit_index s < ?k"
    using leader_commit_advance [OF assms(12)] False by auto
  have h: "has (log s) (?k - 1) ?t"
    using has_log_term [OF _ _ k(2)] assms(8) k(3) by (simp add: base_def)
  let ?Q = "insert n {q. \<exists>j. (q, j) \<in> set (match_index s) \<and> replicated_index s (lli s) \<le> j}"
  have "majority_of M ?Q" using assms(7) by (intro replicated_majority [OF assms(2-6)]) (simp add: records_ok_def)
  moreover have "(q, ?k - 1, ?t) \<in> p_acks p" if "q \<in> ?Q" for q
  proof (cases "q = n")
    case True
    with proto_invD(1) [OF assms(1,4)] h assms(9,10) show ?thesis by (auto simp: node_ok_def held_def)
  next
    case no: False
    with that obtain j where j: "(q, j) \<in> set (match_index s)" "replicated_index s (lli s) \<le> j" by auto
    with k(1,3) have "?k - 1 < j" by linarith
    with assms(7) j(1) h show ?thesis by (auto simp: records_ok_def)
  qed
  ultimately have "chosen M p (?k - 1) ?t" unfolding chosen_def by blast
  with h show ?thesis by (auto simp: commit_ok_def)
qed (simp add: assms(11))

lemma acknowledged_safe:
  assumes "safe_inv members c p" and "landing members c n s' as x ms c'" and "odd (card (set members))"
    and "(n, AppendEntriesResponse r) \<in> set (sent c)" and "aer_success r"
    and "state (cores c n) = Leader" and "aer_term r = current_term (cores c n)"
    and "record_success r (cores c n) = Some s1" and "leader_commit s1 = Some (a, s2)"
    and "release_barriers s2 = Some (b, s')" and "as = a @ b"
  shows "\<exists>p'. evolves p p' \<and> safe_inv members c' p'"
proof -
  let ?M = "set members" and ?s = "cores c n"
  let ?t = "current_term ?s" and ?q = "aer_id r"
  note n = landingD(1) [OF assms(2)] and v = safe_invD(1-4) [OF assms(1)] and nd = landing_node [OF assms(2)]
  note sf = safe_invD(6) [OF assms(1) n]
  have lead: "p_lead p ?t = log ?s" and rec: "records_ok p ?s" and cs: "base ?s = (0, 0)" "keyed ?s"
    "commit_ok ?M p (log ?s) (commit_index ?s)" using sf assms(6) by (simp_all add: core_safe_def)
  have q: "?q \<in> ?M" "?q \<noteq> n" "aer_match_index r \<le> length (log ?s)"
    "\<forall>j<aer_match_index r. has (log ?s) j ?t \<longrightarrow> (?q, j, ?t) \<in> p_acks p"
    using safe_invD(7) [OF assms(1,4)] assms(5,7) lead by auto
  have s1: "s1 = ?s\<lparr>match_index := AList.update ?q (aer_match_index r) (match_index ?s),
      next_index := AList.update ?q (aer_match_index r + 1) (next_index ?s),
      append_entries_count := append_entries_count ?s + 1\<rparr>" using record_success_Some [OF assms(8)] .
  have "?q \<in> set (peers ?s)" using q nd(2) by simp
  from keyed_update [OF cs(2) this, of s1] have k1: "keyed s1" by (simp add: s1)
  have r1: "records_ok p s1"
  proof -
    have "(w, k) \<in> set (match_index s1) \<Longrightarrow> (w, k) \<in> set (match_index ?s) \<or> w = ?q \<and> k = aer_match_index r" for w k
      using set_update_subset by (fastforce simp: s1)
    moreover have "fst ` set (match_index s1) = set (peers s1)"
      using rec q(1,2) nd(2) dom_update [of ?q "aer_match_index r" "match_index ?s"]
      by (auto simp: records_ok_def s1 simp flip: dom_map_of_conv_image_fst)
    moreover have "1 \<le> k" if "map_of (next_index s1) w = Some k" for w k
      using that rec by (auto simp: s1 update_conv' records_ok_def split: if_splits)
    ultimately show ?thesis using rec q(3,4) unfolding records_ok_def s1 by simp blast
  qed
  have cm: "commit_ok ?M p (log ?s) (commit_index s2)"
    using leader_commit_chosen [OF safe_invD(5) [OF assms(1)] assms(3) _ n k1 _ r1 _ _ _ _ assms(9)] cs nd(2) v
    by (simp add: s1 base_def)
  obtain B where s': "s' = s2\<lparr>read_barriers := B\<rparr>" using release_barriers_Some(1) [OF assms(10)] by blast
  from leader_commit_Some(1) [OF assms(9)] obtain k where s2: "s2 = s1\<lparr>commit_index := k, last_applied := k\<rparr>" by blast
  have f: "log s' = log ?s" "current_term s' = ?t" "state s' = Leader" "voted_for s' = voted_for ?s"
    by (simp_all add: s' s2 s1 assms(6))
  have "core_safe ?M p n s'"
    using k1 r1 cm cs(1) lead by (simp add: core_safe_def s' s2 f keyed_def records_ok_def s1 base_def assms(6))
  moreover have a: "\<forall>y\<in>set as. \<not> is_send y \<and> \<not> persists_metadata y \<and> \<not> installs y"
    using leader_commit_applies [OF assms(9)] release_barriers_Some(2) [OF assms(10)]
    by (auto simp: assms(11) apply_actions_def)
  ultimately show ?thesis
  proof (intro quiet_step [OF assms(1,2)])
    show "msg_ok ?M (moved p n t B) (fst y) (snd y)" if "y \<in> set (concat (map (outgoing n d) as))" for d y t B
      using that a outgoing_is_send by fastforce
    show "w = None \<or> (t, w) = metadata s'" if "PersistMetadata t w \<in> set as" for t w
      using that a by auto
  qed (use f assms(6) a in \<open>auto simp: list_all_iff\<close>)
qed

lemma refused_safe:
  assumes "safe_inv members c p" and "landing members c n s' as x ms c'"
    and "(n, AppendEntriesResponse r) \<in> set (sent c)" and "aer_first_conflicting_index r \<noteq> None"
    and "state (cores c n) = Leader" and "s' = record_failure r (cores c n)"
    and "build_append_entries_for_peer s' (aer_id r) = Some m" and "as = [m]"
  shows "\<exists>p'. evolves p p' \<and> safe_inv members c' p'"
proof -
  let ?M = "set members" and ?s = "cores c n"
  note n = landingD(1) [OF assms(2)] and v = safe_invD(1-4) [OF assms(1)] and nd = landing_node [OF assms(2)]
  note sf = safe_invD(6) [OF assms(1) n]
  have q: "aer_id r \<in> ?M" "aer_id r \<noteq> n" "aer_first_conflicting_index r \<noteq> Some 0"
    using safe_invD(7) [OF assms(1,3)] by simp_all
  with assms(4) obtain i where i: "aer_first_conflicting_index r = Some i" "1 \<le> i" by fastforce
  have s': "s' = ?s\<lparr>next_index := and_modify (aer_id r) i (next_index ?s)\<rparr>" by (simp add: assms(6) record_failure_def i(1))
  have "keyed ?s" using sf by (simp add: core_safe_def)
  from keyed_and_modify [OF this, of s'] have "keyed s'" by (simp add: s')
  moreover have "1 \<le> k" if "map_of (next_index s') w = Some k" for w k
    using that sf assms(5) i(2) by (auto simp: s' core_safe_def records_ok_def map_of_and_modify split: if_splits option.splits)
  ultimately have safe: "core_safe ?M p n s'"
    using sf assms(5) by (auto simp: core_safe_def records_ok_def s' base_def)
  have st: "state s' = Leader" "node_id s' = n" "current_term s' = current_term ?s" using assms(5) nd(1) by (simp_all add: s')
  have sl: "sends_log ?M p s'" using leader_sends_log [OF safe st(1)] nd(4) [OF assms(5)] st v(4) by simp
  have qm: "quiet m" "\<not> touches_log m" using build_append_entries_quiet [OF assms(7)] by simp_all
  from safe show ?thesis
  proof (intro quiet_step [OF assms(1,2)])
    show "msg_ok ?M (moved p n t B) (fst y) (snd y)" if "y \<in> set (concat (map (outgoing n d) as))"
      "proto_inv ?M (moved p n t B)" for d y t B
      using that build_request_ok [OF that(2) _ assms(7), of y n d] sl q st(2) assms(8) by simp
    show "w = None \<or> (t, w) = metadata s'" if "PersistMetadata t w \<in> set as" for t w
      using that qm(1) quiet_no_metadata assms(8) by auto
    show "list_all (\<lambda>a. \<not> installs a) as" using qm(2) assms(8) by (cases m) simp_all
  qed (use s' assms(5) in simp_all)
qed

section \<open>Every step\<close>

lemma vote_response_safe:
  assumes "safe_inv members c p" and "landing members c n s' as x ms c'"
    and "handle_request_vote_response rng r (cores c n) = Some (as, s')"
  shows "\<exists>p'. evolves p p' \<and> safe_inv members c' p'"
  using assms(3)
proof (cases rule: handle_request_vote_response_Some)
  case (ignored pa s)
  then show ?thesis using stepped_safe [OF assms(1,2)] by blast
next
  case (counted s1)
  then show ?thesis
    by (intro idle_safe [OF assms(1,2), where k = "ticks_since_last_heartbeat (cores c n)"
          and V = "insert (rvr_id r) (votes_received (cores c n))"]) simp_all
next
  case (elected s1)
  then show ?thesis using elected_safe [OF assms(1,2)] by blast
qed

lemma append_request_safe:
  assumes "safe_inv members c p" and "landing members c n s' as x ms c'"
    and "(n, AppendEntries r) \<in> set (sent c)" and "handle_append_entries rng r (cores c n) = Some (as, s')"
  shows "\<exists>p'. evolves p p' \<and> safe_inv members c' p'"
proof -
  have d: "n \<noteq> ae_leader_id r" using safe_invD(7) [OF assms(1,3)] by simp
  show ?thesis
    using assms(4)
  proof (cases rule: handle_append_entries_Some)
    case (refused pa s)
    have "node_id s = n" using check_msg_term_calm(8) [OF refused(1)] landing_node(1) [OF assms(2)] by simp
    with d refused show ?thesis
      by (intro request_refused_safe [OF assms(1,2) refused(1) _ refused(5)]) (simp_all add: base_response_def)
  next
    case (conflict pa s tm q)
    have "node_id s = n" using check_msg_term_calm(8) [OF conflict(1)] landing_node(1) [OF assms(2)] by simp
    with d conflict conflict_response_index [OF conflict(6)] show ?thesis
      by (intro request_refused_safe [OF assms(1,2) conflict(1) disjI2 [OF conflict(4)] conflict(7)]) simp_all
  next
    case (accepted pa s tm bs)
    then show ?thesis using accepted_request_safe [OF assms(1-3) accepted(1)] by blast
  qed
qed

lemma append_response_safe:
  assumes "safe_inv members c p" and "landing members c n s' as x ms c'" and "odd (card (set members))"
    and "(n, AppendEntriesResponse r) \<in> set (sent c)" and "calm_input (Receive (AppendEntriesResponse r)) (cores c n)"
    and "handle_append_entries_response rng r (cores c n) = Some (as, s')"
  shows "\<exists>p'. evolves p p' \<and> safe_inv members c' p'"
proof -
  have c: "state (cores c n) = Leader" "aer_term r = current_term (cores c n)"
    "aer_success r \<or> aer_first_conflicting_index r \<noteq> None" using assms(5) by simp_all
  have low: "check_msg_term rng (aer_term r) (cores c n) = Some (None, cores c n)" using c(2) by simp
  show ?thesis
    using assms(6)
  proof (cases rule: handle_append_entries_response_Some)
    case (success pa s s1 a s2 b)
    with low have "record_success r (cores c n) = Some s1" "as = a @ b" by (auto simp: opt_list_def)
    with success c show ?thesis using acknowledged_safe [OF assms(1-4)] by blast
  next
    case (failure pa s m)
    with low c(3) have "s' = record_failure r (cores c n)" "as = [m]" "aer_first_conflicting_index r \<noteq> None"
      by (auto simp: opt_list_def)
    with failure(4) c(1) show ?thesis using refused_safe [OF assms(1,2,4)] by blast
  qed
qed

lemma core_step_landing_safe:
  assumes "safe_inv members c p" and "landing members c n s' as x ms c'" and "odd (card (set members))"
    and "available n i c" and "calm_input i (cores c n)" and "core_step rng i (cores c n) = Some (as, s')"
  shows "\<exists>p'. evolves p p' \<and> safe_inv members c' p'"
proof (cases i)
  case Tick
  with assms show ?thesis by (simp add: tick_safe)
next
  case (Propose cmd)
  with assms(6) obtain r where "propose cmd (cores c n) = Some (r, s')" "as = opt_list r" by (auto simp: opt_bind)
  then show ?thesis by (rule propose_safe [OF assms(1,2)])
next
  case (Receive m)
  have m: "(n, m) \<in> set (sent c)" using assms(4) Receive by (simp add: available_def)
  show ?thesis
  proof (cases m)
    case (RequestVote r)
    with Receive m assms(6) show ?thesis
      by (intro request_vote_safe [OF assms(1,2)]) (simp_all add: dispatch_message_def)
  next
    case (RequestVoteResponse r)
    with Receive assms(6) show ?thesis
      by (intro vote_response_safe [OF assms(1,2)]) (simp_all add: dispatch_message_def)
  next
    case (AppendEntries r)
    with Receive m assms(6) show ?thesis
      by (intro append_request_safe [OF assms(1,2)]) (simp_all add: dispatch_message_def)
  next
    case (AppendEntriesResponse r)
    with Receive m assms(5,6) show ?thesis
      by (intro append_response_safe [OF assms(1-3)]) (simp_all add: dispatch_message_def)
  qed (use assms(5) Receive in simp_all)
next
  case ReadBarrier
  with assms(6) obtain r where "request_read_barrier (cores c n) = Some (r, s')" "as = []" by (auto simp: opt_bind)
  then show ?thesis by (rule read_barrier_safe [OF assms(1,2)])
qed (use assms(5) in simp)

end
