(* ===== verification/StateMachineSafety.thy ===== *)
theory StateMachineSafety
  imports SafeSteps
begin

text \<open>
  No two nodes apply different entries at the same index, and a leader has every entry that was applied
  before its term, in runs in which responses are handled as the protocol has it (\<open>calm\<close>) and no log is
  compacted.  The last section has concrete runs: an orderly one, and one in which a single refusal of an
  earlier term makes two nodes apply different entries.
\<close>

section \<open>Runs\<close>

lemma fresh_safe:
  assumes "fresh_cluster members c"
  shows "\<exists>p. safe_inv members c p"
proof -
  define p where "p = \<lparr> p_term = \<lambda>n. current_term (cores c n), p_log = \<lambda>n. log (cores c n), p_lead = \<lambda>_. [],
    p_cand = \<lambda>_ _. [], p_acks = {}, p_votes = {}, p_led = {} \<rparr>"
  have "log (cores c n) = [] \<and> state (cores c n) = Follower \<and> core_safe (set members) p n (cores c n)"
    if "n \<in> set members" for n
  proof -
    from assms that obtain rng hb erange where "new rng n members hb erange = Some (cores c n)"
      by (auto simp: fresh_cluster_def)
    then show ?thesis by (simp add: new_Some core_safe_def base_def keyed_def commit_ok_def)
  qed
  then have "safe_inv members c p"
    using assms by (auto simp: safe_inv_def views_def p_def proto_inv_def node_ok_def cand_ok_def fresh_cluster_def
        held_def has_def)
  then show ?thesis ..
qed

lemma calm_steps_safe:
  assumes "calm_steps members c c'" and "durable_reachable members c" and "odd (card (set members))"
    and "safe_inv members c p"
  shows "\<exists>p'. evolves p p' \<and> safe_inv members c' p'"
  using assms
proof (induction rule: calm_steps.induct)
  case (calm_start c)
  then show ?case using evolves_refl by blast
next
  case (calm_step c c' e c'')
  then obtain p' where p': "evolves p p'" "safe_inv members c' p'" by blast
  have "durable_reachable members c'" using calm_steps_durable calm_step.hyps(1) calm_step.prems(1) by blast
  from exec_landing [OF this calm_step.hyps(2-5)] obtain n rng i s' as x ms where
    l: "landing members c' n s' as x ms c''" "available n i c'" "core_step rng i (cores c' n) = Some (as, s')"
    "calm_input i (cores c' n)" by blast
  from core_step_landing_safe [OF p'(2) l(1) calm_step.prems(2) l(2,4,3)] p'(1) evolves_trans show ?case by blast
qed

section \<open>Agreement on what is applied\<close>

definition calm_reachable :: "NodeId list \<Rightarrow> cluster \<Rightarrow> bool" where
  "calm_reachable members c \<longleftrightarrow> (\<exists>c0. fresh_cluster members c0 \<and> calm_steps members c0 c)"

lemma calm_reachable_durable: "calm_reachable members c \<Longrightarrow> durable_reachable members c"
  unfolding calm_reachable_def using calm_steps_durable durable_reachable.start by blast

lemma calm_reachable_safe:
  assumes "calm_reachable members c" and "odd (card (set members))"
  shows "\<exists>p. safe_inv members c p"
proof -
  from assms(1) obtain c0 where c0: "fresh_cluster members c0" "calm_steps members c0 c"
    by (auto simp: calm_reachable_def)
  from fresh_safe [OF c0(1)] obtain p where "safe_inv members c0 p" ..
  from calm_steps_safe [OF c0(2) durable_reachable.start [OF c0(1)] assms(2) this] show ?thesis by blast
qed

text \<open>The entry at a committed index, and that it was chosen.\<close>

lemma applied_chosen:
  assumes "safe_inv members c p" and "n \<in> set members" and "0 < i" and "i \<le> last_applied (cores c n)"
  obtains k t where "i \<le> k" "has (log (cores c n)) (k - 1) t" "chosen (set members) p (k - 1) t"
    "traced (p_lead p) (log (cores c n))" "last_included_index (cores c n) = 0" "t \<le> current_term (cores c n)"
proof -
  note s = safe_invD(6) [OF assms(1,2)] and nd = proto_invD(1) [OF safe_invD(5) [OF assms(1)] assms(2)]
  let ?k = "commit_index (cores c n)"
  have k: "i \<le> ?k" using s assms(4) by (auto simp: core_safe_def)
  with assms(3) s obtain t where t: "has (log (cores c n)) (?k - 1) t" "chosen (set members) p (?k - 1) t"
    by (auto simp: core_safe_def commit_ok_def)
  have "t \<le> current_term (cores c n)"
    using nd has_nth [OF t(1)] safe_invD(1,2) [OF assms(1)] by (auto simp: node_ok_def)
  with that [OF k t] nd s safe_invD(2) [OF assms(1)] show thesis
    by (simp add: node_ok_def core_safe_def base_def)
qed

lemma same_entries:
  assumes "traced L (log s)" and "traced L (log s')" and "has (log s) (k - 1) t" and "has (log s') (k - 1) t"
    and "last_included_index s = 0" and "last_included_index s' = 0" and "0 < i" and "i \<le> k"
  shows "\<exists>e. log_entry_at s i = Some e \<and> log_entry_at s' i = Some e"
proof -
  have "take (Suc (k - 1)) (log s) = take (Suc (k - 1)) (log s')" using traced_match [OF assms(1-4)] .
  then have "take (Suc (k - 1)) (log s) ! (i - 1) = take (Suc (k - 1)) (log s') ! (i - 1)" by simp
  with assms(7,8) have "log s ! (i - 1) = log s' ! (i - 1)" by simp
  moreover have "i - 1 < length (log s)" "i - 1 < length (log s')" using assms(3,4,7,8) by (auto simp: has_def)
  ultimately show ?thesis using assms(5-7) by (simp add: log_entry_at_def)
qed

lemma applied_agree:
  assumes "calm_reachable members c" and "calm_steps members c c'" and "odd (card (set members))"
    and "n \<in> set members" and "m \<in> set members"
    and "0 < i" and "i \<le> last_applied (cores c n)" and "i \<le> last_applied (cores c' m)"
  shows "\<exists>e. log_entry_at (cores c n) i = Some e \<and> log_entry_at (cores c' m) i = Some e"
proof -
  let ?M = "set members" and ?f = "log (cores c n)" and ?g = "log (cores c' m)"
  from calm_reachable_safe [OF assms(1,3)] obtain p where p: "safe_inv members c p" ..
  from calm_steps_safe [OF assms(2) calm_reachable_durable [OF assms(1)] assms(3) p] obtain p' where
    e: "evolves p p'" and p': "safe_inv members c' p'" by blast
  obtain k t where k: "i \<le> k" "has ?f (k - 1) t" "chosen ?M p (k - 1) t" "traced (p_lead p) ?f"
    "last_included_index (cores c n) = 0" by (rule applied_chosen [OF p assms(4,6,7)])
  obtain j u where j: "i \<le> j" "has ?g (j - 1) u" "chosen ?M p' (j - 1) u" "traced (p_lead p') ?g"
    "last_included_index (cores c' m) = 0" by (rule applied_chosen [OF p' assms(5,6,8)])
  have f: "traced (p_lead p') ?f" using traced_mono [OF k(4) evolvesD(1) [OF e]] .
  have ch: "chosen ?M p' (k - 1) t" using chosen_mono [OF e k(3)] .
  note pi = safe_invD(5) [OF p']
  show ?thesis
  proof (cases "k \<le> j")
    case True
    with chosen_below [OF pi ch j(3) _ j(4,2)] have "has ?g (k - 1) t" by simp
    from same_entries [OF f j(4) k(2) this k(5) j(5) assms(6) k(1)] show ?thesis .
  next
    case False
    with chosen_below [OF pi j(3) ch _ f k(2)] have "has ?f (j - 1) u" by simp
    from same_entries [OF f j(4) this j(2) k(5) j(5) assms(6) j(1)] show ?thesis .
  qed
qed

lemma leader_complete:
  assumes "calm_reachable members c" and "calm_steps members c c'" and "odd (card (set members))"
    and "n \<in> set members" and "m \<in> set members" and "state (cores c' m) = Leader"
    and "current_term (cores c n) \<le> current_term (cores c' m)"
    and "0 < i" and "i \<le> last_applied (cores c n)"
  shows "\<exists>e. log_entry_at (cores c n) i = Some e \<and> log_entry_at (cores c' m) i = Some e"
proof -
  let ?M = "set members" and ?f = "log (cores c n)" and ?g = "log (cores c' m)" and ?t = "current_term (cores c' m)"
  from calm_reachable_safe [OF assms(1,3)] obtain p where p: "safe_inv members c p" ..
  from calm_steps_safe [OF assms(2) calm_reachable_durable [OF assms(1)] assms(3) p] obtain p' where
    e: "evolves p p'" and p': "safe_inv members c' p'" by blast
  obtain k t where k: "i \<le> k" "has ?f (k - 1) t" "chosen ?M p (k - 1) t" "traced (p_lead p) ?f"
    "last_included_index (cores c n) = 0" "t \<le> current_term (cores c n)"
    by (rule applied_chosen [OF p assms(4,8,9)])
  have f: "traced (p_lead p') ?f" using traced_mono [OF k(4) evolvesD(1) [OF e]] .
  have ch: "chosen ?M p' (k - 1) t" using chosen_mono [OF e k(3)] .
  note pi = safe_invD(5) [OF p'] and sf = safe_invD(6) [OF p' assms(5)]
  have lead: "p_lead p' ?t = ?g" and z: "last_included_index (cores c' m) = 0"
    using sf assms(6) by (simp_all add: core_safe_def base_def)
  have "durable_reachable members c'"
    using calm_steps_durable [OF assms(2) calm_reachable_durable [OF assms(1)]] .
  from reachable_inv [OF durable_reachable_reachable [OF this]] assms(5,6)
  have led: "(?t, m) \<in> p_led p'" using safe_invD(4) [OF p'] by (simp add: cluster_inv_def node_inv_def)
  have "has (p_lead p' ?t) (k - 1) t"
  proof (cases "t = ?t")
    case True
    with chosen_in_lead [OF pi ch] show ?thesis by simp
  next
    case False
    with k(6) assms(7) have "t < ?t" by simp
    from leader_has_chosen [OF pi ch led this] proto_invD(6) [OF pi led] show ?thesis
      by (auto simp: leads_def has_append)
  qed
  then have "has ?g (k - 1) t" by (simp add: lead)
  moreover have "traced (p_lead p') ?g" using lead_traced [OF pi led] by (simp add: lead)
  ultimately show ?thesis using same_entries [OF f _ k(2) _ k(5) z assms(8) k(1)] by blast
qed

section \<open>Concrete runs\<close>

primrec calm_run :: "NodeId list \<Rightarrow> event list \<Rightarrow> cluster \<Rightarrow> bool" where
  "calm_run members [] c \<longleftrightarrow> True"
| "calm_run members (e # es) c \<longleftrightarrow>
     timely e c \<and> restores e c \<and> calm e c \<and>
     (case cluster_exec members e c of None \<Rightarrow> True | Some c' \<Rightarrow> calm_run members es c')"

lemma calm_steps_run:
  assumes "calm_steps members c0 c" and "calm_run members es c" and "cluster_run members es c = Some c'"
  shows "calm_steps members c0 c'"
  using assms
proof (induction es arbitrary: c)
  case (Cons e es)
  then obtain d where d: "cluster_exec members e c = Some d" "cluster_run members es d = Some c'"
    by (auto simp: opt_bind)
  with Cons show ?case by (auto intro: calm_steps.calm_step)
qed simp

lemma calm_run_reachable:
  "calm_run demo_members es demo_cluster \<Longrightarrow> cluster_run demo_members es demo_cluster = Some c \<Longrightarrow>
   calm_reachable demo_members c"
  unfolding calm_reachable_def
  using calm_steps_run [OF calm_steps.calm_start] demo_cluster_fresh by blast

text \<open>Messages of the runs: requests of node 1, and the answers to them.\<close>

definition sent_request :: "u64 \<Rightarrow> u64 \<Rightarrow> u64 \<Rightarrow> LogEntry list \<Rightarrow> u64 \<Rightarrow> Message" where
  "sent_request t p pt es k =
     AppendEntries \<lparr> ae_term = t, ae_leader_id = 1, ae_prev_log_index = p, ae_prev_log_term = pt,
       ae_entries = es, ae_leader_commit = k \<rparr>"

definition sent_answer :: "NodeId \<Rightarrow> u64 \<Rightarrow> u64 \<Rightarrow> bool \<Rightarrow> u64 option \<Rightarrow> Message" where
  "sent_answer n t m ok i =
     AppendEntriesResponse \<lparr> aer_id = n, aer_term = t, aer_match_index = m, aer_success = ok,
       aer_first_conflicting_index = i, aer_first_conflicting_term = None \<rparr>"

definition empty_entry :: "u64 \<Rightarrow> LogEntry" where
  "empty_entry t = \<lparr> le_term = t, le_command = [] \<rparr>"

text \<open>The leader elected by \<open>orderly_run\<close> commits its first entry; with its next request node 2 applies it.\<close>

definition commit_run :: "event list" where
  "commit_run = orderly_run @
     [Run 2 demo_rng (Receive (sent_request 1 1 1 [] 0)) [],
      Run 1 demo_rng (Receive (sent_answer 2 1 0 False (Some 1))) [],
      Run 2 demo_rng (Receive (sent_request 1 0 0 [empty_entry 1] 0)) [],
      Run 1 demo_rng (Receive (sent_answer 2 1 1 True None)) []]"

definition apply_run :: "event list" where
  "apply_run =
     [Run 1 demo_rng (Propose [7]) [],
      Run 2 demo_rng (Receive (sent_request 1 1 1 [\<lparr> le_term = 1, le_command = [7] \<rparr>] 1)) []]"

text \<open>Node 2 is elected in term 2 by node 3.\<close>

definition takeover_run :: "event list" where
  "takeover_run = apply_run @
     [Run 2 demo_rng Tick [],
      Run 3 demo_rng (Receive (RequestVote \<lparr> rv_term = 2, rv_candidate_id = 2,
        rv_last_log_index = 2, rv_last_log_term = 1 \<rparr>)) [],
      Run 2 demo_rng (Receive (demo_vote 2 3)) []]"

text \<open>Node 3 takes over in term 2 while a request of node 1 of term 1 is on its way, and refuses it.  Node 1
  leads again in term 3 and commits an entry at index 2.  Then the refusal reaches it: it resets the next
  index of node 3 to 0 and sends a request without entries and without previous index, which node 3
  accepts, and node 3 applies its own entry at index 2.\<close>

definition refusal_run :: "event list" where
  "refusal_run = orderly_run @
     [Run 3 demo_rng Tick [], Run 3 demo_rng Tick [],
      Run 2 demo_rng (Receive (demo_request 2 3)) [],
      Run 3 demo_rng (Receive (demo_vote 2 2)) [],
      Run 3 demo_rng (Propose [9]) [],
      Run 3 demo_rng (Receive (sent_request 1 1 1 [] 0)) [],
      Run 1 demo_rng (Receive (demo_request 2 3)) [],
      Run 1 demo_rng Tick [],
      Run 2 demo_rng (Receive (RequestVote \<lparr> rv_term = 3, rv_candidate_id = 1,
        rv_last_log_index = 1, rv_last_log_term = 1 \<rparr>)) [],
      Run 1 demo_rng (Receive (demo_vote 3 2)) [],
      Run 2 demo_rng (Receive (sent_request 3 2 3 [] 0)) [],
      Run 1 demo_rng (Receive (sent_answer 2 3 0 False (Some 1))) [],
      Run 2 demo_rng (Receive (sent_request 3 0 0 [empty_entry 1, empty_entry 3] 0)) [],
      Run 1 demo_rng (Receive (sent_answer 2 3 2 True None)) [],
      Run 1 demo_rng (Receive (sent_answer 3 2 2 False None)) [],
      Run 3 demo_rng (Receive (sent_request 3 0 0 [] 2)) []]"

lemma commit_scan_numeral [exec]:
  "commit_scan s i (numeral k) new_commit = commit_scan s i (Suc (pred_numeral k)) new_commit"
  by (simp only: numeral_eq_Suc)

lemmas safety_exec [exec] =
  sent_request_def sent_answer_def empty_entry_def commit_run_def apply_run_def takeover_run_def
  refusal_run_def

lemma cluster_run_append:
  "cluster_run members (es @ fs) c = Option.bind (cluster_run members es c) (cluster_run members fs)"
  by (induction es arbitrary: c) (simp_all add: Option.bind_assoc)

lemma calm_run_append:
  "calm_run members (es @ fs) c \<longleftrightarrow>
     calm_run members es c \<and> (\<forall>d. cluster_run members es c = Some d \<longrightarrow> calm_run members fs d)"
  by (induction es arbitrary: c) (auto split: option.splits)

lemma calm_demo_runs:
  assumes "calm_run demo_members (es @ fs) demo_cluster" and "cluster_run demo_members es demo_cluster = Some c"
    and "cluster_run demo_members (es @ fs) demo_cluster = Some c'"
  shows "calm_reachable demo_members c" and "calm_steps demo_members c c'"
    and "cluster_run demo_members fs c = Some c'" and "odd (card (set demo_members))"
proof -
  have run: "calm_run demo_members es demo_cluster" "calm_run demo_members fs c"
    using assms(1,2) by (simp_all add: calm_run_append)
  show f: "cluster_run demo_members fs c = Some c'" using assms(2,3) by (simp add: cluster_run_append)
  show "calm_reachable demo_members c" using calm_run_reachable [OF run(1) assms(2)] .
  show "calm_steps demo_members c c'" using calm_steps_run [OF calm_steps.calm_start run(2) f] .
  show "odd (card (set demo_members))" by (simp add: demo_members_def)
qed

end
