(* ===== verification/TestCluster.thy ===== *)
theory TestCluster
  imports RaftMachine
begin

text \<open>
  The cluster that the tests of \<open>src/crates/raftcore/src/lib.rs\<close> run on (\<open>TestCluster\<close>): cores that
  exchange messages through one queue, delivered in rounds, with nodes cut off from the queue.  A failed
  assertion, an \<open>unwrap\<close> of \<open>None\<close> and a panic of the core are \<open>None\<close>.  Since the rounds make the network
  synchronous, this is also where progress can be stated: see \<open>Replication\<close>.
\<close>

section \<open>State\<close>

record TestCluster =
  tc_nodes :: "(NodeId \<times> RaftCore) list"
  pending_messages :: "(NodeId \<times> NodeId \<times> Message) list"
  partitioned :: "NodeId set"
  tc_leader :: "NodeId option"

text \<open>The \<open>HashMap<NodeId, Vec<Action>>\<close> of the actions that are no messages.\<close>

type_synonym outcome = "(NodeId \<times> Action list) list"

definition actions_of :: "outcome \<Rightarrow> NodeId \<Rightarrow> Action list" where
  "actions_of r n = (case map_of r n of None \<Rightarrow> [] | Some as \<Rightarrow> as)"

definition tc_new :: "rng \<Rightarrow> NodeId list \<Rightarrow> TestCluster option" where
  "tc_new rng node_ids = do {
     cores \<leftarrow> map_opt (\<lambda>i. new rng i node_ids None (15, 31)) node_ids;
     Some \<lparr> tc_nodes = AList.updates node_ids cores [],
       pending_messages = [], partitioned = {}, tc_leader = None \<rparr> }"

definition tc_node :: "NodeId \<Rightarrow> TestCluster \<Rightarrow> RaftCore option" where
  "tc_node n c = map_of (tc_nodes c) n"

definition set_node :: "NodeId \<Rightarrow> RaftCore \<Rightarrow> TestCluster \<Rightarrow> TestCluster" where
  "set_node n s c = c\<lparr>tc_nodes := AList.update n s (tc_nodes c)\<rparr>"

text \<open>\<open>nodes.get_mut(&id).unwrap()\<close> and a call on it.\<close>

definition on_node ::
  "NodeId \<Rightarrow> (RaftCore \<Rightarrow> ('a \<times> RaftCore) option) \<Rightarrow> TestCluster \<Rightarrow> ('a \<times> TestCluster) option" where
  "on_node n f c = do {
     s \<leftarrow> tc_node n c;
     (r, s') \<leftarrow> f s;
     Some (r, set_node n s' c) }"

section \<open>Ticks\<close>

primrec ticks :: "rng \<Rightarrow> nat \<Rightarrow> RaftCore \<Rightarrow> (unit \<times> RaftCore) option" where
  "ticks rng 0 s = Some ((), s)"
| "ticks rng (Suc n) s = do { (_, s') \<leftarrow> tick rng s; ticks rng n s' }"

definition tick_until_candidate :: "rng \<Rightarrow> RaftCore \<Rightarrow> (unit \<times> RaftCore) option" where
  "tick_until_candidate rng s = do { n \<leftarrow> u64_sub (election_timeout s) 1; ticks rng n s }"

definition tick_until_heartbeat :: "rng \<Rightarrow> RaftCore \<Rightarrow> (unit \<times> RaftCore) option" where
  "tick_until_heartbeat rng s = do { n \<leftarrow> u64_sub (heartbeat_interval s) 1; ticks rng n s }"

definition tc_tick_until_candidate :: "rng \<Rightarrow> NodeId \<Rightarrow> TestCluster \<Rightarrow> TestCluster option" where
  "tc_tick_until_candidate rng n c = map_option snd (on_node n (tick_until_candidate rng) c)"

definition tc_tick_until_heartbeat :: "rng \<Rightarrow> NodeId \<Rightarrow> TestCluster \<Rightarrow> TestCluster option" where
  "tc_tick_until_heartbeat rng n c = map_option snd (on_node n (tick_until_heartbeat rng) c)"

definition tick_node :: "rng \<Rightarrow> NodeId \<Rightarrow> TestCluster \<Rightarrow> (Action list \<times> TestCluster) option" where
  "tick_node rng n c = on_node n (tick rng) c"

section \<open>Delivery\<close>

fun is_send :: "Action \<Rightarrow> bool" where
  "is_send (SendMessage t m) \<longleftrightarrow> True"
| "is_send _ \<longleftrightarrow> False"

fun queued :: "NodeId \<Rightarrow> Action \<Rightarrow> (NodeId \<times> NodeId \<times> Message) list" where
  "queued from (SendMessage t m) = [(from, t, m)]"
| "queued from _ = []"

definition sends :: "NodeId \<Rightarrow> Action list \<Rightarrow> (NodeId \<times> NodeId \<times> Message) list" where
  "sends from actions = concat (map (queued from) actions)"

definition collect_actions :: "NodeId \<Rightarrow> Action list \<Rightarrow> TestCluster \<Rightarrow> outcome \<times> TestCluster" where
  "collect_actions from actions c =
     (let other = filter (\<lambda>a. \<not> is_send a) actions
      in if from \<in> partitioned c then ([(from, other)], c)
         else ([(from, other)],
               c\<lparr>pending_messages := pending_messages c @ sends from actions\<rparr>))"

primrec deliver_loop ::
  "rng \<Rightarrow> (NodeId \<times> NodeId \<times> Message) list \<Rightarrow> outcome \<Rightarrow> TestCluster \<Rightarrow> (outcome \<times> TestCluster) option" where
  "deliver_loop rng [] results c = Some (results, c)"
| "deliver_loop rng (x # xs) results c =
     (case x of (_, recipient, msg) \<Rightarrow>
        if recipient \<in> partitioned c then deliver_loop rng xs results c
        else do {
          (actions, c1) \<leftarrow> on_node recipient (dispatch_message rng msg) c;
          let (new_actions, c2) = collect_actions recipient actions c1;
          deliver_loop rng xs
            (AList.update recipient (actions_of results recipient @ actions_of new_actions recipient) results) c2 })"

definition deliver_all :: "rng \<Rightarrow> TestCluster \<Rightarrow> (outcome \<times> TestCluster) option" where
  "deliver_all rng c =
     (let pending = take 50 (pending_messages c);
          rest = (if 50 < length (pending_messages c) then drop 50 (pending_messages c) else [])
      in deliver_loop rng pending [] (c\<lparr>pending_messages := rest\<rparr>))"

definition deliver_to :: "rng \<Rightarrow> NodeId \<Rightarrow> TestCluster \<Rightarrow> (outcome \<times> TestCluster) option" where
  "deliver_to rng target c =
     (let to_target = filter (\<lambda>(_, to, _). to = target) (pending_messages c);
          other = filter (\<lambda>(_, to, _). to \<noteq> target) (pending_messages c)
      in deliver_loop rng to_target [(target, [])] (c\<lparr>pending_messages := other\<rparr>))"

text \<open>\<open>n\<close> rounds whose outcome is not looked at.\<close>

primrec rounds :: "rng \<Rightarrow> nat \<Rightarrow> TestCluster \<Rightarrow> TestCluster option" where
  "rounds rng 0 c = Some c"
| "rounds rng (Suc n) c = do { (_, c') \<leftarrow> deliver_all rng c; rounds rng n c' }"

section \<open>Scripts\<close>

definition guard :: "bool \<Rightarrow> unit option" where
  "guard b = (if b then Some () else None)"

text \<open>\<open>node_mut(id).append_entries()\<close> and the collection of its messages.\<close>

definition broadcast :: "NodeId \<Rightarrow> TestCluster \<Rightarrow> TestCluster option" where
  "broadcast n c = do {
     s \<leftarrow> tc_node n c;
     actions \<leftarrow> append_entries s;
     Some (snd (collect_actions n actions c)) }"

definition elect_leader :: "rng \<Rightarrow> NodeId \<Rightarrow> TestCluster \<Rightarrow> TestCluster option" where
  "elect_leader rng n c = do {
     c \<leftarrow> tc_tick_until_candidate rng n c;
     (actions, c) \<leftarrow> tick_node rng n c;
     c \<leftarrow> rounds rng 2 (snd (collect_actions n actions c));
     s \<leftarrow> tc_node n c;
     _ \<leftarrow> guard (state s = Leader);
     c \<leftarrow> rounds rng 4 (c\<lparr>tc_leader := Some n\<rparr>);
     s \<leftarrow> tc_node n c;
     _ \<leftarrow> guard (commit_index s = 1);
     c \<leftarrow> broadcast n c;
     c \<leftarrow> rounds rng 2 c;
     _ \<leftarrow> guard (list_all (\<lambda>(_, s). commit_index s = 1) (tc_nodes c));
     Some c }"

definition new_with_leader :: "rng \<Rightarrow> NodeId list \<Rightarrow> NodeId \<Rightarrow> TestCluster option" where
  "new_with_leader rng node_ids n = do { c \<leftarrow> tc_new rng node_ids; elect_leader rng n c }"

text \<open>\<open>node_mut(leader_id).propose(command).unwrap()\<close> and the collection of its messages.\<close>

definition tc_propose :: "bytes \<Rightarrow> TestCluster \<Rightarrow> (Action list \<times> TestCluster) option" where
  "tc_propose command c = do {
     n \<leftarrow> tc_leader c;
     (r, c) \<leftarrow> on_node n (propose command) c;
     actions \<leftarrow> r;
     let (other, c) = collect_actions n actions c;
     Some (actions_of other n, c) }"

definition propose_and_sync :: "rng \<Rightarrow> bytes \<Rightarrow> TestCluster \<Rightarrow> (outcome \<times> TestCluster) option" where
  "propose_and_sync rng command c = do {
     n \<leftarrow> tc_leader c;
     (_, c) \<leftarrow> tc_propose command c;
     (_, c) \<leftarrow> deliver_all rng c;
     (leader_actions, c) \<leftarrow> deliver_all rng c;
     c \<leftarrow> broadcast n c;
     (follower_actions, c) \<leftarrow> deliver_all rng c;
     Some (AList.merge [(n, actions_of leader_actions n)] follower_actions, c) }"

definition partition_node :: "NodeId \<Rightarrow> TestCluster \<Rightarrow> TestCluster" where
  "partition_node n c = c\<lparr>partitioned := insert n (partitioned c)\<rparr>"

definition heal :: "NodeId \<Rightarrow> TestCluster \<Rightarrow> TestCluster" where
  "heal n c = c\<lparr>partitioned := partitioned c - {n}\<rparr>"

lemmas test_cluster_exec [exec] =
  actions_of_def tc_new_def tc_node_def set_node_def on_node_def tick_until_candidate_def
  tick_until_heartbeat_def tc_tick_until_candidate_def tc_tick_until_heartbeat_def tick_node_def
  sends_def collect_actions_def deliver_all_def deliver_to_def guard_def broadcast_def elect_leader_def
  new_with_leader_def tc_propose_def propose_and_sync_def partition_node_def heal_def

text \<open>Evaluation of scripts: what follows a call is not looked at before the call has returned.\<close>

lemma bind_weak: "m = m' \<Longrightarrow> Option.bind m f = Option.bind m' f"
  by simp

lemma ticks_numeral [exec]:
  "ticks rng (numeral k) s = Option.bind (tick rng s) (\<lambda>(_, s'). ticks rng (pred_numeral k) s')"
  by (simp add: numeral_eq_Suc)

lemma rounds_numeral [exec]:
  "rounds rng (numeral k) c = Option.bind (deliver_all rng c) (\<lambda>(_, c'). rounds rng (pred_numeral k) c')"
  by (simp add: numeral_eq_Suc)

end
