(* ===== verification/Replication.thy ===== *)
theory Replication
  imports TestCluster
begin

text \<open>
  Progress in a synchronous network: in the cluster of the tests, for any number of nodes, a command that
  is proposed to the leader of nodes in step is, three rounds later, in every log, committed everywhere
  and handed to every state machine once.
\<close>

section \<open>A follower in step\<close>

definition follower_at :: "u64 \<Rightarrow> LogEntry list \<Rightarrow> u64 \<Rightarrow> NodeId \<Rightarrow> RaftCore \<Rightarrow> bool" where
  "follower_at t L k n s \<longleftrightarrow>
     node_id s = n \<and> state s = Follower \<and> current_term s = t \<and> log s = L \<and> commit_index s = k \<and>
     last_applied s = k \<and> last_included_index s = 0 \<and>
     fst (election_timeout_range s) < snd (election_timeout_range s)"

text \<open>The request that carries the entries \<open>es\<close> behind the log \<open>L\<close>, and the response to it.\<close>

definition request :: "NodeId \<Rightarrow> u64 \<Rightarrow> LogEntry list \<Rightarrow> LogEntry list \<Rightarrow> u64 \<Rightarrow> AppendEntriesRPC" where
  "request l t L es k =
     \<lparr> ae_term = t, ae_leader_id = l, ae_prev_log_index = length L, ae_prev_log_term = (if L = [] then 0 else le_term (last L)),
       ae_entries = es, ae_leader_commit = k \<rparr>"

definition ack :: "NodeId \<Rightarrow> u64 \<Rightarrow> u64 \<Rightarrow> AppendEntriesResponseRPC" where
  "ack n t m =
     \<lparr> aer_id = n, aer_term = t, aer_match_index = m, aer_success = True,
       aer_first_conflicting_index = None, aer_first_conflicting_term = None \<rparr>"

text \<open>The commands of the entries behind index \<open>k\<close> up to index \<open>m\<close>, with their indices.\<close>

definition commands :: "LogEntry list \<Rightarrow> u64 \<Rightarrow> u64 \<Rightarrow> (u64 \<times> bytes) list" where
  "commands L k m = map (\<lambda>i. (i, le_command (L ! (i - 1)))) [k + 1..<m + 1]"

lemma commands_none [simp]: "commands L k k = []"
  by (simp add: commands_def)

lemma commands_next: "commands (L @ [e]) (length L) (Suc (length L)) = [(Suc (length L), le_command e)]"
  by (simp add: commands_def)

lemma commands_apply:
  fixes s :: RaftCore
  assumes "last_included_index s = 0" and "k \<le> m" and "m \<le> length (log s)"
  shows "applied (apply_actions k (take (m - k) (drop k (log s)))) = commands (log s) k m"
  using applied_log_range [of s k m] assms by (simp add: commands_def logged_def [abs_def] lli_def)

lemma applied_other [simp]: "applied (filter (\<lambda>a. \<not> is_send a) as) = applied as"
  by (induction as) (auto split: Action.splits)

lemma sends_simps [simp]:
  "sends n [] = []" "sends n (a # as) = queued n a @ sends n as" "sends n (as @ bs) = sends n as @ sends n bs"
  "sends n (apply_actions k es) = []"
  by (auto simp: sends_def apply_actions_def)

lemma rng_value:
  assumes "rng_ok rng" and "fst (election_timeout_range s) < snd (election_timeout_range s)"
  obtains tm where "rng (election_timeout_range s) = Some tm"
  using assms unfolding rng_ok_def by (metis prod.collapse)

lemma follower_append:
  assumes "follower_at t L k n s" and "length L + length es + 1 < u64_bound"
  shows "\<exists>as. append_new_entries (request l t L es kc) s = Some (as, s\<lparr>log := L @ es\<rparr>) \<and>
     applied as = [] \<and> sends n as = []"
proof -
  have s: "log s = L" "last_included_index s = 0" using assms(1) by (simp_all add: follower_at_def)
  have "append_loop (length L + 1) es s = Some (s\<lparr>log := L @ es\<rparr>)"
    using assms(2) s by (subst append_loop_eq) (simp_all add: lli_def)
  moreover have "log_slice (s\<lparr>log := L @ es\<rparr>) (length L + 1) (length L + length es + 1) = Some es"
    using s by (subst log_slice_ok) (simp_all add: lli_def)
  ultimately show ?thesis
    using assms(2) s by (simp add: append_new_entries_def request_def last_log_index_def)
qed

lemma follower_commits:
  assumes "follower_at t L k n s" and "k \<le> kc" and "kc \<le> length L" and "length L + 1 < u64_bound"
  shows "\<exists>as. follower_commit kc s = Some (as, s\<lparr>commit_index := kc, last_applied := kc\<rparr>) \<and>
     applied as = commands L k kc \<and> sends n as = []"
proof (cases "k = kc")
  case True
  with assms(1) show ?thesis by (auto simp: follower_commit_def follower_at_def)
next
  case False
  have s: "log s = L" "last_included_index s = 0" "commit_index s = k"
    using assms(1) by (simp_all add: follower_at_def)
  have "log_slice (s\<lparr>commit_index := kc\<rparr>) (k + 1) (kc + 1) = Some (take (kc - k) (drop k L))"
    using False assms(2,3) s by (subst log_slice_ok) (simp_all add: lli_def)
  with False assms s commands_apply [of s k kc] show ?thesis
    by (simp add: follower_commit_def last_log_index_def min_def)
qed

lemma follower_step:
  assumes "follower_at t L k n s" and "rng_ok rng" and "k \<le> kc" and "kc \<le> length (L @ es)"
    and "length (L @ es) + 1 < u64_bound"
  shows "\<exists>as s'. handle_append_entries rng (request l t L es kc) s = Some (as, s') \<and>
     follower_at t (L @ es) kc n s' \<and> applied as = commands (L @ es) k kc \<and>
     sends n as = [(n, l, AppendEntriesResponse (ack n t (length (L @ es))))]"
proof -
  have "fst (election_timeout_range s) < snd (election_timeout_range s)" using assms(1) by (simp add: follower_at_def)
  from rng_value [OF assms(2) this] obtain tm where tm: "rng (election_timeout_range s) = Some tm" .
  define s4 where "s4 = s\<lparr>ticks_since_last_heartbeat := 0, election_timeout := tm, current_leader := Some l\<rparr>"
  have f4: "follower_at t L k n s4" using assms(1) by (simp add: follower_at_def s4_def)
  then have f5: "follower_at t (L @ es) k n (s4\<lparr>log := L @ es\<rparr>)" by (simp add: follower_at_def)
  from follower_append [OF f4, of es l kc] assms(5) obtain a1 where
    a1: "append_new_entries (request l t L es kc) s4 = Some (a1, s4\<lparr>log := L @ es\<rparr>)"
    "applied a1 = []" "sends n a1 = []" by auto
  from follower_commits [OF f5 assms(3-5)] obtain a2 where
    a2: "follower_commit kc (s4\<lparr>log := L @ es\<rparr>) =
      Some (a2, s4\<lparr>log := L @ es, commit_index := kc, last_applied := kc\<rparr>)"
    "applied a2 = commands (L @ es) k kc" "sends n a2 = []" by auto
  let ?s' = "s4\<lparr>log := L @ es, commit_index := kc, last_applied := kc\<rparr>"
  have f6: "follower_at t (L @ es) kc n ?s'" using f4 by (simp add: follower_at_def)
  have "accept_append_entries (request l t L es kc) s4 =
      Some (a1 @ a2 @ [append_response l (ack n t (length (L @ es)))], ?s')"
    using a1 a2 f6 assms(5)
    by (simp add: accept_append_entries_def follower_at_def last_log_index_def success_response_def ack_def
        request_def)
  moreover have "ae_valid (request l t L es kc) s4 = Some True"
    using f4 assms(5) log_term_at_above [of s4 "length L"]
    by (simp add: ae_valid_def request_def follower_at_def last_log_index_def lli_def last_conv_nth)
  ultimately have "handle_append_entries rng (request l t L es kc) s =
      Some (a1 @ a2 @ [append_response l (ack n t (length (L @ es)))], ?s')"
    using assms(1,5) tm
    by (simp add: handle_append_entries_def follower_at_def last_log_index_def reset_election_timeout_def
        request_def s4_def)
  with f6 a1 a2 show ?thesis by (simp add: append_response_def)
qed

section \<open>A leader in step\<close>

text \<open>The leader \<open>l\<close> of the peers \<open>ps\<close> with the log \<open>L\<close>, committed up to \<open>k\<close>, that takes the log of the
  peer \<open>p\<close> to match up to \<open>M p\<close>, sends it the entries from \<open>N p\<close> on and has counted \<open>a\<close> successes.\<close>

definition leader_at ::
  "NodeId \<Rightarrow> NodeId list \<Rightarrow> u64 \<Rightarrow> LogEntry list \<Rightarrow> u64 \<Rightarrow> (NodeId \<Rightarrow> u64) \<Rightarrow> (NodeId \<Rightarrow> u64) \<Rightarrow>
   u64 \<Rightarrow> RaftCore \<Rightarrow> bool" where
  "leader_at l ps t L k M N a s \<longleftrightarrow>
     node_id s = l \<and> state s = Leader \<and> peers s = ps \<and> current_term s = t \<and> log s = L \<and> commit_index s = k \<and>
     last_applied s = k \<and> last_included_index s = 0 \<and> last_included_term s = 0 \<and>
     read_barriers s = [] \<and> append_entries_count s = a \<and>
     distinct (map fst (match_index s)) \<and> fst ` set (match_index s) = set ps \<and>
     (\<forall>p\<in>set ps. map_of (match_index s) p = Some (M p) \<and> map_of (next_index s) p = Some (N p))"

lemma leader_at_sel:
  assumes "leader_at l ps t L k M N a s"
  shows "node_id s = l" "state s = Leader" "peers s = ps" "current_term s = t" "log s = L" "commit_index s = k"
    "last_applied s = k" "last_included_index s = 0" "read_barriers s = []" "append_entries_count s = a"
    "last_included_term s = 0" "lli s = length L"
  using assms by (simp_all add: leader_at_def lli_def)

lemma leader_at_match:
  assumes "leader_at l ps t L k M N a s" and "x \<in> set (match_index s)"
  shows "fst x \<in> set ps \<and> snd x = M (fst x)"
proof -
  have "map_of (match_index s) (fst x) = Some (snd x)" "fst x \<in> set ps"
    using assms by (auto simp: leader_at_def)
  with assms(1) show ?thesis by (auto simp: leader_at_def)
qed

lemma leader_at_length:
  assumes "leader_at l ps t L k M N a s" and "distinct ps"
  shows "length (match_index s) = length ps"
proof -
  have "distinct (map fst (match_index s))" "set (map fst (match_index s)) = set ps"
    using assms(1) by (simp_all add: leader_at_def)
  with assms(2) show ?thesis by (metis distinct_card length_map)
qed

text \<open>The replicated index when all peers match up to the same index.\<close>

lemma replicated_all:
  assumes "leader_at l ps t L k M N a s" and "\<forall>p\<in>set ps. M p = length L"
  shows "replicated_index s (lli s) = length L"
proof -
  let ?xs = "map snd (match_index s) @ [lli s]"
  have "set ?xs \<subseteq> {length L}"
    using leader_at_match [OF assms(1)] assms by (auto simp: leader_at_sel)
  moreover have "sort ?xs ! (length (sort ?xs) div 2) \<in> set (sort ?xs)" by (rule nth_mem) simp
  ultimately show ?thesis by (auto simp: replicated_index_def Let_def)
qed

lemma replicated_none:
  assumes "leader_at l ps t L k M N a s" and "distinct ps" and "2 \<le> length ps"
    and "\<forall>p\<in>set ps. M p = v" and "v \<le> length L"
  shows "replicated_index s (lli s) = v"
proof -
  have "map snd (match_index s) = replicate (length ps) v"
    using leader_at_match [OF assms(1)] assms(4) leader_at_length [OF assms(1,2)]
    by (intro replicate_eqI) auto
  moreover have "sort (replicate (length ps) v @ [length L]) = replicate (length ps) v @ [length L]"
    using assms(5) by (intro sorted_sort_id) (auto simp: sorted_append)
  moreover have "Suc (length ps) div 2 < length ps" using assms(3) by simp
  ultimately show ?thesis
    using assms(1) by (simp add: replicated_index_def leader_at_sel nth_append)
qed

text \<open>A leader that has appended one entry behind what is committed commits it when it is replicated.\<close>

lemma leader_commits:
  assumes "leader_at l ps t L k M N a s" and "\<forall>p\<in>set ps. M p \<le> length L" and "L \<noteq> []" and "le_term (last L) = t"
    and "k \<le> length L" and "length L + 1 < u64_bound"
  obtains as k' where "leader_commit s = Some (as, s\<lparr>commit_index := k', last_applied := k'\<rparr>)"
    "k \<le> k'" "k' \<le> length L" "applied as = commands L k k'" "sends l as = []"
    "(\<forall>p\<in>set ps. M p = length L) \<longrightarrow> k' = length L"
    "replicated_index s (lli s) \<le> k \<longrightarrow> k' = k"
proof -
  have ok: "log_ok s" using assms(1,5) by (simp add: log_ok_def leader_at_sel)
  have "\<And>x. x \<in> set (match_index s) \<Longrightarrow> snd x \<le> lli s"
    using leader_at_match [OF assms(1)] assms(1,2) by (auto simp: leader_at_sel)
  from leader_commit_ok [OF ok _ this] assms(1,6) obtain as k' where
    c: "leader_commit s = Some (as, s\<lparr>commit_index := k', last_applied := k'\<rparr>)"
    and k: "k \<le> k'" "k' \<le> length L" and ap: "applied as = map (logged s) [k + 1..<k' + 1]"
    by (auto simp: leader_at_sel)
  note sel = leader_at_sel [OF assms(1)]
  have scan: "commit_scan s (k + 1) (replicated_index s (lli s) - k) k = Some k'"
    using leader_commit_Some(4) [OF c] sel by simp
  have "k' = length L" if "\<forall>p\<in>set ps. M p = length L"
  proof (cases "k = length L")
    case False
    have "log_term_at s (length L) = Some (current_term s)"
      using log_term_at_above [of s "length L"] assms(3,4) sel by (simp add: last_conv_nth)
    with commit_scan_Some(3) [OF scan, of "length L"] replicated_all [OF assms(1) that] False assms(5) k
    show ?thesis by simp
  qed (use k in simp)
  moreover have "k' = k" if "replicated_index s (lli s) \<le> k" using scan that by simp
  moreover have "applied as = commands L k k'" using ap sel by (simp add: commands_def logged_def [abs_def])
  moreover have "sends l as = []" using leader_commit_applies [OF c] by auto
  ultimately show thesis using that [OF c k] by blast
qed

lemma leader_ack:
  assumes "leader_at l ps t L k M N a s" and "\<forall>p\<in>set ps. M p \<le> length L" and "L \<noteq> []" and "le_term (last L) = t"
    and "k \<le> length L" and "length L + 1 < u64_bound" and "p \<in> set ps" and "m \<le> length L"
    and "a + 1 < u64_bound"
  shows "\<exists>as s' k'. handle_append_entries_response rng (ack p t m) s = Some (as, s') \<and>
     leader_at l ps t L k' (M(p := m)) (N(p := m + 1)) (a + 1) s' \<and> k \<le> k' \<and> k' \<le> length L \<and>
     applied as = commands L k k' \<and> sends l as = [] \<and>
     ((\<forall>q\<in>set ps. (M(p := m)) q = length L) \<longrightarrow> k' = length L) \<and>
     (distinct ps \<and> 2 \<le> length ps \<and> (\<forall>q\<in>set ps. (M(p := m)) q = k) \<longrightarrow> k' = k)"
proof -
  let ?M = "M(p := m)" and ?N = "N(p := m + 1)"
  let ?s1 = "s\<lparr>match_index := AList.update p m (match_index s),
    next_index := AList.update p (m + 1) (next_index s), append_entries_count := a + 1\<rparr>"
  have "fst ` set (AList.update p m (match_index s)) = fst ` set (match_index s)"
    using assms(1,7) by (simp add: leader_at_def dom_update insert_absorb)
  then have l1: "leader_at l ps t L k ?M ?N (a + 1) ?s1"
    using assms(1) by (simp add: leader_at_def distinct_update update_conv')
  have "\<forall>q\<in>set ps. ?M q \<le> length L" using assms(2,8) by simp
  from leader_commits [OF l1 this assms(3-6)] obtain as k' where
    c: "leader_commit ?s1 = Some (as, ?s1\<lparr>commit_index := k', last_applied := k'\<rparr>)"
    and k: "k \<le> k'" "k' \<le> length L" "applied as = commands L k k'" "sends l as = []"
    and all: "(\<forall>q\<in>set ps. ?M q = length L) \<longrightarrow> k' = length L"
    and none: "replicated_index ?s1 (lli ?s1) \<le> k \<longrightarrow> k' = k" .
  let ?s' = "?s1\<lparr>commit_index := k', last_applied := k'\<rparr>"
  have "record_success (ack p t m) s = Some ?s1"
    using assms(1,6,8,9) by (simp add: record_success_def ack_def leader_at_sel)
  then have "handle_append_entries_response rng (ack p t m) s = Some (as, ?s')"
    using c assms(1)
    by (simp add: handle_append_entries_response_def ack_def release_barriers_def leader_at_sel)
  moreover have "leader_at l ps t L k' ?M ?N (a + 1) ?s'" using l1 by (simp add: leader_at_def)
  moreover have "k' = k" if "distinct ps" "2 \<le> length ps" "\<forall>q\<in>set ps. ?M q = k"
    using replicated_none [OF l1 that assms(5)] none by simp
  ultimately show ?thesis using k all by blast
qed

lemma leader_request:
  assumes "leader_at l ps t (L @ es) k M N a s" and "p \<in> set ps" and "N p = length L + 1"
    and "length (L @ es) + 1 < u64_bound"
  shows "build_append_entries_for_peer s p = Some (SendMessage p (AppendEntries (request l t L es k)))"
proof -
  note sel = leader_at_sel [OF assms(1)]
  have "log_term_at s (length L) = Some (if L = [] then 0 else le_term (last L))"
    using log_term_at_above [of s "length L"] log_term_at_base [of s] sel
    by (auto simp: last_conv_nth nth_append)
  moreover have "map_of (next_index s) p = Some (length L + 1)" using assms(1-3) by (simp add: leader_at_def)
  moreover have "log_slice s (length L + 1) (length (L @ es) + 1) = Some es"
    using sel by (subst log_slice_ok) simp_all
  ultimately show ?thesis
    using assms(4) sel by (simp add: build_append_entries_for_peer_def last_log_index_def request_def)
qed

lemma leader_broadcast:
  assumes "leader_at l ps t (L @ es) k M N a s" and "\<forall>p\<in>set ps. N p = length L + 1"
    and "length (L @ es) + 1 < u64_bound"
  shows "append_entries s = Some (map (\<lambda>p. SendMessage p (AppendEntries (request l t L es k))) ps)"
proof -
  have "build_append_entries_for_peer s p = Some (SendMessage p (AppendEntries (request l t L es k)))"
    if "p \<in> set ps" for p
    using leader_request [OF assms(1) that _ assms(3)] assms(2) that by blast
  then show ?thesis
    using assms(1) by (auto simp: append_entries_def map_opt_eq_Some leader_at_sel list_all2_conv_all_nth)
qed

lemma leader_propose:
  assumes "leader_at l ps t L k M N a s" and "\<forall>p\<in>set ps. N p = length L + 1" and "length L + 2 < u64_bound"
  shows "\<exists>a1 s'. propose command s = Some (Some (a1 # map (\<lambda>p. SendMessage p (AppendEntries
       (request l t L [\<lparr> le_term = t, le_command = command \<rparr>] k))) ps), s') \<and>
     \<not> is_send a1 \<and> leader_at l ps t (L @ [\<lparr> le_term = t, le_command = command \<rparr>]) k M N a s'"
proof -
  note sel = leader_at_sel [OF assms(1)]
  let ?L = "L @ [\<lparr> le_term = t, le_command = command \<rparr>]"
  let ?s = "s\<lparr>log := ?L, ticks_since_last_heartbeat := 0\<rparr>"
  have l: "leader_at l ps t ?L k M N a ?s" using assms(1) by (simp add: leader_at_def)
  then have "append_entries ?s = Some (map (\<lambda>p. SendMessage p (AppendEntries
      (request l t L [\<lparr> le_term = t, le_command = command \<rparr>] k))) ps)"
    using assms(2,3) by (intro leader_broadcast) simp_all
  moreover have "log_slice ?s (length ?L) (length ?L + 1) = Some [last ?L]"
    using log_slice_last [of ?s] leader_at_sel(12) [OF l] by simp
  ultimately show ?thesis
    using assms(3) sel l by (simp add: propose_def last_log_index_def)
qed

section \<open>Rounds\<close>

lemma actions_of_update [simp]:
  "actions_of (AList.update n as r) m = (if m = n then as else actions_of r m)"
  by (simp add: actions_of_def update_conv')

lemma actions_of_single [simp]: "actions_of [(n, as)] n = as"
  by (simp add: actions_of_def)

lemma tc_node_sel [simp]:
  "tc_node m (set_node n s c) = (if m = n then Some s else tc_node m c)"
  "tc_node m (c\<lparr>pending_messages := ms\<rparr>) = tc_node m c"
  "pending_messages (set_node n s c) = pending_messages c" "partitioned (set_node n s c) = partitioned c"
  "tc_leader (set_node n s c) = tc_leader c"
  by (simp_all add: tc_node_def set_node_def update_conv')

lemma deliver_one:
  assumes "partitioned c = {}" and "tc_node p c = Some s" and "dispatch_message rng m s = Some (as, s')"
  shows "deliver_loop rng ((f, p, m) # xs) r c =
     deliver_loop rng xs (AList.update p (actions_of r p @ filter (\<lambda>a. \<not> is_send a) as) r)
       ((set_node p s' c)\<lparr>pending_messages := pending_messages c @ sends p as\<rparr>)"
  using assms by (simp add: on_node_def collect_actions_def)

lemma deliver_loop_append:
  "deliver_loop rng (xs @ ys) r c = Option.bind (deliver_loop rng xs r c) (\<lambda>(r', c'). deliver_loop rng ys r' c')"
proof (induction xs arbitrary: r c)
  case (Cons x xs)
  then show ?case by (auto simp: split: prod.splits bind_splits)
qed simp

text \<open>One message to each of a number of nodes, each of which answers with one message.\<close>

lemma deliver_each:
  assumes "\<And>p s. P p s \<Longrightarrow> \<exists>as s'. dispatch_message rng (m p) s = Some (as, s') \<and> Q p s' \<and>
      sends p as = [w p] \<and> applied as = xs"
    and "distinct qs" and "partitioned c = {}" and "\<forall>p\<in>set qs. \<exists>s. tc_node p c = Some s \<and> P p s"
  shows "\<exists>r' c'. deliver_loop rng (map (\<lambda>p. (l, p, m p)) qs) r c = Some (r', c') \<and>
     partitioned c' = {} \<and> tc_leader c' = tc_leader c \<and> pending_messages c' = pending_messages c @ map w qs \<and>
     (\<forall>p\<in>set qs. \<exists>s. tc_node p c' = Some s \<and> Q p s \<and>
        applied (actions_of r' p) = applied (actions_of r p) @ xs) \<and>
     (\<forall>p. p \<notin> set qs \<longrightarrow> tc_node p c' = tc_node p c \<and> map_of r' p = map_of r p)"
  using assms(2-4)
proof (induction qs arbitrary: r c)
  case (Cons q qs)
  from Cons.prems(3) obtain s where s: "tc_node q c = Some s" "P q s" by auto
  from assms(1) [OF s(2)] obtain as s' where
    h: "dispatch_message rng (m q) s = Some (as, s')" and s': "Q q s'" and ap: "applied as = xs"
    and sd: "sends q as = [w q]" by blast
  note one = deliver_one [OF Cons.prems(2) s(1) h]
  let ?r = "AList.update q (actions_of r q @ filter (\<lambda>a. \<not> is_send a) as) r"
  let ?c = "(set_node q s' c)\<lparr>pending_messages := pending_messages c @ sends q as\<rparr>"
  have "\<forall>p\<in>set qs. \<exists>s. tc_node p ?c = Some s \<and> P p s" using Cons.prems(1,3) by auto
  with Cons.IH [of ?c ?r] Cons.prems(1,2) obtain r' c' where
    ih: "deliver_loop rng (map (\<lambda>p. (l, p, m p)) qs) ?r ?c = Some (r', c')"
    "partitioned c' = {}" "tc_leader c' = tc_leader ?c" "pending_messages c' = pending_messages ?c @ map w qs"
    "\<forall>p\<in>set qs. \<exists>s. tc_node p c' = Some s \<and> Q p s \<and>
        applied (actions_of r' p) = applied (actions_of ?r p) @ xs"
    "\<forall>p. p \<notin> set qs \<longrightarrow> tc_node p c' = tc_node p ?c \<and> map_of r' p = map_of ?r p"
    by auto
  have q: "q \<notin> set qs" using Cons.prems(1) by simp
  with ih(6) have "actions_of r' q = actions_of ?r q" by (simp add: actions_of_def)
  with q ih one s' ap sd show ?case
    by (intro exI [of _ r'] exI [of _ c']) (auto simp: update_conv')
qed simp

text \<open>The same request to a number of followers.\<close>

lemma deliver_requests:
  assumes "rng_ok rng" and "k \<le> kc" and "kc \<le> length (L @ es)" and "length (L @ es) + 1 < u64_bound"
    and "distinct qs" and "partitioned c = {}"
    and "\<forall>p\<in>set qs. \<exists>s. tc_node p c = Some s \<and> follower_at t L k p s"
  shows "\<exists>r' c'. deliver_loop rng (map (\<lambda>p. (l, p, AppendEntries (request l t L es kc))) qs) r c = Some (r', c') \<and>
     partitioned c' = {} \<and> tc_leader c' = tc_leader c \<and>
     pending_messages c' =
       pending_messages c @ map (\<lambda>p. (p, l, AppendEntriesResponse (ack p t (length (L @ es))))) qs \<and>
     (\<forall>p\<in>set qs. \<exists>s. tc_node p c' = Some s \<and> follower_at t (L @ es) kc p s \<and>
        applied (actions_of r' p) = applied (actions_of r p) @ commands (L @ es) k kc) \<and>
     (\<forall>p. p \<notin> set qs \<longrightarrow> tc_node p c' = tc_node p c \<and> map_of r' p = map_of r p)"
  using assms(5-7)
proof (rule deliver_each [rotated])
  fix p s assume "follower_at t L k p s"
  from follower_step [OF this assms(1-4), of l] show "\<exists>as s'.
      dispatch_message rng (AppendEntries (request l t L es kc)) s = Some (as, s') \<and>
      follower_at t (L @ es) kc p s' \<and>
      sends p as = [(p, l, AppendEntriesResponse (ack p t (length (L @ es))))] \<and>
      applied as = commands (L @ es) k kc"
    by (auto simp: dispatch_message_def)
qed

text \<open>Responses of a number of followers, all with the same index.\<close>

lemma commands_append:
  assumes "k \<le> k'" and "k' \<le> m"
  shows "commands L k k' @ commands L k' m = commands L k m"
proof -
  have "[k + 1..<m + 1] = [k + 1..<k' + 1] @ [k' + 1..<m + 1]"
    using upt_add_eq_append [of "k + 1" "k' + 1" "m - k'"] assms by simp
  then show ?thesis by (simp add: commands_def)
qed

definition acked :: "NodeId list \<Rightarrow> u64 \<Rightarrow> (NodeId \<Rightarrow> u64) \<Rightarrow> NodeId \<Rightarrow> u64" where
  "acked qs m M p = (if p \<in> set qs then m else M p)"

lemma acked_Nil [simp]: "acked [] m M = M"
  by (simp add: acked_def fun_eq_iff)

lemma acked_Cons [simp]: "acked (q # qs) m M = acked qs m (M(q := m))"
  by (auto simp: acked_def fun_eq_iff)

lemma deliver_acks:
  assumes "L \<noteq> []" and "le_term (last L) = t" and "length L + 1 < u64_bound" and "m \<le> length L"
    and "set qs \<subseteq> set ps" and "partitioned c = {}" and "tc_node l c = Some s" and "leader_at l ps t L k M N a s"
    and "\<forall>p\<in>set ps. M p \<le> length L" and "k \<le> length L" and "a + length qs < u64_bound"
  shows "\<exists>r' c' s' k'.
     deliver_loop rng (map (\<lambda>p. (p, l, AppendEntriesResponse (ack p t m))) qs) r c = Some (r', c') \<and>
     partitioned c' = {} \<and> tc_leader c' = tc_leader c \<and> pending_messages c' = pending_messages c \<and>
     tc_node l c' = Some s' \<and> leader_at l ps t L k' (acked qs m M) (acked qs (m + 1) N) (a + length qs) s' \<and>
     k \<le> k' \<and> k' \<le> length L \<and> applied (actions_of r' l) = applied (actions_of r l) @ commands L k k' \<and>
     (qs \<noteq> [] \<and> (\<forall>p\<in>set ps. acked qs m M p = length L) \<longrightarrow> k' = length L) \<and>
     (distinct ps \<and> 2 \<le> length ps \<and> m = k \<and> (\<forall>p\<in>set ps. M p = k) \<longrightarrow> k' = k) \<and>
     (\<forall>p. p \<noteq> l \<longrightarrow> tc_node p c' = tc_node p c)"
  using assms(5-11)
proof (induction qs arbitrary: r c s k M N a)
  case Nil
  then show ?case by (intro exI [of _ r] exI [of _ c] exI [of _ s] exI [of _ k]) simp
next
  case (Cons q qs)
  have "q \<in> set ps" "a + 1 < u64_bound" using Cons.prems(1,7) by simp_all
  from leader_ack [OF Cons.prems(4,5) assms(1,2) Cons.prems(6) assms(3) this(1) assms(4) this(2), of rng]
  obtain as s1 k1 where
    h: "handle_append_entries_response rng (ack q t m) s = Some (as, s1)"
    and l1: "leader_at l ps t L k1 (M(q := m)) (N(q := m + 1)) (a + 1) s1" and k1: "k \<le> k1" "k1 \<le> length L"
    and ap: "applied as = commands L k k1" and sd: "sends l as = []"
    and all1: "(\<forall>p\<in>set ps. (M(q := m)) p = length L) \<longrightarrow> k1 = length L"
    and none1: "distinct ps \<and> 2 \<le> length ps \<and> (\<forall>p\<in>set ps. (M(q := m)) p = k) \<longrightarrow> k1 = k" by (elim exE conjE) (rule that)
  have "dispatch_message rng (AppendEntriesResponse (ack q t m)) s = Some (as, s1)"
    using h by (simp add: dispatch_message_def)
  note one = deliver_one [OF Cons.prems(2,3) this]
  let ?r = "AList.update l (actions_of r l @ filter (\<lambda>a. \<not> is_send a) as) r"
  let ?c = "(set_node l s1 c)\<lparr>pending_messages := pending_messages c @ sends l as\<rparr>"
  have M: "\<forall>p\<in>set ps. (M(q := m)) p \<le> length L" using Cons.prems(5) assms(4) by simp
  have "set qs \<subseteq> set ps" "partitioned ?c = {}" "tc_node l ?c = Some s1" "a + 1 + length qs < u64_bound"
    using Cons.prems by simp_all
  from Cons.IH [OF this(1-3) l1 M k1(2) this(4), of ?r] obtain r' c' s' k' where
    ih: "deliver_loop rng (map (\<lambda>p. (p, l, AppendEntriesResponse (ack p t m))) qs) ?r ?c = Some (r', c')"
    "partitioned c' = {}" "tc_leader c' = tc_leader ?c" "pending_messages c' = pending_messages ?c"
    "tc_node l c' = Some s'" "leader_at l ps t L k' (acked qs m (M(q := m))) (acked qs (m + 1) (N(q := m + 1))) (a + 1 + length qs) s'"
    "k1 \<le> k'" "k' \<le> length L" "applied (actions_of r' l) = applied (actions_of ?r l) @ commands L k1 k'"
    "qs \<noteq> [] \<and> (\<forall>p\<in>set ps. acked qs m (M(q := m)) p = length L) \<longrightarrow> k' = length L"
    "distinct ps \<and> 2 \<le> length ps \<and> m = k1 \<and> (\<forall>p\<in>set ps. (M(q := m)) p = k1) \<longrightarrow> k' = k1"
    "\<forall>p. p \<noteq> l \<longrightarrow> tc_node p c' = tc_node p ?c" by (elim exE conjE) (rule that)
  have all: "k' = length L" if "\<forall>p\<in>set ps. acked (q # qs) m M p = length L"
  proof (cases "qs = []")
    case True
    with that all1 have "k1 = length L" by simp
    with ih(7,8) show ?thesis by simp
  next
    case False
    with that ih(10) show ?thesis by simp
  qed
  have none: "k' = k" if "distinct ps \<and> 2 \<le> length ps \<and> m = k \<and> (\<forall>p\<in>set ps. M p = k)"
    using that none1 ih(11) by simp
  have ap': "applied (actions_of r' l) = applied (actions_of r l) @ commands L k k'"
    using ih(9) ap commands_append [OF k1(1) ih(7)] by simp
  have d: "deliver_loop rng (map (\<lambda>p. (p, l, AppendEntriesResponse (ack p t m))) (q # qs)) r c = Some (r', c')"
    using one ih(1) by simp
  have l': "leader_at l ps t L k' (acked (q # qs) m M) (acked (q # qs) (m + 1) N) (a + length (q # qs)) s'" using ih(6) by simp
  have c': "tc_leader c' = tc_leader c" "pending_messages c' = pending_messages c"
    "\<forall>p. p \<noteq> l \<longrightarrow> tc_node p c' = tc_node p c"
    using ih(3,4,12) sd by simp_all
  show ?case
    using d ih(2) c'(1,2) ih(5) l' order.trans [OF k1(1) ih(7)] ih(8) ap' all none c'(3) by blast
qed

section \<open>Proposals\<close>

text \<open>All nodes have the log \<open>L\<close>, everything in it is committed and applied, and the only messages on
  their way are acknowledgements of it.  Up to now the leader has counted at most \<open>a\<close> successes.\<close>

definition synced :: "NodeId list \<Rightarrow> NodeId \<Rightarrow> u64 \<Rightarrow> LogEntry list \<Rightarrow> u64 \<Rightarrow> TestCluster \<Rightarrow> bool" where
  "synced ids l t L a c \<longleftrightarrow>
     distinct ids \<and> l \<in> set ids \<and> L \<noteq> [] \<and> partitioned c = {} \<and> tc_leader c = Some l \<and>
     (case tc_node l c of None \<Rightarrow> False
      | Some s \<Rightarrow> append_entries_count s \<le> a \<and>
          leader_at l (filter (\<lambda>p. p \<noteq> l) ids) t L (length L) (\<lambda>_. length L) (\<lambda>_. length L + 1)
        (append_entries_count s) s) \<and>
     list_all (\<lambda>p. p = l \<or> (case tc_node p c of None \<Rightarrow> False | Some s \<Rightarrow> follower_at t L (length L) p s)) ids \<and>
     length (pending_messages c) \<le> length ids \<and>
     list_all (\<lambda>(p, q, m). p \<in> set ids \<and> p \<noteq> l \<and> q = l \<and> m = AppendEntriesResponse (ack p t (length L)))
       (pending_messages c)"

lemma syncedD:
  assumes "synced ids l t L a c"
  obtains s qs where "tc_node l c = Some s" "append_entries_count s \<le> a"
    "leader_at l (filter (\<lambda>p. p \<noteq> l) ids) t L (length L) (\<lambda>_. length L) (\<lambda>_. length L + 1)
        (append_entries_count s) s"
    "pending_messages c = map (\<lambda>p. (p, l, AppendEntriesResponse (ack p t (length L)))) qs"
    "set qs \<subseteq> set (filter (\<lambda>p. p \<noteq> l) ids)" "length qs \<le> length ids"
    "\<forall>p\<in>set (filter (\<lambda>p. p \<noteq> l) ids). \<exists>s. tc_node p c = Some s \<and> follower_at t L (length L) p s"
proof -
  let ?qs = "map fst (pending_messages c)"
  have ms: "\<forall>(p, q, m)\<in>set (pending_messages c).
      p \<in> set ids \<and> p \<noteq> l \<and> q = l \<and> m = AppendEntriesResponse (ack p t (length L))"
    "length ?qs \<le> length ids"
    using assms unfolding synced_def list_all_iff by simp_all
  then have "map (\<lambda>x. (fst x, l, AppendEntriesResponse (ack (fst x) t (length L)))) (pending_messages c) =
      pending_messages c" by (intro map_idI) auto
  then have "pending_messages c = map (\<lambda>p. (p, l, AppendEntriesResponse (ack p t (length L)))) ?qs"
    by (simp add: comp_def)
  moreover have "set ?qs \<subseteq> set (filter (\<lambda>p. p \<noteq> l) ids)" using ms(1) by auto
  moreover have "\<forall>p\<in>set (filter (\<lambda>p. p \<noteq> l) ids). \<exists>s. tc_node p c = Some s \<and> follower_at t L (length L) p s"
    using assms by (auto simp: synced_def list_all_iff split: option.splits)
  moreover obtain s where "tc_node l c = Some s" "append_entries_count s \<le> a"
    "leader_at l (filter (\<lambda>p. p \<noteq> l) ids) t L (length L) (\<lambda>_. length L) (\<lambda>_. length L + 1)
        (append_entries_count s) s"
    using assms by (auto simp: synced_def split: option.splits)
  ultimately show thesis using that ms(2) by blast
qed

lemma synced_nodes:
  assumes "synced ids l t L a c" and "n \<in> set ids"
  shows "\<exists>s. tc_node n c = Some s \<and> log s = L \<and> commit_index s = length L \<and> last_applied s = length L"
proof -
  from syncedD [OF assms(1)] obtain s where "tc_node l c = Some s"
    "leader_at l (filter (\<lambda>p. p \<noteq> l) ids) t L (length L) (\<lambda>_. length L) (\<lambda>_. length L + 1) (append_entries_count s) s"
    "\<forall>p\<in>set (filter (\<lambda>p. p \<noteq> l) ids). \<exists>s. tc_node p c = Some s \<and> follower_at t L (length L) p s" by metis
  with assms(2) show ?thesis by (cases "n = l") (auto simp: leader_at_def follower_at_def)
qed

lemma leader_at_cong:
  "leader_at l ps t L k M N a s \<Longrightarrow> (\<And>p. p \<in> set ps \<Longrightarrow> M p = M' p \<and> N p = N' p) \<Longrightarrow>
     leader_at l ps t L k M' N' a s"
  by (simp add: leader_at_def)

lemma sends_requests [simp]: "sends n (map (\<lambda>p. SendMessage p m) ps) = map (\<lambda>p. (n, p, m)) ps"
  by (induction ps) simp_all

lemma deliver_all_small:
  "length (pending_messages c) \<le> 50 \<Longrightarrow>
     deliver_all rng c = deliver_loop rng (pending_messages c) [] (c\<lparr>pending_messages := []\<rparr>)"
  by (simp add: deliver_all_def)

text \<open>A stage on the way: the leader has the log \<open>L\<close>, committed up to \<open>k\<close>, takes all peers to match up
  to \<open>v\<close> and sends them the entries from \<open>w\<close> on; the peers have the log \<open>L'\<close>, committed up to \<open>k'\<close>; the messages \<open>ms\<close> are on their way.\<close>

definition stage where
  "stage ps l t L k v w L' k' ms a c \<longleftrightarrow>
     partitioned c = {} \<and> tc_leader c = Some l \<and> pending_messages c = ms \<and>
     (\<exists>s. tc_node l c = Some s \<and> append_entries_count s \<le> a \<and>
        leader_at l ps t L k (\<lambda>_. v) (\<lambda>_. w) (append_entries_count s) s) \<and>
     (\<forall>p\<in>set ps. \<exists>s. tc_node p c = Some s \<and> follower_at t L' k' p s)"

lemma stageI:
  assumes "partitioned c = {}" and "tc_leader c = Some l" and "pending_messages c = ms"
    and "tc_node l c = Some s" and "leader_at l ps t L k M N b s" and "\<And>p. p \<in> set ps \<Longrightarrow> M p = v \<and> N p = w" and "b \<le> a"
    and "\<forall>p\<in>set ps. \<exists>s. tc_node p c = Some s \<and> follower_at t L' k' p s"
  shows "stage ps l t L k v w L' k' ms a c"
proof -
  have "append_entries_count s = b" using assms(5) by (rule leader_at_sel)
  moreover have "leader_at l ps t L k (\<lambda>_. v) (\<lambda>_. w) b s"
    by (rule leader_at_cong [OF assms(5)]) (rule assms(6))
  ultimately show ?thesis using assms unfolding stage_def by blast
qed

lemma stage_mono: "stage ps l t L k v w L' k' ms a c \<Longrightarrow> a \<le> b \<Longrightarrow> stage ps l t L k v w L' k' ms b c"
  by (auto simp: stage_def intro: order.trans)

lemma round_requests:
  assumes "stage ps l t (L @ es) kc v w L k
      (map (\<lambda>p. (l, p, AppendEntries (request l t L es kc))) ps) a c"
    and "rng_ok rng" and "k \<le> kc" and "kc \<le> length (L @ es)" and "length (L @ es) + 1 < u64_bound"
    and "distinct ps" and "l \<notin> set ps" and "length ps \<le> 50"
  shows "\<exists>r c'. deliver_all rng c = Some (r, c') \<and>
     stage ps l t (L @ es) kc v w (L @ es) kc
       (map (\<lambda>p. (p, l, AppendEntriesResponse (ack p t (length (L @ es))))) ps) a c' \<and>
     map_of r l = None \<and> (\<forall>p\<in>set ps. applied (actions_of r p) = commands (L @ es) k kc)"
proof -
  let ?c = "c\<lparr>pending_messages := []\<rparr>"
  have p: "partitioned ?c = {}" "\<forall>p\<in>set ps. \<exists>s. tc_node p ?c = Some s \<and> follower_at t L k p s"
    using assms(1) by (auto simp: stage_def)
  from deliver_requests [OF assms(2-6) p, of l "[]"] obtain r c' where
    d: "deliver_loop rng (map (\<lambda>p. (l, p, AppendEntries (request l t L es kc))) ps) [] ?c = Some (r, c')"
    "partitioned c' = {}" "tc_leader c' = tc_leader ?c"
    "pending_messages c' = [] @ map (\<lambda>p. (p, l, AppendEntriesResponse (ack p t (length (L @ es))))) ps"
    "\<forall>p\<in>set ps. \<exists>s. tc_node p c' = Some s \<and> follower_at t (L @ es) kc p s \<and>
        applied (actions_of r p) = applied (actions_of [] p) @ commands (L @ es) k kc"
    "\<forall>p. p \<notin> set ps \<longrightarrow> tc_node p c' = tc_node p ?c \<and> map_of r p = map_of [] p"
    by auto
  have "tc_node l c' = tc_node l c" "map_of r l = None" using d(6) assms(7) by simp_all
  moreover have "deliver_all rng c = Some (r, c')"
    using assms(1,8) d(1) by (simp add: deliver_all_small stage_def)
  moreover have "\<forall>p\<in>set ps. applied (actions_of r p) = commands (L @ es) k kc"
    using d(5) by (auto simp: actions_of_def)
  ultimately show ?thesis
    using assms(1) d(2-5) by (intro exI [of _ r] exI [of _ c']) (auto simp: stage_def)
qed

lemma round_acks:
  assumes "stage ps l t L k v w L k' (map (\<lambda>p. (p, l, AppendEntriesResponse (ack p t (length L)))) ps) a c"
    and "L \<noteq> []" and "le_term (last L) = t" and "length L + 1 < u64_bound" and "k \<le> length L" and "v \<le> length L"
    and "ps \<noteq> []" and "l \<notin> set ps" and "length ps \<le> 50" and "a + length ps < u64_bound"
  shows "\<exists>r c'. deliver_all rng c = Some (r, c') \<and>
     stage ps l t L (length L) (length L) (length L + 1) L k' [] (a + length ps) c' \<and>
     applied (actions_of r l) = commands L k (length L)"
proof -
  let ?c = "c\<lparr>pending_messages := []\<rparr>"
  from assms(1) obtain s where s: "tc_node l ?c = Some s" "append_entries_count s \<le> a"
    "leader_at l ps t L k (\<lambda>_. v) (\<lambda>_. w) (append_entries_count s) s" and p: "partitioned ?c = {}"
    by (auto simp: stage_def)
  have "append_entries_count s + length ps < u64_bound" "\<forall>p\<in>set ps. v \<le> length L"
    using s(2) assms(6,10) by simp_all
  from deliver_acks [OF assms(2-4) order.refl order.refl p s(1,3) this(2) assms(5) this(1), of rng "[]"]
  obtain r c' s' k2 where
    d: "deliver_loop rng (map (\<lambda>p. (p, l, AppendEntriesResponse (ack p t (length L)))) ps) [] ?c = Some (r, c')"
    "partitioned c' = {}" "tc_leader c' = tc_leader ?c" "pending_messages c' = pending_messages ?c" "tc_node l c' = Some s'"
    "leader_at l ps t L k2 (acked ps (length L) (\<lambda>_. v)) (acked ps (length L + 1) (\<lambda>_. w))
       (append_entries_count s + length ps) s'"
    "applied (actions_of r l) = applied (actions_of [] l) @ commands L k k2"
    "ps \<noteq> [] \<and> (\<forall>p\<in>set ps. acked ps (length L) (\<lambda>_. v) p = length L) \<longrightarrow> k2 = length L"
    "\<forall>p. p \<noteq> l \<longrightarrow> tc_node p c' = tc_node p ?c"
    by blast
  have k2: "k2 = length L" using d(8) assms(7) by (simp add: acked_def)
  have "tc_node p c' = tc_node p c" if "p \<in> set ps" for p using d(9) that assms(8) by auto
  then have "stage ps l t L (length L) (length L) (length L + 1) L k' [] (a + length ps) c'"
    using assms(1) s(2) d(2-5)
    by (intro stageI [OF _ _ _ _ d(6) [unfolded k2]]) (auto simp: stage_def acked_def)
  moreover have "deliver_all rng c = Some (r, c')"
    using assms(1,9) d(1) by (simp add: deliver_all_small stage_def)
  ultimately show ?thesis using d(7) k2 by (auto simp: actions_of_def)
qed

lemma stage_broadcast:
  assumes "stage ps l t (L @ es) k v (length L + 1) L' k' [] a c" and "length (L @ es) + 1 < u64_bound"
  shows "\<exists>c'. broadcast l c = Some c' \<and> tc_nodes c' = tc_nodes c \<and>
     stage ps l t (L @ es) k v (length L + 1) L' k'
       (map (\<lambda>p. (l, p, AppendEntries (request l t L es k))) ps) a c'"
proof -
  let ?c = "c\<lparr>pending_messages := map (\<lambda>p. (l, p, AppendEntries (request l t L es k))) ps\<rparr>"
  from assms(1) obtain s where s: "tc_node l c = Some s"
    "leader_at l ps t (L @ es) k (\<lambda>_. v) (\<lambda>_. length L + 1) (append_entries_count s) s"
    by (auto simp: stage_def)
  have "broadcast l c = Some ?c"
    using leader_broadcast [OF s(2) _ assms(2)] s(1) assms(1)
    by (simp add: broadcast_def collect_actions_def stage_def)
  with assms(1) show ?thesis by (intro exI [of _ ?c]) (simp add: stage_def)
qed

lemma round_proposal:
  assumes "synced ids l t L a c" and "rng_ok rng" and "3 \<le> length ids" and "length ids \<le> 25"
    and "a + length ids < u64_bound" and "length L + 2 < u64_bound"
  shows "\<exists>x c1 r c'. tc_propose command c = Some (x, c1) \<and> deliver_all rng c1 = Some (r, c') \<and>
     stage (filter (\<lambda>p. p \<noteq> l) ids) l t (L @ [\<lparr> le_term = t, le_command = command \<rparr>]) (length L) (length L) (length L + 1)
       (L @ [\<lparr> le_term = t, le_command = command \<rparr>]) (length L)
       (map (\<lambda>p. (p, l, AppendEntriesResponse (ack p t (length L + 1)))) (filter (\<lambda>p. p \<noteq> l) ids))
       (a + length ids) c'"
proof -
  let ?ps = "filter (\<lambda>p. p \<noteq> l) ids" and ?e = "\<lparr> le_term = t, le_command = command \<rparr>"
  let ?acks = "\<lambda>qs. map (\<lambda>p. (p, l, AppendEntriesResponse (ack p t (length L)))) qs"
  let ?reqs = "map (\<lambda>p. (l, p, AppendEntries (request l t L [?e] (length L)))) ?ps"
  from assms(1) have d: "distinct ?ps" "l \<notin> set ?ps" "L \<noteq> []" "partitioned c = {}" "tc_leader c = Some l"
    "distinct ids" "l \<in> set ids" by (simp_all add: synced_def)
  have len: "length ids = Suc (length ?ps)"
    using sum_length_filter_compl [of "\<lambda>p. p \<noteq> l" ids] d(6,7)
    by (simp add: filter_eq_Cons_iff distinct_length_filter Collect_conv_if flip: One_nat_def)
  from syncedD [OF assms(1)] obtain s qs where s: "tc_node l c = Some s" "append_entries_count s \<le> a"
    "leader_at l ?ps t L (length L) (\<lambda>_. length L) (\<lambda>_. length L + 1)
        (append_entries_count s) s"
    and q: "pending_messages c = ?acks qs" "set qs \<subseteq> set ?ps" "length qs \<le> length ids"
    and f: "\<forall>p\<in>set ?ps. \<exists>s. tc_node p c = Some s \<and> follower_at t L (length L) p s" .
  from leader_propose [OF s(3) _ assms(6), of command] obtain a1 s1 where
    p: "propose command s = Some (Some (a1 # map (\<lambda>p. SendMessage p (AppendEntries
       (request l t L [?e] (length L)))) ?ps), s1)" "\<not> is_send a1"
    and l1: "leader_at l ?ps t (L @ [?e]) (length L) (\<lambda>_. length L) (\<lambda>_. length L + 1) (append_entries_count s) s1" by auto
  let ?c1 = "(set_node l s1 c)\<lparr>pending_messages := ?acks qs @ ?reqs\<rparr>"
  have "sends l [a1] = []" using p(2) by (cases a1) simp_all
  then obtain x where tp: "tc_propose command c = Some (x, ?c1)"
    using s(1) p(1) d(4,5) q(1) by (simp add: tc_propose_def on_node_def collect_actions_def)
  let ?c0 = "?c1\<lparr>pending_messages := []\<rparr>"
  have c0: "partitioned ?c0 = {}" "tc_node l ?c0 = Some s1" "append_entries_count s + length qs < u64_bound"
    using d(4) s(2) q(3) assms(5) by simp_all
  from deliver_acks [OF _ _ _ _ q(2) c0(1,2) l1 _ _ c0(3), of "length L" rng "[]"] assms(6) obtain r2 c2 s2 k2 where
    a: "deliver_loop rng (?acks qs) [] ?c0 = Some (r2, c2)" "partitioned c2 = {}" "tc_leader c2 = tc_leader ?c0"
    "pending_messages c2 = pending_messages ?c0" "tc_node l c2 = Some s2"
    "leader_at l ?ps t (L @ [?e]) k2 (acked qs (length L) (\<lambda>_. length L))
       (acked qs (length L + 1) (\<lambda>_. length L + 1)) (append_entries_count s + length qs) s2"
    "distinct ?ps \<and> 2 \<le> length ?ps \<and> length L = length L \<and> (\<forall>p\<in>set ?ps. length L = length L) \<longrightarrow> k2 = length L"
    "\<forall>p. p \<noteq> l \<longrightarrow> tc_node p c2 = tc_node p ?c0" by auto
  have k2: "k2 = length L" using a(7) d(1) len assms(3) by simp
  have f2: "\<forall>p\<in>set ?ps. \<exists>s. tc_node p c2 = Some s \<and> follower_at t L (length L) p s"
    using f a(8) d(2) by auto
  have "length L \<le> length (L @ [?e])" "length (L @ [?e]) + 1 < u64_bound" using assms(6) by simp_all
  from deliver_requests [OF assms(2) order.refl this d(1) a(2) f2, of l r2] obtain r c' where
    b: "deliver_loop rng ?reqs r2 c2 = Some (r, c')" "partitioned c' = {}" "tc_leader c' = tc_leader c2"
    "pending_messages c' = pending_messages c2 @ map (\<lambda>p. (p, l, AppendEntriesResponse (ack p t (length (L @ [?e]))))) ?ps"
    "\<forall>p\<in>set ?ps. \<exists>s. tc_node p c' = Some s \<and> follower_at t (L @ [?e]) (length L) p s"
    "\<forall>p. p \<notin> set ?ps \<longrightarrow> tc_node p c' = tc_node p c2" by blast
  have "deliver_all rng ?c1 = Some (r, c')"
    using a(1) b(1) q(3) len assms(4) by (simp add: deliver_all_small deliver_loop_append)
  moreover have "stage ?ps l t (L @ [?e]) (length L) (length L) (length L + 1) (L @ [?e]) (length L)
      (map (\<lambda>p. (p, l, AppendEntriesResponse (ack p t (length L + 1)))) ?ps) (a + length ids) c'"
  proof (rule stageI [OF b(2) _ _ _ a(6) [unfolded k2] _ _ b(5)])
    show "tc_leader c' = Some l" using b(3) a(3) d(5) by simp
    show "tc_node l c' = Some s2" using b(6) a(5) d(2) by simp
    show "append_entries_count s + length qs \<le> a + length ids" using s(2) q(3) by simp
  qed (use b(4) a(4) in \<open>simp_all add: acked_def\<close>)
  ultimately show ?thesis using tp by blast
qed

lemma propose_and_sync_progress:
  assumes "synced ids l t L a c" and "rng_ok rng" and "3 \<le> length ids" and "length ids \<le> 25"
    and "a + 2 * length ids < u64_bound" and "length L + 2 < u64_bound"
  shows "\<exists>out c'. propose_and_sync rng command c = Some (out, c') \<and>
     synced ids l t (L @ [\<lparr> le_term = t, le_command = command \<rparr>]) (a + 2 * length ids) c' \<and>
     (\<forall>n\<in>set ids. applied (actions_of out n) = [(length L + 1, command)])"
proof -
  let ?ps = "filter (\<lambda>p. p \<noteq> l) ids" and ?L = "L @ [\<lparr> le_term = t, le_command = command \<rparr>]"
  let ?acks = "map (\<lambda>p. (p, l, AppendEntriesResponse (ack p t (length ?L)))) ?ps"
  let ?reqs = "map (\<lambda>p. (l, p, AppendEntries (request l t ?L [] (length ?L)))) ?ps"
  from assms(1) have d: "distinct ?ps" "l \<notin> set ?ps" "tc_leader c = Some l" "distinct ids" "l \<in> set ids"
    by (simp_all add: synced_def)
  have ps: "length ?ps \<le> length ids" "?ps \<noteq> []"
    using assms(3) d(4) by (auto simp: filter_empty_conv length_Suc_conv numeral_eq_Suc dest!: Suc_le_length_iff [THEN iffD1])
  from round_proposal [OF assms(1-4) _ assms(6), of command] assms(5) obtain x c1 r1 c2 where
    one: "tc_propose command c = Some (x, c1)" "deliver_all rng c1 = Some (r1, c2)"
    and s2: "stage ?ps l t ?L (length L) (length L) (length L + 1) ?L (length L) ?acks (a + length ids) c2" by auto
  from round_acks [OF s2, of rng] assms(4-6) ps d(2) obtain r2 c3 where
    two: "deliver_all rng c2 = Some (r2, c3)"
    and s3: "stage ?ps l t ?L (length ?L) (length ?L) (length ?L + 1) ?L (length L) [] (a + length ids + length ?ps) c3"
    and ap: "applied (actions_of r2 l) = commands ?L (length L) (length ?L)" by auto
  from stage_broadcast [of ?ps l t ?L "[]", simplified, OF s3 [simplified]] assms(6) obtain c3' where
    bc: "broadcast l c3 = Some c3'"
    and s3': "stage ?ps l t (?L @ []) (length ?L) (length ?L) (length ?L + 1) ?L (length L) ?reqs
      (a + length ids + length ?ps) c3'"
    by auto
  from round_requests [OF s3' assms(2) _ _ _ d(1,2)] assms(4,6) ps(1) obtain r4 c4 where
    three: "deliver_all rng c3' = Some (r4, c4)"
    and s4: "stage ?ps l t (?L @ []) (length ?L) (length ?L) (length ?L + 1) (?L @ []) (length ?L)
      (map (\<lambda>p. (p, l, AppendEntriesResponse (ack p t (length (?L @ []))))) ?ps) (a + length ids + length ?ps) c4"
    and ap4: "map_of r4 l = None" "\<forall>p\<in>set ?ps. applied (actions_of r4 p) = commands (?L @ []) (length L) (length ?L)"
    by auto
  let ?out = "AList.merge [(l, actions_of r2 l)] r4"
  have "propose_and_sync rng command c = Some (?out, c4)"
    using one two bc three d(3) by (simp add: propose_and_sync_def)
  moreover have "synced ids l t ?L (a + 2 * length ids) c4"
    using stage_mono [OF s4, of "a + 2 * length ids"] d(4,5) ps(1)
    by (auto simp: stage_def synced_def list_all_iff)
  moreover have "applied (actions_of ?out n) = [(length L + 1, command)]" if "n \<in> set ids" for n
  proof (cases "n = l")
    case True
    with ap ap4(1) show ?thesis by (simp add: actions_of_def merge_conv' map_add_def commands_next)
  next
    case False
    then have "actions_of ?out n = actions_of r4 n"
      by (simp add: actions_of_def merge_conv' map_add_def split: option.splits)
    with False that ap4(2) show ?thesis by (simp add: commands_next)
  qed
  ultimately show ?thesis by blast
qed

text \<open>A list of proposals, one after the other.\<close>

primrec propose_each :: "rng \<Rightarrow> bytes list \<Rightarrow> TestCluster \<Rightarrow> (outcome list \<times> TestCluster) option" where
  "propose_each rng [] c = Some ([], c)"
| "propose_each rng (x # xs) c = do {
     (out, c') \<leftarrow> propose_and_sync rng x c;
     (outs, c'') \<leftarrow> propose_each rng xs c';
     Some (out # outs, c'') }"

lemma propose_each_progress:
  assumes "synced ids l t L a c" and "rng_ok rng" and "3 \<le> length ids" and "length ids \<le> 25"
    and "a + 2 * length ids * length xs < u64_bound" and "length L + length xs + 2 < u64_bound"
  shows "\<exists>outs c'. propose_each rng xs c = Some (outs, c') \<and>
     synced ids l t (L @ map (\<lambda>x. \<lparr> le_term = t, le_command = x \<rparr>) xs) (a + 2 * length ids * length xs) c' \<and>
     (\<forall>n\<in>set ids. concat (map (\<lambda>out. applied (actions_of out n)) outs) = enumerate (length L + 1) xs)"
  using assms(1,5,6)
proof (induction xs arbitrary: L a c)
  case (Cons x xs)
  have "a + 2 * length ids < u64_bound" "length L + 2 < u64_bound" using Cons.prems(2,3) by simp_all
  from propose_and_sync_progress [OF Cons.prems(1) assms(2-4) this, of x] obtain out c1 where
    p: "propose_and_sync rng x c = Some (out, c1)"
    "synced ids l t (L @ [\<lparr> le_term = t, le_command = x \<rparr>]) (a + 2 * length ids) c1"
    "\<forall>n\<in>set ids. applied (actions_of out n) = [(length L + 1, x)]" by blast
  from Cons.IH [OF p(2)] Cons.prems(2,3) obtain outs c2 where
    q: "propose_each rng xs c1 = Some (outs, c2)"
    "synced ids l t (L @ map (\<lambda>x. \<lparr> le_term = t, le_command = x \<rparr>) (x # xs))
       (a + 2 * length ids * length (x # xs)) c2"
    "\<forall>n\<in>set ids. concat (map (\<lambda>out. applied (actions_of out n)) outs) = enumerate (length L + 2) xs"
    by (auto simp: algebra_simps)
  from p(1) q(1) have "propose_each rng (x # xs) c = Some (out # outs, c2)" by simp
  moreover have "\<forall>n\<in>set ids.
      concat (map (\<lambda>out. applied (actions_of out n)) (out # outs)) = enumerate (length L + 1) (x # xs)"
    using p(3) q(3) by simp
  ultimately show ?case using q(2) by blast
qed simp

end
