(* ===== verification/ElectionProgress.thy ===== *)
theory ElectionProgress
  imports Replication
begin

text \<open>
  Progress from the start: in the cluster of the tests, for any number of nodes, a fresh node whose
  timeout passes is elected, and its first entry is committed everywhere.  Together with \<open>Replication\<close>
  this covers every script \<open>new_with_leader\<close>, \<open>propose_and_sync\<close>, \<open>propose_and_sync\<close>, \<dots>
\<close>

section \<open>The first term on each side\<close>

definition ballot :: "NodeId \<Rightarrow> RequestVoteRPC" where
  "ballot l = \<lparr> rv_term = 1, rv_candidate_id = l, rv_last_log_index = 0, rv_last_log_term = 0 \<rparr>"

definition vote :: "NodeId \<Rightarrow> RequestVoteResponseRPC" where
  "vote p = \<lparr> rvr_id = p, rvr_term = 1, rvr_vote_granted = True \<rparr>"

definition nack :: "NodeId \<Rightarrow> AppendEntriesResponseRPC" where
  "nack p =
     \<lparr> aer_id = p, aer_term = 1, aer_match_index = 0, aer_success = False,
       aer_first_conflicting_index = Some 1, aer_first_conflicting_term = None \<rparr>"

definition first_entry :: LogEntry where
  "first_entry = \<lparr> le_term = 1, le_command = [] \<rparr>"

text \<open>A fresh node votes.\<close>

lemma voter_step:
  assumes "follower_at 0 [] 0 p s" and "last_included_term s = 0" and "rng_ok rng"
  shows "\<exists>as s'. dispatch_message rng (RequestVote (ballot l)) s = Some (as, s') \<and> follower_at 1 [] 0 p s' \<and>
     sends p as = [(p, l, RequestVoteResponse (vote p))] \<and> applied as = []"
proof -
  have "fst (election_timeout_range s) < snd (election_timeout_range s)" using assms(1) by (simp add: follower_at_def)
  from rng_value [OF assms(3) this] obtain tm where tm: "rng (election_timeout_range s) = Some tm" .
  have "log_term_at s 0 = Some 0" using assms(1,2) by (simp add: log_term_at_def follower_at_def)
  with assms(1,2) tm show ?thesis
    by (simp add: dispatch_message_def handle_request_vote_def check_msg_term_def reset_election_timeout_def
        ballot_def vote_def follower_at_def last_log_index_def last_log_term_def can_vote_def log_check_def
        vote_response_def log_term_at_def)
qed

text \<open>It refuses the request that follows an entry it does not have.\<close>

lemma follower_refuses:
  assumes "follower_at 1 [] 0 p s" and "rng_ok rng"
  shows "\<exists>as s'. dispatch_message rng (AppendEntries (request l 1 [first_entry] [] 0)) s = Some (as, s') \<and>
     follower_at 1 [] 0 p s' \<and> sends p as = [(p, l, AppendEntriesResponse (nack p))] \<and> applied as = []"
proof -
  have "fst (election_timeout_range s) < snd (election_timeout_range s)" using assms(1) by (simp add: follower_at_def)
  from rng_value [OF assms(2) this] obtain tm where tm: "rng (election_timeout_range s) = Some tm" .
  with assms(1) show ?thesis
    by (simp add: dispatch_message_def handle_append_entries_def reset_election_timeout_def request_def
        follower_at_def last_log_index_def ae_valid_def conflict_response_def base_response_def nack_def
        append_response_def)
qed

text \<open>The leader then starts from its first entry.\<close>

lemma leader_nack:
  assumes "leader_at l ps 1 [first_entry] 0 M N a s" and "p \<in> set ps"
  shows "\<exists>as s'. dispatch_message rng (AppendEntriesResponse (nack p)) s = Some (as, s') \<and>
     leader_at l ps 1 [first_entry] 0 M (N(p := 1)) a s' \<and>
     sends l as = [(l, p, AppendEntries (request l 1 [] [first_entry] 0))]"
proof -
  let ?s = "record_failure (nack p) s"
  have "map_of (next_index s) p \<noteq> None" using assms by (auto simp: leader_at_def)
  then have l: "leader_at l ps 1 ([] @ [first_entry]) 0 M (N(p := 1)) a ?s"
    using assms(1) by (simp add: leader_at_def record_failure_def nack_def map_of_and_modify)
  have "build_append_entries_for_peer ?s p = Some (SendMessage p (AppendEntries (request l 1 [] [first_entry] 0)))"
    by (rule leader_request [OF l assms(2)]) simp_all
  then have "handle_append_entries_response rng (nack p) s =
      Some ([SendMessage p (AppendEntries (request l 1 [] [first_entry] 0))], ?s)"
    using assms(1) by (simp add: handle_append_entries_response_def nack_def leader_at_sel)
  with l show ?thesis by (simp add: dispatch_message_def)
qed

section \<open>Votes\<close>

text \<open>The candidate of the first term that has the votes \<open>V\<close>.\<close>

definition candidate_at :: "NodeId \<Rightarrow> NodeId list \<Rightarrow> NodeId set \<Rightarrow> RaftCore \<Rightarrow> bool" where
  "candidate_at l ps V s \<longleftrightarrow>
     node_id s = l \<and> state s = Candidate \<and> peers s = ps \<and> current_term s = 1 \<and> log s = [] \<and>
     commit_index s = 0 \<and> last_applied s = 0 \<and> last_included_index s = 0 \<and> last_included_term s = 0 \<and>
     read_barriers s = [] \<and> append_entries_count s = 0 \<and> next_index s = [] \<and> match_index s = [] \<and>
     votes_received s = V \<and> fst (election_timeout_range s) < snd (election_timeout_range s)"

lemma candidate_wins:
  assumes "candidate_at l ps V s" and "rng_ok rng"
  shows "\<exists>a s'. become_leader rng s =
       Some (a # map (\<lambda>p. SendMessage p (AppendEntries (request l 1 [first_entry] [] 0))) ps, s') \<and>
     \<not> is_send a \<and> leader_at l ps 1 [first_entry] 0 (\<lambda>_. 0) (\<lambda>_. 2) 0 s'"
proof -
  have k: "keyed s" "fst (election_timeout_range s) < snd (election_timeout_range s)" "lli s + 2 < u64_bound"
    using assms(1) by (simp_all add: candidate_at_def keyed_def lli_def)
  from become_leader_total [OF assms(2) k(2,3,1)] obtain as s' where
    b: "become_leader rng s = Some (as, s')" "keyed s'" by blast
  from become_leader_Some [OF b(1)] obtain tm msgs where
    m: "append_entries s' = Some msgs" "as = PersistLogEntries 1 [first_entry] # msgs"
    and s': "s' = (init_peers 2 ps (s\<lparr>state := Leader, current_leader := Some l, log := [first_entry]\<rparr>))
          \<lparr>ticks_since_last_heartbeat := 0, election_timeout := tm\<rparr>"
    using assms(1) by (auto simp: candidate_at_def lli_def first_entry_def numeral_2_eq_2)
  have d: "fst ` set (match_index s') = set ps"
    using init_peers_match [of 2 ps "s\<lparr>state := Leader, current_leader := Some l, log := [first_entry]\<rparr>"]
      assms(1) by (simp add: s' candidate_at_def flip: dom_map_of_conv_image_fst) (auto simp: dom_def)
  have l: "leader_at l ps 1 ([first_entry] @ []) 0 (\<lambda>_. 0) (\<lambda>_. 2) 0 s'"
    using assms(1) d b(2) by (simp add: s' leader_at_def candidate_at_def keyed_def init_peers_next init_peers_match)
  with leader_broadcast [OF l] m b(1) show ?thesis by simp
qed

text \<open>What holds of the candidate when the votes of \<open>qs\<close> are still on their way and the messages \<open>ms\<close> wait.\<close>

definition counting where
  "counting l ps qs s ms \<longleftrightarrow>
     candidate_at l ps (insert l (set ps - set qs)) s \<and> \<not> has_quorum s \<and> ms = [] \<or>
     leader_at l ps 1 [first_entry] 0 (\<lambda>_. 0) (\<lambda>_. 2) 0 s \<and>
       ms = map (\<lambda>p. (l, p, AppendEntries (request l 1 [first_entry] [] 0))) ps"

lemma vote_step:
  assumes "counting l ps (q # qs) s ms" and "rng_ok rng" and "q \<in> set ps" and "q \<notin> set qs"
  shows "\<exists>as s'. dispatch_message rng (RequestVoteResponse (vote q)) s = Some (as, s') \<and>
     counting l ps qs s' (ms @ sends l as)"
proof (cases "state s = Candidate")
  case False
  with assms(1) have l: "leader_at l ps 1 [first_entry] 0 (\<lambda>_. 0) (\<lambda>_. 2) 0 s"
    "ms = map (\<lambda>p. (l, p, AppendEntries (request l 1 [first_entry] [] 0))) ps"
    by (auto simp: counting_def candidate_at_def)
  then have "dispatch_message rng (RequestVoteResponse (vote q)) s = Some ([], s)"
    by (simp add: dispatch_message_def handle_request_vote_response_def vote_def leader_at_sel)
  with l show ?thesis by (simp add: counting_def)
next
  case True
  with assms(1) have c: "candidate_at l ps (insert l (set ps - set (q # qs))) s" "ms = []"
    by (auto simp: counting_def leader_at_def)
  let ?s = "s\<lparr>votes_received := insert q (votes_received s)\<rparr>"
  have "insert q (insert l (set ps - set (q # qs))) = insert l (set ps - set qs)" using assms(3,4) by auto
  with c(1) have c': "candidate_at l ps (insert l (set ps - set qs)) ?s" by (simp add: candidate_at_def)
  have h: "dispatch_message rng (RequestVoteResponse (vote q)) s =
      (if has_quorum ?s then become_leader rng ?s else Some ([], ?s))"
    using c(1)
    by (cases "become_leader rng ?s")
      (auto simp: dispatch_message_def handle_request_vote_response_def vote_def candidate_at_def)
  show ?thesis
  proof (cases "has_quorum ?s")
    case True
    from candidate_wins [OF c' assms(2)] obtain a s' where
      b: "become_leader rng ?s =
        Some (a # map (\<lambda>p. SendMessage p (AppendEntries (request l 1 [first_entry] [] 0))) ps, s')"
      "\<not> is_send a" "leader_at l ps 1 [first_entry] 0 (\<lambda>_. 0) (\<lambda>_. 2) 0 s'" by blast
    from b(2) have "queued l a = []" by (cases a) simp_all
    with b True h c(2) show ?thesis by (simp add: counting_def)
  next
    case False
    with h c' c(2) show ?thesis by (simp add: counting_def)
  qed
qed

lemma counting_done:
  assumes "counting l ps [] s ms" and "distinct ps" and "l \<notin> set ps"
  shows "leader_at l ps 1 [first_entry] 0 (\<lambda>_. 0) (\<lambda>_. 2) 0 s \<and>
     ms = map (\<lambda>p. (l, p, AppendEntries (request l 1 [first_entry] [] 0))) ps"
  using assms by (auto simp: counting_def candidate_at_def has_quorum_def distinct_card)

text \<open>Messages to one node, one after the other.\<close>

lemma deliver_to_one:
  assumes "\<And>q qs s ms. J (q # qs) s ms \<Longrightarrow>
      \<exists>as s'. dispatch_message rng (m q) s = Some (as, s') \<and> J qs s' (ms @ sends l as)"
    and "J qs s (pending_messages c)" and "partitioned c = {}" and "tc_node l c = Some s"
  shows "\<exists>r' c' s'. deliver_loop rng (map (\<lambda>q. (q, l, m q)) qs) r c = Some (r', c') \<and>
     partitioned c' = {} \<and> tc_leader c' = tc_leader c \<and> tc_node l c' = Some s' \<and> J [] s' (pending_messages c') \<and>
     (\<forall>p. p \<noteq> l \<longrightarrow> tc_node p c' = tc_node p c)"
  using assms(2-4)
proof (induction qs arbitrary: r c s)
  case (Cons q qs)
  from assms(1) [OF Cons.prems(1)] obtain as s1 where
    h: "dispatch_message rng (m q) s = Some (as, s1)" "J qs s1 (pending_messages c @ sends l as)" by blast
  let ?c = "(set_node l s1 c)\<lparr>pending_messages := pending_messages c @ sends l as\<rparr>"
  let ?r = "AList.update l (actions_of r l @ filter (\<lambda>a. \<not> is_send a) as) r"
  have "J qs s1 (pending_messages ?c)" "partitioned ?c = {}" "tc_node l ?c = Some s1"
    using h(2) Cons.prems(2) by simp_all
  from Cons.IH [OF this, of ?r] deliver_one [OF Cons.prems(2,3) h(1)] show ?case by auto
qed auto

section \<open>Standing for election\<close>

definition fresh_at :: "NodeId list \<Rightarrow> NodeId \<Rightarrow> RaftCore \<Rightarrow> bool" where
  "fresh_at ids n s \<longleftrightarrow>
     follower_at 0 [] 0 n s \<and> last_included_term s = 0 \<and> peers s = filter (\<lambda>p. p \<noteq> n) ids \<and> next_index s = [] \<and>
     match_index s = [] \<and> read_barriers s = [] \<and> append_entries_count s = 0 \<and>
     ticks_since_last_heartbeat s = 0 \<and> 0 < election_timeout s \<and> election_timeout s < u64_bound"

lemma new_fresh:
  assumes "rng_ok rng"
  shows "\<exists>s. new rng n ids None (15, 31) = Some s \<and> fresh_at ids n s"
proof -
  obtain tm where "rng (15, 31) = Some tm" "15 \<le> tm" "tm < 31"
    using assms [unfolded rng_ok_def, rule_format, of 15 31] by auto
  then show ?thesis by (simp add: new_def fresh_at_def follower_at_def)
qed

lemma tc_new_fresh:
  assumes "rng_ok rng" and "distinct ids"
  shows "\<exists>c. tc_new rng ids = Some c \<and> partitioned c = {} \<and> pending_messages c = [] \<and> map fst (tc_nodes c) = ids \<and>
     (\<forall>n\<in>set ids. \<exists>s. tc_node n c = Some s \<and> fresh_at ids n s)"
proof -
  let ?new = "\<lambda>n. new rng n ids None (15, 31)"
  from map_opt_total [of ids ?new] new_fresh [OF assms(1)] obtain cores where c: "map_opt ?new ids = Some cores"
    by blast
  then have len: "length ids = length cores" and nth: "\<And>i. i < length ids \<Longrightarrow> ?new (ids ! i) = Some (cores ! i)"
    by (auto simp: map_opt_eq_Some list_all2_conv_all_nth)
  have up: "AList.updates ids cores [] = zip ids cores" using updates_new [OF len, of "[]"] assms(2) by simp
  have "\<exists>s. map_of (zip ids cores) n = Some s \<and> fresh_at ids n s" if "n \<in> set ids" for n
  proof -
    from that obtain i where i: "i < length ids" "n = ids ! i" by (auto simp: in_set_conv_nth)
    with nth new_fresh [OF assms(1), of n ids] have "fresh_at ids n (cores ! i)" by auto
    moreover have "map_of (zip ids cores) n = Some (cores ! i)"
      using i len assms(2) by (simp add: map_of_zip_nth)
    ultimately show ?thesis by blast
  qed
  with c len up show ?thesis by (simp add: tc_new_def tc_node_def)
qed

lemma ticks_wait:
  "state s \<noteq> Leader \<Longrightarrow> ticks_since_last_heartbeat s + n < election_timeout s \<Longrightarrow> election_timeout s < u64_bound \<Longrightarrow>
     ticks rng n s = Some ((), s\<lparr>ticks_since_last_heartbeat := ticks_since_last_heartbeat s + n\<rparr>)"
proof (induction n arbitrary: s)
  case (Suc n)
  then have "tick rng s = Some ([], s\<lparr>ticks_since_last_heartbeat := ticks_since_last_heartbeat s + 1\<rparr>)"
    by (intro tick_waits) simp_all
  with Suc show ?case by simp
qed simp

lemma fresh_stands:
  assumes "fresh_at ids l s" and "rng_ok rng"
  shows "\<exists>s1 as s2. tick_until_candidate rng s = Some ((), s1) \<and> tick rng s1 = Some (as, s2) \<and>
     candidate_at l (filter (\<lambda>p. p \<noteq> l) ids) {l} s2 \<and>
     sends l as = map (\<lambda>p. (l, p, RequestVote (ballot l))) (filter (\<lambda>p. p \<noteq> l) ids)"
proof -
  let ?ps = "filter (\<lambda>p. p \<noteq> l) ids"
  let ?s1 = "s\<lparr>ticks_since_last_heartbeat := election_timeout s - 1\<rparr>"
  have f: "state s = Follower" "0 < election_timeout s" "election_timeout s < u64_bound"
    "ticks_since_last_heartbeat s = 0" "fst (election_timeout_range s) < snd (election_timeout_range s)"
    using assms(1) by (simp_all add: fresh_at_def follower_at_def)
  have one: "tick_until_candidate rng s = Some ((), ?s1)"
    using ticks_wait [of s "election_timeout s - 1" rng] f by (simp add: tick_until_candidate_def)
  let ?s1' = "s\<lparr>ticks_since_last_heartbeat := election_timeout s\<rparr>"
  have "election_timeout_range ?s1' = election_timeout_range s" by simp
  from rng_value [OF assms(2), of ?s1'] f(5) obtain tm where tm: "rng (election_timeout_range s) = Some tm" by auto
  have "log_term_at s 0 = Some 0" using assms(1) by (simp add: log_term_at_def follower_at_def fresh_at_def)
  then have "tick rng ?s1 = Some (PersistMetadata 1 (Some l) # map (\<lambda>p. SendMessage p (RequestVote (ballot l))) ?ps,
      candidate_of tm ?s1')"
    using assms(1) f tm
    by (simp add: tick_def election_timeout_check_def fresh_at_def follower_at_def reset_election_timeout_def
        last_log_index_def last_log_term_def log_term_at_def ballot_def candidate_of_def)
  moreover have "candidate_at l ?ps {l} (candidate_of tm ?s1')"
    using assms(1) by (simp add: candidate_at_def fresh_at_def follower_at_def)
  ultimately show ?thesis using one by simp
qed

section \<open>The rounds of an election\<close>

lemma rounds_add: "rounds rng (m + n) c = Option.bind (rounds rng m c) (rounds rng n)"
proof (induction m arbitrary: c)
  case (Suc m)
  then show ?case by (cases "deliver_all rng c") (auto simp: split: prod.splits)
qed simp

lemma rounds_two:
  "deliver_all rng c = Some (r, c1) \<Longrightarrow> deliver_all rng c1 = Some (r', c2) \<Longrightarrow> rounds rng 2 c = Some c2"
  by (simp add: numeral_2_eq_2)

lemma update_known: "map_of al k \<noteq> None \<Longrightarrow> map fst (AList.update k v al) = map fst al"
  by (induction al) auto

lemma deliver_loop_keys:
  "deliver_loop rng ms r c = Some (r', c') \<Longrightarrow> map fst (tc_nodes c') = map fst (tc_nodes c)"
proof (induction ms arbitrary: r c)
  case (Cons x ms)
  then show ?case
    by (auto simp: on_node_def collect_actions_def opt_bind tc_node_def set_node_def update_known Let_def
        split: prod.splits if_splits dest!: Cons.IH)
qed simp

lemma rounds_keys: "rounds rng n c = Some c' \<Longrightarrow> map fst (tc_nodes c') = map fst (tc_nodes c)"
  by (induction n arbitrary: c)
    (auto simp: opt_bind deliver_all_def Let_def dest!: deliver_loop_keys)

lemma round_votes:
  assumes "rng_ok rng" and "distinct ps" and "l \<notin> set ps" and "ps \<noteq> []" and "length ps \<le> 50"
    and "partitioned c = {}" and "pending_messages c = map (\<lambda>p. (l, p, RequestVote (ballot l))) ps"
    and "tc_node l c = Some s" and "candidate_at l ps {l} s"
    and "\<forall>p\<in>set ps. \<exists>s. tc_node p c = Some s \<and> follower_at 0 [] 0 p s \<and> last_included_term s = 0"
  shows "\<exists>c'. rounds rng 2 c = Some c' \<and>
     stage ps l 1 [first_entry] 0 0 2 [] 0
       (map (\<lambda>p. (l, p, AppendEntries (request l 1 [first_entry] [] 0))) ps) 0 (c'\<lparr>tc_leader := Some l\<rparr>)"
proof -
  let ?c = "c\<lparr>pending_messages := []\<rparr>"
  have p: "partitioned ?c = {}"
    "\<forall>p\<in>set ps. \<exists>s. tc_node p ?c = Some s \<and> (follower_at 0 [] 0 p s \<and> last_included_term s = 0)"
    using assms(6,10) by simp_all
  have "\<exists>as s'. dispatch_message rng (RequestVote (ballot l)) s = Some (as, s') \<and> follower_at 1 [] 0 p s' \<and>
      sends p as = [(p, l, RequestVoteResponse (vote p))] \<and> applied as = []"
    if "follower_at 0 [] 0 p s \<and> last_included_term s = 0" for p s
    by (rule voter_step [OF conjunct1 [OF that] conjunct2 [OF that] assms(1)])
  from deliver_each [where l = l and r = "[]", OF this assms(2) p] obtain r1 c1 where
    a: "deliver_loop rng (map (\<lambda>p. (l, p, RequestVote (ballot l))) ps) [] ?c = Some (r1, c1)"
    "partitioned c1 = {}"
    "pending_messages c1 = pending_messages ?c @ map (\<lambda>p. (p, l, RequestVoteResponse (vote p))) ps"
    "\<forall>p\<in>set ps. \<exists>s. tc_node p c1 = Some s \<and> follower_at 1 [] 0 p s"
    "\<forall>p. p \<notin> set ps \<longrightarrow> tc_node p c1 = tc_node p ?c" by blast
  have d1: "deliver_all rng c = Some (r1, c1)" using a(1) assms(5,7) by (simp add: deliver_all_small)
  let ?J = "\<lambda>qs s ms. counting l ps qs s ms \<and> set qs \<subseteq> set ps \<and> distinct qs"
  let ?c1 = "c1\<lparr>pending_messages := []\<rparr>"
  have "\<not> has_quorum s" using assms(4,9) by (cases ps) (auto simp: has_quorum_def candidate_at_def)
  then have J: "?J ps s (pending_messages ?c1)" using assms(2,9) by (simp add: counting_def)
  have step: "\<exists>as s'. dispatch_message rng (RequestVoteResponse (vote q)) s = Some (as, s') \<and> ?J qs s' (ms @ sends l as)"
    if "?J (q # qs) s ms" for q qs s ms
    using vote_step [of l ps q qs s ms, OF _ assms(1)] that by auto
  have c1: "partitioned ?c1 = {}" "tc_node l ?c1 = Some s" using a(2,5) assms(3,8) by simp_all
  from deliver_to_one [of ?J rng "\<lambda>q. RequestVoteResponse (vote q)" l, OF step J c1, of "[]"] obtain r2 c2 s2 where
    b: "deliver_loop rng (map (\<lambda>q. (q, l, RequestVoteResponse (vote q))) ps) [] ?c1 = Some (r2, c2)"
    "partitioned c2 = {}" "tc_node l c2 = Some s2" "?J [] s2 (pending_messages c2)"
    "\<forall>p. p \<noteq> l \<longrightarrow> tc_node p c2 = tc_node p ?c1" by blast
  have d2: "deliver_all rng c1 = Some (r2, c2)" using a(3) b(1) assms(5) by (simp add: deliver_all_small)
  note w = counting_done [OF conjunct1 [OF b(4)] assms(2,3)]
  have n: "tc_node p (c2\<lparr>tc_leader := Some l\<rparr>) = tc_node p c2" for p by (simp add: tc_node_def)
  have "\<forall>p\<in>set ps. \<exists>s. tc_node p c2 = Some s \<and> follower_at 1 [] 0 p s" using a(4) b(5) assms(3) by auto
  then have "stage ps l 1 [first_entry] 0 0 2 [] 0
       (map (\<lambda>p. (l, p, AppendEntries (request l 1 [first_entry] [] 0))) ps) 0 (c2\<lparr>tc_leader := Some l\<rparr>)"
    using b(2,3) conjunct2 [OF w] by (intro stageI [OF _ _ _ _ conjunct1 [OF w]]) (simp_all add: n)
  with rounds_two [OF d1 d2] show ?thesis by blast
qed

lemma round_nacks:
  assumes "stage ps l 1 [first_entry] 0 0 2 [] 0
       (map (\<lambda>p. (l, p, AppendEntries (request l 1 [first_entry] [] 0))) ps) 0 c"
    and "rng_ok rng" and "distinct ps" and "l \<notin> set ps" and "length ps \<le> 50"
  shows "\<exists>c'. rounds rng 2 c = Some c' \<and>
     stage ps l 1 ([] @ [first_entry]) 0 0 1 [] 0
       (map (\<lambda>p. (l, p, AppendEntries (request l 1 [] [first_entry] 0))) ps) 0 c'"
proof -
  let ?c = "c\<lparr>pending_messages := []\<rparr>"
  from assms(1) obtain s where s: "tc_node l c = Some s" "append_entries_count s = 0"
    "leader_at l ps 1 [first_entry] 0 (\<lambda>_. 0) (\<lambda>_. 2) 0 s"
    and p: "partitioned ?c = {}" "\<forall>p\<in>set ps. \<exists>s. tc_node p ?c = Some s \<and> follower_at 1 [] 0 p s"
    and ld: "tc_leader c = Some l" by (auto simp: stage_def)
  from deliver_each [where l = l and r = "[]", OF follower_refuses [where l = l, OF _ assms(2)] assms(3) p]
  obtain r1 c1 where
    a: "deliver_loop rng (map (\<lambda>p. (l, p, AppendEntries (request l 1 [first_entry] [] 0))) ps) [] ?c = Some (r1, c1)"
    "partitioned c1 = {}" "tc_leader c1 = tc_leader ?c"
    "pending_messages c1 = pending_messages ?c @ map (\<lambda>p. (p, l, AppendEntriesResponse (nack p))) ps"
    "\<forall>p\<in>set ps. \<exists>s. tc_node p c1 = Some s \<and> follower_at 1 [] 0 p s"
    "\<forall>p. p \<notin> set ps \<longrightarrow> tc_node p c1 = tc_node p ?c" by blast
  have d1: "deliver_all rng c = Some (r1, c1)"
    using a(1) assms(1,5) by (simp add: deliver_all_small stage_def)
  let ?J = "\<lambda>qs s ms. \<exists>ds. ps = ds @ qs \<and>
      leader_at l ps 1 [first_entry] 0 (\<lambda>_. 0) (\<lambda>p. if p \<in> set qs then 2 else 1) 0 s \<and>
      ms = map (\<lambda>p. (l, p, AppendEntries (request l 1 [] [first_entry] 0))) ds"
  let ?c1 = "c1\<lparr>pending_messages := []\<rparr>"
  have "leader_at l ps 1 [first_entry] 0 (\<lambda>_. 0) (\<lambda>p. if p \<in> set ps then 2 else 1) 0 s"
    by (rule leader_at_cong [OF s(3)]) simp
  then have J: "?J ps s (pending_messages ?c1)" by auto
  have step: "\<exists>as s'. dispatch_message rng (AppendEntriesResponse (nack q)) s = Some (as, s') \<and> ?J qs s' (ms @ sends l as)"
    if "?J (q # qs) s ms" for q qs s ms
  proof -
    from that obtain ds where ds: "ps = ds @ q # qs"
      "leader_at l ps 1 [first_entry] 0 (\<lambda>_. 0) (\<lambda>p. if p \<in> set (q # qs) then 2 else 1) 0 s"
      "ms = map (\<lambda>p. (l, p, AppendEntries (request l 1 [] [first_entry] 0))) ds" by blast
    from leader_nack [OF ds(2), of q rng] ds(1) obtain as s' where
      h: "dispatch_message rng (AppendEntriesResponse (nack q)) s = Some (as, s')"
      "leader_at l ps 1 [first_entry] 0 (\<lambda>_. 0) ((\<lambda>p. if p \<in> set (q # qs) then 2 else 1)(q := 1)) 0 s'"
      "sends l as = [(l, q, AppendEntries (request l 1 [] [first_entry] 0))]" by auto
    have "leader_at l ps 1 [first_entry] 0 (\<lambda>_. 0) (\<lambda>p. if p \<in> set qs then 2 else 1) 0 s'"
      using ds(1) assms(3) by (intro leader_at_cong [OF h(2)]) auto
    with ds(1,3) h show ?thesis by (intro exI [of _ as] exI [of _ s'] conjI exI [of _ "ds @ [q]"]) simp_all
  qed
  have c1: "partitioned ?c1 = {}" "tc_node l ?c1 = Some s" using a(2,6) assms(4) s(1) by simp_all
  from deliver_to_one [of ?J rng "\<lambda>q. AppendEntriesResponse (nack q)" l, OF step J c1, of "[]"] obtain r2 c2 s2 where
    b: "deliver_loop rng (map (\<lambda>q. (q, l, AppendEntriesResponse (nack q))) ps) [] ?c1 = Some (r2, c2)"
    "partitioned c2 = {}" "tc_leader c2 = tc_leader ?c1" "tc_node l c2 = Some s2" "?J [] s2 (pending_messages c2)"
    "\<forall>p. p \<noteq> l \<longrightarrow> tc_node p c2 = tc_node p ?c1" by blast
  have d2: "deliver_all rng c1 = Some (r2, c2)" using a(4) b(1) assms(5) by (simp add: deliver_all_small)
  have w: "leader_at l ps 1 [first_entry] 0 (\<lambda>_. 0) (\<lambda>_. 1) 0 s2"
    "pending_messages c2 = map (\<lambda>p. (l, p, AppendEntries (request l 1 [] [first_entry] 0))) ps"
    using b(5) by auto
  have "\<forall>p\<in>set ps. \<exists>s. tc_node p c2 = Some s \<and> follower_at 1 [] 0 p s" using a(5) b(6) assms(4) by auto
  with b(2-4) w(2) a(3) ld have "stage ps l 1 [first_entry] 0 0 1 [] 0
       (map (\<lambda>p. (l, p, AppendEntries (request l 1 [] [first_entry] 0))) ps) 0 c2"
    by (intro stageI [OF _ _ _ _ w(1)]) simp_all
  with rounds_two [OF d1 d2] show ?thesis by auto
qed

text \<open>Rounds five and six bring the first entry to the followers, seven and eight its commit.\<close>

lemma round_first_entry:
  assumes "stage ps l 1 ([] @ [first_entry]) 0 0 1 [] 0
       (map (\<lambda>p. (l, p, AppendEntries (request l 1 [] [first_entry] 0))) ps) 0 c"
    and "rng_ok rng" and "distinct ps" and "l \<notin> set ps" and "ps \<noteq> []" and "length ps \<le> 50"
  shows "\<exists>c'. rounds rng 2 c = Some c' \<and> stage ps l 1 [first_entry] 1 1 2 [first_entry] 0 [] (length ps) c'"
proof -
  from round_requests [OF assms(1,2) _ _ _ assms(3,4,6)] obtain r1 c1 where
    a: "deliver_all rng c = Some (r1, c1)"
    "stage ps l 1 [first_entry] 0 0 1 [first_entry] 0
       (map (\<lambda>p. (p, l, AppendEntriesResponse (ack p 1 (length [first_entry])))) ps) 0 c1" by auto
  from round_acks [OF a(2), of rng] assms(4-6) obtain r2 c2 where
    "deliver_all rng c1 = Some (r2, c2)" "stage ps l 1 [first_entry] 1 1 2 [first_entry] 0 [] (length ps) c2"
    by (auto simp: first_entry_def numeral_2_eq_2)
  with rounds_two [OF a(1)] show ?thesis by blast
qed

lemma round_first_commit:
  assumes "stage ps l 1 [first_entry] 1 1 2 [first_entry] 0 [] (length ps) c"
    and "rng_ok rng" and "distinct ps" and "l \<notin> set ps" and "ps \<noteq> []" and "length ps \<le> 50"
  shows "\<exists>c1 c'. broadcast l c = Some c1 \<and> tc_nodes c1 = tc_nodes c \<and> rounds rng 2 c1 = Some c' \<and>
     stage ps l 1 [first_entry] 1 1 2 [first_entry] 1 [] (2 * length ps) c'"
proof -
  have "stage ps l 1 ([first_entry] @ []) 1 1 (length [first_entry] + 1) [first_entry] 0 [] (length ps) c"
    using assms(1) by (simp add: numeral_2_eq_2)
  from stage_broadcast [OF this] obtain c1 where b: "broadcast l c = Some c1" "tc_nodes c1 = tc_nodes c"
    "stage ps l 1 ([first_entry] @ []) 1 1 (length [first_entry] + 1) [first_entry] 0
       (map (\<lambda>p. (l, p, AppendEntries (request l 1 [first_entry] [] 1))) ps) (length ps) c1" by auto
  from round_requests [OF b(3) assms(2) _ _ _ assms(3,4,6)] obtain r2 c2 where
    a: "deliver_all rng c1 = Some (r2, c2)"
    "stage ps l 1 [first_entry] 1 1 2 [first_entry] 1
       (map (\<lambda>p. (p, l, AppendEntriesResponse (ack p 1 (length [first_entry])))) ps) (length ps) c2"
    by (auto simp: numeral_2_eq_2)
  from round_acks [OF a(2), of rng] assms(4-6) obtain r3 c3 where
    "deliver_all rng c2 = Some (r3, c3)" "stage ps l 1 [first_entry] 1 1 2 [first_entry] 1 [] (2 * length ps) c3"
    by (auto simp: first_entry_def numeral_2_eq_2)
  with rounds_two [OF a(1)] b(1,2) show ?thesis by blast
qed

lemma stage_synced:
  assumes "stage (filter (\<lambda>p. p \<noteq> l) ids) l t L (length L) (length L) (length L + 1) L (length L) [] a c"
    and "distinct ids" and "l \<in> set ids" and "L \<noteq> []"
  shows "synced ids l t L a c"
  using assms by (auto simp: stage_def synced_def list_all_iff)

lemma stage_node: "stage ps l t L k v w L' k' ms a c \<Longrightarrow>
    \<exists>s. tc_node l c = Some s \<and> state s = Leader \<and> commit_index s = k"
  by (auto simp: stage_def leader_at_def)

lemma elect_leader_progress:
  assumes "rng_ok rng" and "distinct ids" and "l \<in> set ids" and "2 \<le> length ids" and "length ids \<le> 50"
    and "partitioned c = {}" and "pending_messages c = []" and "map fst (tc_nodes c) = ids"
    and "\<forall>n\<in>set ids. \<exists>s. tc_node n c = Some s \<and> fresh_at ids n s"
  shows "\<exists>c'. elect_leader rng l c = Some c' \<and> synced ids l 1 [first_entry] (2 * length ids) c'"
proof -
  let ?ps = "filter (\<lambda>p. p \<noteq> l) ids"
  have "?ps \<noteq> []" using assms(2,4)
    by (auto simp: filter_empty_conv numeral_eq_Suc dest!: Suc_le_length_iff [THEN iffD1])
  moreover have "length ?ps \<le> 50" using order.trans [OF length_filter_le assms(5)] .
  ultimately have ps: "distinct ?ps" "l \<notin> set ?ps" "?ps \<noteq> []" "length ?ps \<le> 50"
    using assms(2) by simp_all
  from assms(3,9) obtain s where s: "tc_node l c = Some s" "fresh_at ids l s" by auto
  from fresh_stands [OF s(2) assms(1)] obtain s1 as s2 where
    f: "tick_until_candidate rng s = Some ((), s1)" "tick rng s1 = Some (as, s2)"
    "candidate_at l ?ps {l} s2" "sends l as = map (\<lambda>p. (l, p, RequestVote (ballot l))) ?ps" by blast
  let ?c1 = "set_node l s1 c" and ?c2 = "set_node l s2 (set_node l s1 c)"
  let ?c3 = "?c2\<lparr>pending_messages := sends l as\<rparr>"
  have t: "tc_tick_until_candidate rng l c = Some ?c1" "tick_node rng l ?c1 = Some (as, ?c2)"
    "snd (collect_actions l as ?c2) = ?c3"
    using s(1) f(1,2) assms(6,7)
    by (simp_all add: tc_tick_until_candidate_def tick_node_def on_node_def collect_actions_def)
  have c3: "partitioned ?c3 = {}" "pending_messages ?c3 = map (\<lambda>p. (l, p, RequestVote (ballot l))) ?ps"
    "tc_node l ?c3 = Some s2"
    "\<forall>p\<in>set ?ps. \<exists>s. tc_node p ?c3 = Some s \<and> follower_at 0 [] 0 p s \<and> last_included_term s = 0"
    using assms(6,9) f(4) by (auto simp: fresh_at_def)
  from round_votes [OF assms(1) ps c3(1-3) f(3) c3(4)] obtain c4 where
    c4: "rounds rng 2 ?c3 = Some c4"
    "stage ?ps l 1 [first_entry] 0 0 2 [] 0
       (map (\<lambda>p. (l, p, AppendEntries (request l 1 [first_entry] [] 0))) ?ps) 0 (c4\<lparr>tc_leader := Some l\<rparr>)"
    by blast
  let ?c4 = "c4\<lparr>tc_leader := Some l\<rparr>"
  from stage_node [OF c4(2)] obtain s4 where s4: "tc_node l c4 = Some s4" "state s4 = Leader"
    by (auto simp: tc_node_def)
  from round_nacks [OF c4(2) assms(1) ps(1,2,4)] obtain c5 where c5: "rounds rng 2 ?c4 = Some c5"
    "stage ?ps l 1 ([] @ [first_entry]) 0 0 1 [] 0
       (map (\<lambda>p. (l, p, AppendEntries (request l 1 [] [first_entry] 0))) ?ps) 0 c5" by blast
  from round_first_entry [OF c5(2) assms(1) ps] obtain c6 where c6: "rounds rng 2 c5 = Some c6"
    "stage ?ps l 1 [first_entry] 1 1 2 [first_entry] 0 [] (length ?ps) c6" by blast
  from stage_node [OF c6(2)] obtain s6 where s6: "tc_node l c6 = Some s6" "commit_index s6 = 1" by auto
  have r4: "rounds rng 4 ?c4 = Some c6" using rounds_add [of rng 2 2 ?c4] c5(1) c6(1) by simp
  from round_first_commit [OF c6(2) assms(1) ps] obtain c7 c8 where
    c8: "broadcast l c6 = Some c7" "tc_nodes c7 = tc_nodes c6" "rounds rng 2 c7 = Some c8"
    "stage ?ps l 1 [first_entry] 1 1 2 [first_entry] 1 [] (2 * length ?ps) c8" by blast
  have "map fst (tc_nodes c8) = map fst (tc_nodes ?c3)"
    using rounds_keys [OF c8(3)] rounds_keys [OF r4] rounds_keys [OF c4(1)] c8(2) by simp
  also have "\<dots> = ids"
    using s(1) assms(8) by (simp add: set_node_def update_known tc_node_def update_conv')
  finally have k: "map fst (tc_nodes c8) = ids" .
  have "commit_index s = 1" if "(n, s) \<in> set (tc_nodes c8)" for n s
  proof -
    from that k have "n \<in> set ids" by force
    moreover have "tc_node n c8 = Some s" using that k assms(2) by (simp add: tc_node_def)
    ultimately show ?thesis using c8(4) by (cases "n = l") (auto simp: stage_def leader_at_def follower_at_def)
  qed
  then have g: "list_all (\<lambda>(_, s). commit_index s = 1) (tc_nodes c8)" by (auto simp: list_all_iff)
  have "elect_leader rng l c = Some c8"
    using t c4(1) s4 r4 s6 c8(1,3) g by (simp add: elect_leader_def guard_def)
  moreover have "synced ids l 1 [first_entry] (2 * length ids) c8"
    using stage_mono [OF c8(4) mult_le_mono2 [OF length_filter_le]] assms(2,3)
    by (intro stage_synced) (simp_all add: numeral_2_eq_2)
  ultimately show ?thesis by blast
qed

lemma new_with_leader_progress:
  assumes "rng_ok rng" and "distinct ids" and "l \<in> set ids" and "2 \<le> length ids" and "length ids \<le> 50"
  shows "\<exists>c. new_with_leader rng ids l = Some c \<and> synced ids l 1 [first_entry] (2 * length ids) c"
proof -
  from tc_new_fresh [OF assms(1,2)] obtain c where c: "tc_new rng ids = Some c" "partitioned c = {}"
    "pending_messages c = []" "map fst (tc_nodes c) = ids"
    "\<forall>n\<in>set ids. \<exists>s. tc_node n c = Some s \<and> fresh_at ids n s" by blast
  from elect_leader_progress [OF assms c(2-5)] c(1) show ?thesis by (auto simp: new_with_leader_def)
qed

end
