(* ===== verification/CatchUp.thy ===== *)
theory CatchUp
  imports Replication
begin

text \<open>
  How a follower that has fallen behind, or has entries of a deposed leader, gets the log of its leader:
  the leader steps back to the index that a rejection names and sends again, until a request is accepted.
  The exchange is a loop through the two handlers \<open>handle_append_entries\<close> and
  \<open>handle_append_entries_response\<close>; here it is shown to end.
\<close>

section \<open>The exchange\<close>

fun response_in :: "Action list \<Rightarrow> AppendEntriesResponseRPC option" where
  "response_in [] = None"
| "response_in (SendMessage _ (AppendEntriesResponse r) # as) = Some r"
| "response_in (_ # as) = response_in as"

fun request_in :: "Action list \<Rightarrow> AppendEntriesRPC option" where
  "request_in [] = None"
| "request_in (SendMessage _ (AppendEntries r) # as) = Some r"
| "request_in (_ # as) = request_in as"

text \<open>At most \<open>n\<close> requests; \<open>None\<close> when a handler panics or the last request has been rejected.\<close>

fun catch_up :: "nat \<Rightarrow> rng \<Rightarrow> AppendEntriesRPC \<Rightarrow> RaftCore \<times> RaftCore \<Rightarrow> (RaftCore \<times> RaftCore) option" where
  "catch_up 0 rng req (s, f) = None"
| "catch_up (Suc n) rng req (s, f) = do {
     (as, f') \<leftarrow> handle_append_entries rng req f;
     resp \<leftarrow> response_in as;
     (bs, s') \<leftarrow> handle_append_entries_response rng resp s;
     (if aer_success resp then Some (s', f')
      else do { req' \<leftarrow> request_in bs; catch_up n rng req' (s', f') }) }"

lemma catch_up_more: "catch_up m rng req x = Some y \<Longrightarrow> m \<le> n \<Longrightarrow> catch_up n rng req x = Some y"
proof (induction m arbitrary: n req x)
  case 0
  then show ?case by (cases x) simp
next
  case (Suc m)
  obtain s f where x: "x = (s, f)" by fastforce
  from Suc.prems(2) obtain n' where n: "n = Suc n'" "m \<le> n'" by (cases n) auto
  from Suc.prems(1) obtain as f' r bs s' where
    h: "handle_append_entries rng req f = Some (as, f')" "response_in as = Some r"
    "handle_append_entries_response rng r s = Some (bs, s')" by (auto simp: x opt_bind)
  show ?case
  proof (cases "aer_success r")
    case True
    with Suc.prems(1) h show ?thesis by (simp add: x n(1))
  next
    case False
    with Suc.prems(1) h Suc.IH [OF _ n(2)] show ?thesis by (auto simp: x n(1) opt_bind)
  qed
qed

section \<open>The follower\<close>

text \<open>A follower of term \<open>t\<close> with the log \<open>F\<close>, committed up to \<open>k\<close>.\<close>

definition trailing :: "u64 \<Rightarrow> LogEntry list \<Rightarrow> u64 \<Rightarrow> NodeId \<Rightarrow> RaftCore \<Rightarrow> bool" where
  "trailing t F k n s \<longleftrightarrow>
     follower_at t F k n s \<and> last_included_term s = 0 \<and> k \<le> length F \<and> list_all (\<lambda>e. 0 < le_term e) F"

text \<open>Log matching between the two logs: entries of the same index and term have the same past.\<close>

definition matching :: "LogEntry list \<Rightarrow> LogEntry list \<Rightarrow> bool" where
  "matching F L \<longleftrightarrow>
     (\<forall>i < min (length F) (length L). le_term (F ! i) = le_term (L ! i) \<longrightarrow> take (Suc i) F = take (Suc i) L)"

text \<open>The request is accepted when the follower has the entry before it.\<close>

definition fits_at :: "LogEntry list \<Rightarrow> LogEntry list \<Rightarrow> nat \<Rightarrow> bool" where
  "fits_at F L j \<longleftrightarrow> j = 0 \<or> j \<le> length F \<and> le_term (F ! (j - 1)) = le_term (L ! (j - 1))"

lemma term_below: 
  fixes s :: RaftCore
  assumes "last_included_index s = 0" and "last_included_term s = 0" and "i \<le> length (log s)"
  shows "log_term_at s i = Some (if i = 0 then 0 else le_term (log s ! (i - 1)))"
  using assms log_term_at_above [of s i] by (auto simp: log_term_at_def lli_def)

lemma request_valid:
  assumes "trailing t F k n s" and "j \<le> length L" and "length F < u64_bound"
  shows "ae_valid (request l t (take j L) (drop j L) kc) s = Some (fits_at F L j)"
proof (cases "j = 0")
  case True
  then show ?thesis by (simp add: ae_valid_def request_def fits_at_def)
next
  case False
  have s: "log s = F" "last_included_index s = 0" "last_included_term s = 0"
    using assms(1) by (simp_all add: trailing_def follower_at_def)
  have n: "take j L \<noteq> []" using False assms(2) by auto
  then have "le_term (last (take j L)) = le_term (L ! (j - 1))"
    using False assms(2) by (simp add: last_conv_nth min_def)
  with n show ?thesis
    using False assms(2,3) s term_below [of s j]
    by (auto simp: ae_valid_def request_def fits_at_def last_log_index_def min_def)
qed

lemma follower_rejects:
  assumes "trailing t F k n s" and "\<not> fits_at F L j" and "j \<le> length L" and "length F + 1 < u64_bound" and "rng_ok rng"
  shows "\<exists>c as s'. handle_append_entries rng (request l t (take j L) (drop j L) kc) s = Some (as, s') \<and>
     trailing t F k n s' \<and> 0 < c \<and> c \<le> j \<and>
     (\<exists>r. response_in as = Some r \<and> aer_id r = n \<and> aer_term r = t \<and> \<not> aer_success r \<and>
          aer_first_conflicting_index r = Some c)"
proof -
  let ?req = "request l t (take j L) (drop j L) kc"
  have s: "log s = F" "last_included_index s = 0" "last_included_term s = 0" "state s = Follower"
    "current_term s = t" "node_id s = n" "fst (election_timeout_range s) < snd (election_timeout_range s)"
    "list_all (\<lambda>e. 0 < le_term e) F"
    using assms(1) by (simp_all add: trailing_def follower_at_def)
  from rng_value [OF assms(5) s(7)] obtain tm where tm: "rng (election_timeout_range s) = Some tm" .
  let ?s4 = "s\<lparr>ticks_since_last_heartbeat := 0, election_timeout := tm, current_leader := Some l\<rparr>"
  have t4: "trailing t F k n ?s4" using assms(1) by (simp add: trailing_def follower_at_def)
  have j: "0 < j" "ae_prev_log_index ?req = j" using assms(2,3) by (auto simp: fits_at_def request_def)
  have "\<exists>c r. conflict_response ?req ?s4 (base_response s (length F)) = Some r \<and> 0 < c \<and> c \<le> j \<and>
      aer_id r = n \<and> aer_term r = t \<and> \<not> aer_success r \<and> aer_first_conflicting_index r = Some c"
  proof (cases "length F < j")
    case True
    with s j assms(4) show ?thesis
      by (simp add: conflict_response_def last_log_index_def base_response_def)
  next
    case False
    let ?t = "term_or_0 ?s4 j"
    have "?t = le_term (F ! (j - 1))"
      using term_below [of ?s4 j] s False j by (simp add: term_or_0_def)
    then have "0 < ?t" using s(8) False j by (auto simp: list_all_length)
    moreover have "term_or_0 ?s4 0 = 0" using s by (simp add: term_or_0_def log_term_at_def)
    ultimately have "\<not> (\<forall>i<j. term_or_0 ?s4 i = ?t)" using j(1) by (metis less_irrefl)
    then have "find_conflict ?s4 ?t j \<noteq> None" unfolding find_conflict_None .
    then obtain c where c: "find_conflict ?s4 ?t j = Some c" by blast
    then have "0 < c" "c \<le> j" unfolding find_conflict_Some by simp_all
    with False s j assms(4) c show ?thesis
      by (simp add: conflict_response_def last_log_index_def base_response_def)
  qed
  then obtain c r where c: "conflict_response ?req ?s4 (base_response s (length F)) = Some r" "0 < c" "c \<le> j"
    "aer_id r = n" "aer_term r = t" "\<not> aer_success r" "aer_first_conflicting_index r = Some c" by blast
  have "ae_valid ?req ?s4 = Some False" using request_valid [OF t4 assms(3)] assms(2,4) by simp
  then have "handle_append_entries rng ?req s = Some ([append_response l r], ?s4)"
    using c(1) s assms(4) tm
    by (simp add: handle_append_entries_def reset_election_timeout_def last_log_index_def request_def)
  with t4 c(2-7) show ?thesis by (auto simp: append_response_def)
qed

section \<open>Merging matching logs\<close>

text \<open>The follower's log is not a proper extension of the leader's.\<close>

definition not_beyond :: "LogEntry list \<Rightarrow> LogEntry list \<Rightarrow> bool" where
  "not_beyond F L \<longleftrightarrow> length F \<le> length L \<or> take (length L) F \<noteq> L"

lemma matching_Cons:
  assumes "matching (x # xs) (e # es)" and "le_term x = le_term e"
  shows "x = e" and "matching xs es"
proof -
  show "x = e" using assms unfolding matching_def by (metis length_Cons min_less_iff_conj nth_Cons_0 take_Suc_Cons take0 zero_less_Suc list.inject)
  show "matching xs es" unfolding matching_def
  proof (intro allI impI)
    fix i assume "i < min (length xs) (length es)" "le_term (xs ! i) = le_term (es ! i)"
    with assms(1) [unfolded matching_def, rule_format, of "Suc i"] show "take (Suc i) xs = take (Suc i) es" by simp
  qed
qed

lemma merge_matching: "matching F L \<Longrightarrow> not_beyond F L \<Longrightarrow> merge_entries F L = L"
proof (induction F L rule: merge_entries.induct)
  case (3 x xs e es)
  show ?case
  proof (cases "le_term x = le_term e")
    case True
    from matching_Cons [OF "3.prems"(1) True] "3.prems"(2) have "x = e" "matching xs es" "not_beyond xs es"
      by (auto simp: not_beyond_def)
    with "3.IH" [OF True] True show ?thesis by simp
  qed simp
qed (auto simp: not_beyond_def)

lemma matching_prefix:
  assumes "matching F L" and "fits_at F L j" and "j \<le> length L"
  shows "take j F = take j L"
proof (cases j)
  case (Suc i)
  with assms show ?thesis by (auto simp: matching_def fits_at_def)
qed simp

lemma matching_drop:
  assumes "matching F L" and "take j F = take j L" and "j \<le> length F"
  shows "matching (drop j F) (drop j L)"
  unfolding matching_def
proof (intro allI impI)
  fix i assume i: "i < min (length (drop j F)) (length (drop j L))" "le_term (drop j F ! i) = le_term (drop j L ! i)"
  then have "j + i < length F" "j + i < length L" by (auto simp: less_diff_conv add.commute simp del: min_less_iff_conj)
  with i(2) have "take (Suc (j + i)) F = take (Suc (j + i)) L"
    using assms(1) [unfolded matching_def, rule_format, of "j + i"] by simp
  then show "take (Suc i) (drop j F) = take (Suc i) (drop j L)"
    by (metis add_Suc_right drop_take add_diff_cancel_left')
qed

lemma merge_at:
  assumes "matching F L" and "not_beyond F L" and "fits_at F L j" and "j \<le> length L"
  shows "j \<le> length F" and "take j F @ merge_entries (drop j F) (drop j L) = L"
proof -
  have e: "take j F = take j L" using assms(1,3,4) by (rule matching_prefix)
  show j: "j \<le> length F" using assms(3) by (auto simp: fits_at_def)
  have "not_beyond (drop j F) (drop j L)"
    using assms(2,4) e j append_take_drop_id [of j F] append_take_drop_id [of j L]
    by (auto simp: not_beyond_def drop_take) (metis append_take_drop_id drop_take take_add le_add_diff_inverse take_all order.refl)
  with matching_drop [OF assms(1) e j] e show "take j F @ merge_entries (drop j F) (drop j L) = L"
    by (simp add: merge_matching)
qed

section \<open>The last step\<close>

lemma response_in_apply [simp]: "response_in (apply_actions k es @ as) = response_in as"
proof (induction es arbitrary: k)
  case (Cons e es)
  then show ?case by (simp add: apply_actions_Cons)
qed simp

lemma follower_accepts:
  assumes "trailing t F k n s" and "fits_at F L j" and "j \<le> length L" and "matching F L" and "not_beyond F L"
    and "k \<le> kc" and "kc \<le> length L" and "length F + length L + 1 < u64_bound" and "rng_ok rng"
  shows "\<exists>as s'. handle_append_entries rng (request l t (take j L) (drop j L) kc) s = Some (as, s') \<and>
     follower_at t L kc n s' \<and> response_in as = Some (ack n t (length L))"
proof -
  let ?req = "request l t (take j L) (drop j L) kc"
  have s: "log s = F" "last_included_index s = 0" "state s = Follower" "current_term s = t"
    "fst (election_timeout_range s) < snd (election_timeout_range s)" "follower_at t F k n s"
    using assms(1) by (simp_all add: trailing_def follower_at_def)
  from rng_value [OF assms(9) s(5)] obtain tm where tm: "rng (election_timeout_range s) = Some tm" .
  let ?s4 = "s\<lparr>ticks_since_last_heartbeat := 0, election_timeout := tm, current_leader := Some l\<rparr>"
  let ?s5 = "?s4\<lparr>log := L\<rparr>"
  note m = merge_at [OF assms(4,5,2,3)]
  have req: "ae_prev_log_index ?req = j" "ae_entries ?req = drop j L" "ae_leader_commit ?req = kc"
    "ae_leader_id ?req = l" "ae_term ?req = t"
    using assms(3) by (simp_all add: request_def)
  have "append_loop (j + 1) (drop j L) ?s4 = Some ?s5"
    using m assms(8) s by (subst append_loop_eq) (simp_all add: lli_def)
  moreover have "log_slice ?s5 (j + 1) (length L + 1) = Some (drop j L)"
    using assms(3) s by (subst log_slice_ok) (simp_all add: lli_def)
  ultimately obtain a1 where a1: "append_new_entries ?req ?s4 = Some (a1, ?s5)" "\<And>as. response_in (a1 @ as) = response_in as"
    using assms(3,8) s req by (cases "drop j L = []") (simp_all add: append_new_entries_def last_log_index_def)
  have "follower_at t L k n ?s5" using s(6) by (simp add: follower_at_def)
  moreover have "length L + 1 < u64_bound" using assms(8) by simp
  ultimately obtain a2 where a2: "follower_commit kc ?s5 = Some (a2, ?s5\<lparr>commit_index := kc, last_applied := kc\<rparr>)"
    using follower_commits [OF _ assms(6,7)] by blast
  obtain es where es: "a2 = apply_actions (commit_index ?s5) es"
    using follower_commit_applies [OF a2] by blast
  let ?s6 = "?s5\<lparr>commit_index := kc, last_applied := kc\<rparr>"
  have "accept_append_entries ?req ?s4 = Some (a1 @ a2 @ [append_response l (ack n t (length L))], ?s6)"
    using a1(1) a2 s(2,4,6) req assms(8)
    by (simp add: accept_append_entries_def last_log_index_def success_response_def ack_def follower_at_def)
  moreover have "trailing t F k n ?s4" using assms(1) by (simp add: trailing_def follower_at_def)
  then have "ae_valid ?req ?s4 = Some True" using request_valid [OF _ assms(3)] assms(2,8) by simp
  ultimately have "handle_append_entries rng ?req s =
      Some (a1 @ a2 @ [append_response l (ack n t (length L))], ?s6)"
    using s assms(8) tm req
    by (simp add: handle_append_entries_def last_log_index_def reset_election_timeout_def)
  moreover have "follower_at t L kc n ?s6" using s(6) by (simp add: follower_at_def)
  ultimately show ?thesis using a1(2) es by (auto simp: append_response_def)
qed

section \<open>The exchange ends\<close>

lemma leader_steps_back:
  assumes "leader_at l ps t L k M N a s" and "p \<in> set ps" and "0 < c" and "c \<le> length L" and "length L + 1 < u64_bound"
    and "aer_id r = p" and "aer_term r = t" and "\<not> aer_success r" and "aer_first_conflicting_index r = Some c"
  shows "\<exists>as s'. handle_append_entries_response rng r s = Some (as, s') \<and>
     leader_at l ps t L k M (N(p := c)) a s' \<and>
     request_in as = Some (request l t (take (c - 1) L) (drop (c - 1) L) k)"
proof -
  let ?s = "record_failure r s" and ?req = "request l t (take (c - 1) L) (drop (c - 1) L) k"
  have "map_of (next_index s) p \<noteq> None" using assms(1,2) by (auto simp: leader_at_def)
  then have l: "leader_at l ps t L k M (N(p := c)) a ?s"
    using assms(1,6,9) by (simp add: leader_at_def record_failure_def map_of_and_modify)
  have "build_append_entries_for_peer ?s p = Some (SendMessage p (AppendEntries ?req))"
    by (rule leader_request [where N = "N(p := c)"]) (use l assms(2-5) in simp_all)
  then have "handle_append_entries_response rng r s = Some ([SendMessage p (AppendEntries ?req)], ?s)"
    using assms(1,6-8) by (simp add: handle_append_entries_response_def leader_at_sel)
  with l show ?thesis by simp
qed

lemma catch_up_ends:
  assumes "leader_at l ps t L k M N a s" and "p \<in> set ps" and "\<forall>q\<in>set ps. M q \<le> length L" and "L \<noteq> []"
    and "le_term (last L) = t" and "k \<le> length L" and "a + 1 < u64_bound"
    and "trailing t F kf p f" and "matching F L" and "not_beyond F L" and "kf \<le> k"
    and "length F + length L + 1 < u64_bound" and "rng_ok rng" and "j \<le> length L"
  shows "\<exists>s' f' k'. catch_up (Suc j) rng (request l t (take j L) (drop j L) k) (s, f) = Some (s', f') \<and>
     follower_at t L k p f' \<and> leader_at l ps t L k' (M(p := length L)) (N(p := length L + 1)) (a + 1) s'"
  using assms(1,8,14)
proof (induction j arbitrary: s f N rule: less_induct)
  case (less j)
  show ?case
  proof (cases "fits_at F L j")
    case True
    from follower_accepts [OF less.prems(2) True less.prems(3) assms(9-11,6,12,13), of l] obtain as f' where
      h: "handle_append_entries rng (request l t (take j L) (drop j L) k) f = Some (as, f')"
      "follower_at t L k p f'" "response_in as = Some (ack p t (length L))" by blast
    have "length L + 1 < u64_bound" using assms(12) by simp
    from leader_ack [OF less.prems(1) assms(3-6) this assms(2) order.refl assms(7), of rng] obtain bs s' k' where
      r: "handle_append_entries_response rng (ack p t (length L)) s = Some (bs, s')"
      "leader_at l ps t L k' (M(p := length L)) (N(p := length L + 1)) (a + 1) s'" by blast
    have "aer_success (ack p t (length L))" by (simp add: ack_def)
    with h(1,3) r(1) have "catch_up (Suc j) rng (request l t (take j L) (drop j L) k) (s, f) = Some (s', f')" by simp
    with h(2) r(2) show ?thesis by blast
  next
    case False
    have b: "length F + 1 < u64_bound" "length L + 1 < u64_bound" using assms(12) by simp_all
    from follower_rejects [OF less.prems(2) False less.prems(3) b(1) assms(13), of l k] obtain c as f' r where
      h: "handle_append_entries rng (request l t (take j L) (drop j L) k) f = Some (as, f')"
      "trailing t F kf p f'" "0 < c" "c \<le> j" "response_in as = Some r"
      and r: "aer_id r = p" "aer_term r = t" "\<not> aer_success r" "aer_first_conflicting_index r = Some c" by blast
    have cl: "c \<le> length L" using h(4) less.prems(3) by simp
    from leader_steps_back [OF less.prems(1) assms(2) h(3) cl b(2) r, of rng] obtain bs s' where
      q: "handle_append_entries_response rng r s = Some (bs, s')" "leader_at l ps t L k M (N(p := c)) a s'"
      "request_in bs = Some (request l t (take (c - 1) L) (drop (c - 1) L) k)" by blast
    have "c - 1 < j" "c - 1 \<le> length L" using h(3,4) cl by simp_all
    from less.IH [OF this(1) q(2) h(2) this(2)] obtain s'' f'' k' where
      e: "catch_up (Suc (c - 1)) rng (request l t (take (c - 1) L) (drop (c - 1) L) k) (s', f') = Some (s'', f'')"
      "follower_at t L k p f''"
      "leader_at l ps t L k' (M(p := length L)) (N(p := length L + 1)) (a + 1) s''"
      unfolding fun_upd_upd by blast
    have "catch_up j rng (request l t (take (c - 1) L) (drop (c - 1) L) k) (s', f') = Some (s'', f'')"
      using catch_up_more [OF e(1)] h(3,4) by simp
    with h(1,5) q(1,3) r(3)
    have "catch_up (Suc j) rng (request l t (take j L) (drop j L) k) (s, f) = Some (s'', f'')" by simp
    with e(2,3) show ?thesis by blast
  qed
qed

end
