(* ===== verification/LogTests.thy ===== *)
theory LogTests
  imports TestCluster
begin

text \<open>
  The tests of \<open>src/crates/raftcore/src/lib.rs\<close> on a single node: the access to the log behind a snapshot,
  snapshots of the node's own and snapshots from a leader.  A test is a function of the random number
  generator in the option monad; \<open>assert!\<close> is \<open>guard\<close>, and a test that passes returns \<open>Some ()\<close>.  Each is
  shown to pass whatever the generator returns, so the model agrees with the code on these runs.
\<close>

section \<open>Nodes\<close>

definition DUMMY :: bytes where
  "DUMMY = [68, 85, 77, 77, 89, 95, 67, 79, 77, 77, 65, 78, 68]"

definition dummy :: "u64 \<Rightarrow> LogEntry" where
  "dummy t = \<lparr> le_term = t, le_command = DUMMY \<rparr>"

definition create_new_raft_core :: "rng \<Rightarrow> unit option" where
  "create_new_raft_core rng = do {
     node \<leftarrow> new rng 1 [1, 2, 3] None (15, 31);
     guard (node_id node = 1) }"

definition fresh_node :: "rng \<Rightarrow> RaftCore option" where
  "fresh_node rng = new rng 1 [1, 2, 3] None (15, 31)"

definition node_with_no_snapshot :: "rng \<Rightarrow> RaftCore option" where
  "node_with_no_snapshot rng = do {
     node \<leftarrow> new rng 1 [1, 2, 3] None (15, 31);
     Some (node\<lparr>log := log node @ [dummy 1, dummy 1, dummy 2]\<rparr>) }"

definition node_with_snapshot_no_additional :: "rng \<Rightarrow> RaftCore option" where
  "node_with_snapshot_no_additional rng = do {
     node \<leftarrow> new rng 1 [1, 2, 3] None (15, 31);
     Some (node\<lparr>last_included_index := 100, last_included_term := 2\<rparr>) }"

definition node_with_snapshot_and_additional :: "rng \<Rightarrow> RaftCore option" where
  "node_with_snapshot_and_additional rng = do {
     node \<leftarrow> new rng 1 [1, 2, 3] None (15, 31);
     Some (node\<lparr>last_included_index := 100, last_included_term := 2, log := log node @ [dummy 2, dummy 3]\<rparr>) }"

section \<open>Access to the log\<close>

definition log_term_at_same_index :: "rng \<Rightarrow> unit option" where
  "log_term_at_same_index rng = do {
     node \<leftarrow> node_with_snapshot_no_additional rng;
     guard (log_term_at node (last_included_index node) = Some (last_included_term node)) }"

definition log_term_at_lower_index :: "rng \<Rightarrow> unit option" where
  "log_term_at_lower_index rng = do {
     node \<leftarrow> node_with_snapshot_no_additional rng;
     guard (log_term_at node 2 = None) }"

definition log_term_at_index_in_physical_log_with_snapshot :: "rng \<Rightarrow> unit option" where
  "log_term_at_index_in_physical_log_with_snapshot rng = do {
     node \<leftarrow> node_with_snapshot_and_additional rng;
     guard (log_term_at node 101 = Some 2 \<and> log_term_at node 102 = Some 3) }"

definition log_term_at_index_in_physical_log :: "rng \<Rightarrow> unit option" where
  "log_term_at_index_in_physical_log rng = do {
     node \<leftarrow> node_with_no_snapshot rng;
     guard (log_term_at node 1 = Some 1 \<and> log_term_at node 3 = Some 2) }"

definition log_term_at_index_beyond :: "rng \<Rightarrow> unit option" where
  "log_term_at_index_beyond rng = do {
     node \<leftarrow> node_with_no_snapshot rng;
     _ \<leftarrow> guard (log_term_at node 100 = None);
     node \<leftarrow> node_with_snapshot_no_additional rng;
     _ \<leftarrow> guard (log_term_at node 101 = None);
     node \<leftarrow> node_with_snapshot_and_additional rng;
     guard (log_term_at node 200 = None) }"

definition log_slice_no_snapshot :: "rng \<Rightarrow> unit option" where
  "log_slice_no_snapshot rng = do {
     node \<leftarrow> node_with_no_snapshot rng;
     _ \<leftarrow> guard (log_slice node 1 1 = Some []);
     _ \<leftarrow> guard (log_slice node 2 3 = Some [dummy 1]);
     _ \<leftarrow> guard (log_slice node 2 4 = Some [dummy 1, dummy 2]);
     _ \<leftarrow> guard (log_slice node 3 5 = Some [dummy 2]);
     from \<leftarrow> u64_add (last_included_index node) 1;
     l \<leftarrow> last_log_index node;
     to \<leftarrow> u64_add l 1;
     guard (log_slice node from to = Some [dummy 1, dummy 1, dummy 2]) }"

definition log_slice_snapshot_no_additional :: "rng \<Rightarrow> unit option" where
  "log_slice_snapshot_no_additional rng = do {
     node \<leftarrow> node_with_snapshot_no_additional rng;
     _ \<leftarrow> guard (log_slice node 100 100 = Some []);
     _ \<leftarrow> guard (log_slice node 99 100 = Some []);
     _ \<leftarrow> guard (log_slice node 100 101 = Some []);
     _ \<leftarrow> guard (log_slice node 101 102 = Some []);
     from \<leftarrow> u64_add (last_included_index node) 1;
     l \<leftarrow> last_log_index node;
     to \<leftarrow> u64_add l 1;
     guard (log_slice node from to = Some []) }"

definition log_slice_snapshot :: "rng \<Rightarrow> unit option" where
  "log_slice_snapshot rng = do {
     node \<leftarrow> node_with_snapshot_and_additional rng;
     _ \<leftarrow> guard (log_slice node 101 101 = Some []);
     _ \<leftarrow> guard (log_slice node 101 102 = Some [dummy 2]);
     _ \<leftarrow> guard (log_slice node 101 103 = Some [dummy 2, dummy 3]);
     _ \<leftarrow> guard (log_slice node 99 103 = Some []);
     _ \<leftarrow> guard (log_slice node 100 101 = Some []);
     l \<leftarrow> last_log_index node;
     far \<leftarrow> u64_add l 5;
     _ \<leftarrow> guard (log_slice node 101 far = Some [dummy 2, dummy 3]);
     from \<leftarrow> u64_add (last_included_index node) 1;
     to \<leftarrow> u64_add l 1;
     guard (log_slice node from to = Some [dummy 2, dummy 3]) }"

definition last_log_index_test :: "rng \<Rightarrow> unit option" where
  "last_log_index_test rng = do {
     node \<leftarrow> fresh_node rng;
     _ \<leftarrow> guard (last_log_index node = Some 0);
     node \<leftarrow> node_with_no_snapshot rng;
     _ \<leftarrow> guard (last_log_index node = Some 3);
     node \<leftarrow> node_with_snapshot_no_additional rng;
     _ \<leftarrow> guard (last_log_index node = Some 100);
     node \<leftarrow> node_with_snapshot_and_additional rng;
     guard (last_log_index node = Some 102) }"

definition last_log_term_test :: "rng \<Rightarrow> unit option" where
  "last_log_term_test rng = do {
     node \<leftarrow> fresh_node rng;
     _ \<leftarrow> guard (last_log_term node = Some 0);
     node \<leftarrow> node_with_no_snapshot rng;
     _ \<leftarrow> guard (last_log_term node = Some 2);
     node \<leftarrow> node_with_snapshot_no_additional rng;
     _ \<leftarrow> guard (last_log_term node = Some 2);
     node \<leftarrow> node_with_snapshot_and_additional rng;
     guard (last_log_term node = Some 3) }"

section \<open>Snapshots of the node's own\<close>

definition snapshot_is :: "SnapshotMetadata \<Rightarrow> u64 \<Rightarrow> u64 \<Rightarrow> unit option" where
  "snapshot_is m i t = guard (sm_last_applied m = i \<and> sm_last_applied_term m = t)"

definition prepare_snapshot_test :: "rng \<Rightarrow> unit option" where
  "prepare_snapshot_test rng = do {
     node \<leftarrow> fresh_node rng;
     snapshot \<leftarrow> prepare_snapshot node;
     _ \<leftarrow> snapshot_is snapshot 0 0;
     node \<leftarrow> node_with_no_snapshot rng;
     snapshot \<leftarrow> prepare_snapshot (node\<lparr>last_applied := 1\<rparr>);
     _ \<leftarrow> snapshot_is snapshot 1 1;
     node \<leftarrow> node_with_no_snapshot rng;
     snapshot \<leftarrow> prepare_snapshot (node\<lparr>last_applied := 3\<rparr>);
     _ \<leftarrow> snapshot_is snapshot 3 2;
     node \<leftarrow> node_with_snapshot_and_additional rng;
     snapshot \<leftarrow> prepare_snapshot (node\<lparr>last_applied := 101\<rparr>);
     _ \<leftarrow> snapshot_is snapshot 101 2;
     node \<leftarrow> node_with_snapshot_and_additional rng;
     snapshot \<leftarrow> prepare_snapshot (node\<lparr>last_applied := 102\<rparr>);
     snapshot_is snapshot 102 3 }"

definition complete_snapshot_test :: "rng \<Rightarrow> unit option" where
  "complete_snapshot_test rng = do {
     node \<leftarrow> node_with_no_snapshot rng;
     node \<leftarrow> complete_snapshot \<lparr> sm_last_applied = 2, sm_last_applied_term = 1 \<rparr> node;
     _ \<leftarrow> guard (last_included_index node = 2 \<and> last_included_term node = 1 \<and>
                map le_term (log node) = [2]);
     node \<leftarrow> node_with_snapshot_and_additional rng;
     node \<leftarrow> complete_snapshot \<lparr> sm_last_applied = 101, sm_last_applied_term = 2 \<rparr> node;
     guard (last_included_index node = 101 \<and> last_included_term node = 2 \<and> length (log node) = 1) }"

definition complete_snapshot_bail :: "rng \<Rightarrow> unit option" where
  "complete_snapshot_bail rng = do {
     node \<leftarrow> node_with_snapshot_and_additional rng;
     node \<leftarrow> complete_snapshot \<lparr> sm_last_applied = 50, sm_last_applied_term = 1 \<rparr> node;
     guard (last_included_index node = 100 \<and> last_included_term node = 2) }"

definition node_sends_snapshot :: "rng \<Rightarrow> unit option" where
  "node_sends_snapshot rng = do {
     leader \<leftarrow> node_with_snapshot_and_additional rng;
     let leader = leader\<lparr>current_term := 3, next_index := AList.update 2 3 (next_index leader)\<rparr>;
     action \<leftarrow> build_append_entries_for_peer leader 2;
     _ \<leftarrow> guard (action = SendInstallSnapshot 2 3 100 2);
     n \<leftarrow> u64_add (last_included_index leader) 1;
     let leader = leader\<lparr>next_index := AList.update 2 n (next_index leader)\<rparr>;
     action \<leftarrow> build_append_entries_for_peer leader 2;
     _ \<leftarrow> guard (case action of
              SendMessage target (AppendEntries req) \<Rightarrow> target = 2 \<and> length (ae_entries req) = 2
            | _ \<Rightarrow> False);
     let leader = leader\<lparr>next_index := AList.update 2 0 (next_index leader)\<rparr>;
     action \<leftarrow> build_append_entries_for_peer leader 2;
     guard (action = SendInstallSnapshot 2 3 100 2) }"

section \<open>Snapshots from a leader\<close>

definition test_install_snapshot_response :: "rng \<Rightarrow> unit option" where
  "test_install_snapshot_response rng = do {
     node \<leftarrow> node_with_snapshot_and_additional rng;
     let node = node\<lparr>state := Leader, current_term := 3, next_index := [(2, 0)], match_index := [(2, 0)]\<rparr>;
     (actions, node) \<leftarrow> handle_install_snapshot_response rng
       \<lparr> isr_id = 2, isr_term = 3, isr_last_included_index = 100 \<rparr> node;
     _ \<leftarrow> guard (actions = []);
     _ \<leftarrow> guard (map_of (next_index node) 2 = Some (last_included_index node + 1));
     _ \<leftarrow> guard (map_of (match_index node) 2 = Some (last_included_index node));
     (actions, node) \<leftarrow> handle_install_snapshot_response rng
       \<lparr> isr_id = 2, isr_term = 4, isr_last_included_index = 105 \<rparr> node;
     guard (actions \<noteq> [] \<and> hd actions = PersistMetadata 4 None) }"

definition installed_reply :: "NodeId \<Rightarrow> u64 \<Rightarrow> Action \<Rightarrow> bool" where
  "installed_reply n i a =
     (case a of SendMessage target (InstallSnapshotResponse resp) \<Rightarrow> target = n \<and> isr_last_included_index resp = i
      | _ \<Rightarrow> False)"

definition test_handle_snapshot_bail :: "rng \<Rightarrow> unit option" where
  "test_handle_snapshot_bail rng = do {
     node \<leftarrow> node_with_snapshot_and_additional rng;
     let node = node\<lparr>current_term := 2\<rparr>;
     t \<leftarrow> u64_sub (current_term node) 1;
     (actions, node) \<leftarrow> handle_install_snapshot rng
       \<lparr> is_term = t, is_leader_id = 2, is_last_included_index = 100, is_last_included_term = 1, is_data = [] \<rparr> node;
     _ \<leftarrow> guard (length actions = 1 \<and> current_leader node = None \<and> installed_reply 2 100 (hd actions));
     (actions, node) \<leftarrow> handle_install_snapshot rng
       \<lparr> is_term = 2, is_leader_id = 2, is_last_included_index = last_included_index node div 2,
         is_last_included_term = 1, is_data = [] \<rparr> node;
     guard (length actions = 1 \<and> current_leader node = Some 2 \<and> installed_reply 2 100 (hd actions)) }"

definition test_snapshot_retention :: "rng \<Rightarrow> unit option" where
  "test_snapshot_retention rng = do {
     node \<leftarrow> node_with_snapshot_and_additional rng;
     let node = node\<lparr>current_term := 3\<rparr>;
     (actions, node) \<leftarrow> handle_install_snapshot rng
       \<lparr> is_term = 3, is_leader_id = 2, is_last_included_index = 101, is_last_included_term = 2, is_data = [] \<rparr> node;
     _ \<leftarrow> guard (length actions = 1 \<and> installed_reply 2 101 (hd actions));
     _ \<leftarrow> guard (last_included_index node = 100 \<and> length (log node) = 2);
     guard (log_term_at node 101 = Some 2 \<and> log_term_at node 102 = Some 3) }"

definition test_snapshot_install :: "rng \<Rightarrow> unit option" where
  "test_snapshot_install rng = do {
     node \<leftarrow> node_with_no_snapshot rng;
     let node = node\<lparr>current_term := 2, commit_index := 3, last_included_index := 3\<rparr>;
     (actions, node) \<leftarrow> handle_install_snapshot rng
       \<lparr> is_term = 3, is_leader_id = 2, is_last_included_index = 50, is_last_included_term = 3, is_data = [1, 2, 3] \<rparr>
       node;
     _ \<leftarrow> guard (length actions = 3);
     _ \<leftarrow> guard (actions ! 0 = PersistMetadata 3 None);
     _ \<leftarrow> guard (actions ! 1 = InstallSnapshot 50 3 [1, 2, 3]);
     _ \<leftarrow> guard (installed_reply 2 50 (actions ! 2));
     guard (log node = [] \<and> last_included_index node = 50 \<and> last_included_term node = 3 \<and>
            last_applied node = 50 \<and> commit_index node = 50 \<and> current_leader node = Some 2) }"

definition test_candidate_step_down :: "rng \<Rightarrow> unit option" where
  "test_candidate_step_down rng = do {
     node \<leftarrow> node_with_no_snapshot rng;
     let node = node\<lparr>state := Candidate, current_term := 2\<rparr>;
     (_, node) \<leftarrow> handle_install_snapshot rng
       \<lparr> is_term = 2, is_leader_id = 2, is_last_included_index = 100, is_last_included_term = 50, is_data = [] \<rparr> node;
     guard (state node = Follower) }"

section \<open>The tests pass\<close>

lemmas log_test_nodes [exec] =
  dummy_def fresh_node_def node_with_no_snapshot_def node_with_snapshot_no_additional_def
  node_with_snapshot_and_additional_def snapshot_is_def installed_reply_def

definition log_tests :: "(rng \<Rightarrow> unit option) list" where
  "log_tests =
     [create_new_raft_core,
      log_term_at_same_index,
      log_term_at_lower_index,
      log_term_at_index_in_physical_log_with_snapshot,
      log_term_at_index_in_physical_log,
      log_term_at_index_beyond,
      log_slice_no_snapshot,
      log_slice_snapshot_no_additional,
      log_slice_snapshot,
      last_log_index_test,
      last_log_term_test,
      prepare_snapshot_test,
      complete_snapshot_test,
      complete_snapshot_bail,
      node_sends_snapshot,
      test_install_snapshot_response,
      test_handle_snapshot_bail,
      test_snapshot_retention,
      test_snapshot_install,
      test_candidate_step_down]"

lemma create_new_raft_core_passes: "rng (15, 31) = Some tm \<Longrightarrow> create_new_raft_core rng = Some ()"
  by (simp add: create_new_raft_core_def exec cong: bind_weak)

lemma log_term_at_same_index_passes: "rng (15, 31) = Some tm \<Longrightarrow> log_term_at_same_index rng = Some ()"
  by (simp add: log_term_at_same_index_def exec cong: bind_weak)

lemma log_term_at_lower_index_passes: "rng (15, 31) = Some tm \<Longrightarrow> log_term_at_lower_index rng = Some ()"
  by (simp add: log_term_at_lower_index_def exec cong: bind_weak)

lemma log_term_at_index_in_physical_log_with_snapshot_passes: "rng (15, 31) = Some tm \<Longrightarrow> log_term_at_index_in_physical_log_with_snapshot rng = Some ()"
  by (simp add: log_term_at_index_in_physical_log_with_snapshot_def exec cong: bind_weak)

lemma log_term_at_index_in_physical_log_passes: "rng (15, 31) = Some tm \<Longrightarrow> log_term_at_index_in_physical_log rng = Some ()"
  by (simp add: log_term_at_index_in_physical_log_def exec cong: bind_weak)

lemma log_term_at_index_beyond_passes: "rng (15, 31) = Some tm \<Longrightarrow> log_term_at_index_beyond rng = Some ()"
  by (simp add: log_term_at_index_beyond_def exec cong: bind_weak)

lemma log_slice_no_snapshot_passes: "rng (15, 31) = Some tm \<Longrightarrow> log_slice_no_snapshot rng = Some ()"
  by (simp add: log_slice_no_snapshot_def exec cong: bind_weak)

lemma log_slice_snapshot_no_additional_passes: "rng (15, 31) = Some tm \<Longrightarrow> log_slice_snapshot_no_additional rng = Some ()"
  by (simp add: log_slice_snapshot_no_additional_def exec cong: bind_weak)

lemma log_slice_snapshot_passes: "rng (15, 31) = Some tm \<Longrightarrow> log_slice_snapshot rng = Some ()"
  by (simp add: log_slice_snapshot_def exec cong: bind_weak)

lemma last_log_index_test_passes: "rng (15, 31) = Some tm \<Longrightarrow> last_log_index_test rng = Some ()"
  by (simp add: last_log_index_test_def exec cong: bind_weak)

lemma last_log_term_test_passes: "rng (15, 31) = Some tm \<Longrightarrow> last_log_term_test rng = Some ()"
  by (simp add: last_log_term_test_def exec cong: bind_weak)

lemma prepare_snapshot_test_passes: "rng (15, 31) = Some tm \<Longrightarrow> prepare_snapshot_test rng = Some ()"
  by (simp add: prepare_snapshot_test_def exec cong: bind_weak)

lemma complete_snapshot_test_passes: "rng (15, 31) = Some tm \<Longrightarrow> complete_snapshot_test rng = Some ()"
  by (simp add: complete_snapshot_test_def exec cong: bind_weak)

lemma complete_snapshot_bail_passes: "rng (15, 31) = Some tm \<Longrightarrow> complete_snapshot_bail rng = Some ()"
  by (simp add: complete_snapshot_bail_def exec cong: bind_weak)

lemma node_sends_snapshot_passes: "rng (15, 31) = Some tm \<Longrightarrow> node_sends_snapshot rng = Some ()"
  by (simp add: node_sends_snapshot_def exec cong: bind_weak)

lemma test_install_snapshot_response_passes: "rng (15, 31) = Some tm \<Longrightarrow> test_install_snapshot_response rng = Some ()"
  by (simp add: test_install_snapshot_response_def exec cong: bind_weak)

lemma test_handle_snapshot_bail_passes: "rng (15, 31) = Some tm \<Longrightarrow> test_handle_snapshot_bail rng = Some ()"
  by (simp add: test_handle_snapshot_bail_def exec cong: bind_weak)

lemma test_snapshot_retention_passes: "rng (15, 31) = Some tm \<Longrightarrow> test_snapshot_retention rng = Some ()"
  by (simp add: test_snapshot_retention_def exec cong: bind_weak)

lemma test_snapshot_install_passes: "rng (15, 31) = Some tm \<Longrightarrow> test_snapshot_install rng = Some ()"
  by (simp add: test_snapshot_install_def exec cong: bind_weak)

lemma test_candidate_step_down_passes: "rng (15, 31) = Some tm \<Longrightarrow> test_candidate_step_down rng = Some ()"
  by (simp add: test_candidate_step_down_def exec cong: bind_weak)

lemmas log_test_passes =
  create_new_raft_core_passes log_term_at_same_index_passes log_term_at_lower_index_passes
  log_term_at_index_in_physical_log_with_snapshot_passes log_term_at_index_in_physical_log_passes
  log_term_at_index_beyond_passes log_slice_no_snapshot_passes log_slice_snapshot_no_additional_passes
  log_slice_snapshot_passes last_log_index_test_passes last_log_term_test_passes prepare_snapshot_test_passes
  complete_snapshot_test_passes complete_snapshot_bail_passes node_sends_snapshot_passes
  test_install_snapshot_response_passes test_handle_snapshot_bail_passes test_snapshot_retention_passes
  test_snapshot_install_passes test_candidate_step_down_passes

lemma rng_draw:
  assumes "rng_ok rng"
  obtains tm where "rng (15, 31) = Some tm"
  using assms [unfolded rng_ok_def, rule_format, of 15 31] by auto

lemma log_tests_pass: "rng_ok rng \<Longrightarrow> list_all (\<lambda>t. t rng = Some ()) log_tests"
  by (erule rng_draw) (simp add: log_tests_def log_test_passes)

end
