(* ===== verification/ElectionTests.thy ===== *)
theory ElectionTests
  imports LogTests
begin

text \<open>
  The tests of \<open>src/crates/raftcore/src/lib.rs\<close> on elections, votes and the persistence of metadata, with
  the helpers they share.  The nodes of a test are local variables that a helper borrows mutably; here
  they are an association list that is passed along.  Each test is run with the generator that returns the
  smallest number.
\<close>

section \<open>Helpers\<close>

type_synonym locals = "(NodeId \<times> RaftCore) list"

definition on_local :: "NodeId \<Rightarrow> (RaftCore \<Rightarrow> ('a \<times> RaftCore) option) \<Rightarrow> locals \<Rightarrow> ('a \<times> locals) option" where
  "on_local n f ns = do {
     s \<leftarrow> map_of ns n;
     (r, s') \<leftarrow> f s;
     Some (r, AList.update n s' ns) }"

definition edit_local :: "NodeId \<Rightarrow> (RaftCore \<Rightarrow> RaftCore) \<Rightarrow> locals \<Rightarrow> locals option" where
  "edit_local n f ns = do { s \<leftarrow> map_of ns n; Some (AList.update n (f s) ns) }"

definition count_if :: "('a \<Rightarrow> bool) \<Rightarrow> 'a list \<Rightarrow> nat" where
  "count_if p xs = length (filter p xs)"

fun extract_request_votes :: "Action list \<Rightarrow> (NodeId \<times> RequestVoteRPC) list" where
  "extract_request_votes [] = []"
| "extract_request_votes (SendMessage target (RequestVote req) # as) = (target, req) # extract_request_votes as"
| "extract_request_votes (_ # as) = extract_request_votes as"

fun extract_request_vote_responses :: "Action list \<Rightarrow> (NodeId \<times> RequestVoteResponseRPC) list" where
  "extract_request_vote_responses [] = []"
| "extract_request_vote_responses (SendMessage target (RequestVoteResponse resp) # as) =
     (target, resp) # extract_request_vote_responses as"
| "extract_request_vote_responses (_ # as) = extract_request_vote_responses as"

text \<open>\<open>keys\<close> are the keys of the \<open>HashMap\<close> of borrowed nodes; a message to another node is dropped.\<close>

primrec deliver_request_votes ::
  "rng \<Rightarrow> NodeId list \<Rightarrow> (NodeId \<times> RequestVoteRPC) list \<Rightarrow> locals \<Rightarrow>
   ((NodeId \<times> RequestVoteResponseRPC) list \<times> locals) option" where
  "deliver_request_votes rng keys [] ns = Some ([], ns)"
| "deliver_request_votes rng keys (m # ms) ns =
     (if fst m \<in> set keys then do {
        (resp_actions, ns) \<leftarrow> on_local (fst m) (handle_request_vote rng (snd m)) ns;
        (responses, ns) \<leftarrow> deliver_request_votes rng keys ms ns;
        Some (extract_request_vote_responses resp_actions @ responses, ns) }
      else deliver_request_votes rng keys ms ns)"

text \<open>\<open>candidate.id\<close> is \<open>n\<close>, the name of the node; only messages to it are delivered.\<close>

primrec deliver_request_vote_responses_with_actions ::
  "rng \<Rightarrow> NodeId \<Rightarrow> (NodeId \<times> RequestVoteResponseRPC) list \<Rightarrow> locals \<Rightarrow> (Action list \<times> locals) option" where
  "deliver_request_vote_responses_with_actions rng n [] ns = Some ([], ns)"
| "deliver_request_vote_responses_with_actions rng n (m # ms) ns =
     (if fst m = n then do {
        (as, ns) \<leftarrow> on_local n (handle_request_vote_response rng (snd m)) ns;
        (actions, ns) \<leftarrow> deliver_request_vote_responses_with_actions rng n ms ns;
        Some (as @ actions, ns) }
      else deliver_request_vote_responses_with_actions rng n ms ns)"

definition deliver_request_vote_responses ::
  "rng \<Rightarrow> NodeId \<Rightarrow> (NodeId \<times> RequestVoteResponseRPC) list \<Rightarrow> locals \<Rightarrow> locals option" where
  "deliver_request_vote_responses rng n ms ns =
     map_option snd (deliver_request_vote_responses_with_actions rng n ms ns)"

definition init_three_node_noop_cluster :: "rng \<Rightarrow> locals option" where
  "init_three_node_noop_cluster rng = do {
     node1 \<leftarrow> new rng 1 [1, 2, 3] None (15, 31);
     node2 \<leftarrow> new rng 2 [1, 2, 3] None (15, 31);
     node3 \<leftarrow> new rng 3 [1, 2, 3] None (15, 31);
     _ \<leftarrow> guard (state node1 = Follower \<and> state node2 = Follower \<and> state node3 = Follower);
     Some [(1, node1), (2, node2), (3, node3)] }"

definition init_five_node_noop_cluster :: "rng \<Rightarrow> locals option" where
  "init_five_node_noop_cluster rng = do {
     node1 \<leftarrow> new rng 1 [1, 2, 3, 4, 5] None (15, 31);
     node2 \<leftarrow> new rng 2 [1, 2, 3, 4, 5] None (15, 31);
     node3 \<leftarrow> new rng 3 [1, 2, 3, 4, 5] None (15, 31);
     node4 \<leftarrow> new rng 4 [1, 2, 3, 4, 5] None (15, 31);
     node5 \<leftarrow> new rng 5 [1, 2, 3, 4, 5] None (15, 31);
     _ \<leftarrow> guard (state node1 = Follower \<and> state node2 = Follower \<and> state node3 = Follower \<and>
                state node4 = Follower \<and> state node5 = Follower);
     Some [(1, node1), (2, node2), (3, node3), (4, node4), (5, node5)] }"

text \<open>\<open>tick_until_candidate(&mut node); node.tick()\<close>.\<close>

definition stand :: "rng \<Rightarrow> NodeId \<Rightarrow> locals \<Rightarrow> (Action list \<times> locals) option" where
  "stand rng n ns = do {
     (_, ns) \<leftarrow> on_local n (tick_until_candidate rng) ns;
     on_local n (tick rng) ns }"

definition make_leader_with_actions ::
  "rng \<Rightarrow> NodeId \<Rightarrow> NodeId list \<Rightarrow> locals \<Rightarrow> (Action list \<times> locals) option" where
  "make_leader_with_actions rng n keys ns = do {
     (actions, ns) \<leftarrow> stand rng n ns;
     (responses, ns) \<leftarrow> deliver_request_votes rng keys (extract_request_votes actions) ns;
     (actions, ns) \<leftarrow> deliver_request_vote_responses_with_actions rng n responses ns;
     leader \<leftarrow> map_of ns n;
     _ \<leftarrow> guard (state leader = Leader);
     Some (actions, ns) }"

definition make_leader :: "rng \<Rightarrow> NodeId \<Rightarrow> NodeId list \<Rightarrow> locals \<Rightarrow> locals option" where
  "make_leader rng n keys ns = do {
     (actions, ns) \<leftarrow> stand rng n ns;
     (responses, ns) \<leftarrow> deliver_request_votes rng keys (extract_request_votes actions) ns;
     ns \<leftarrow> deliver_request_vote_responses rng n responses ns;
     leader \<leftarrow> map_of ns n;
     _ \<leftarrow> guard (state leader = Leader);
     Some ns }"

section \<open>Elections\<close>

definition raft_initial_election :: "rng \<Rightarrow> unit option" where
  "raft_initial_election rng = do {
     cluster \<leftarrow> new_with_leader rng [1, 2, 3] 1;
     node1 \<leftarrow> tc_node 1 cluster;
     node2 \<leftarrow> tc_node 2 cluster;
     node3 \<leftarrow> tc_node 3 cluster;
     _ \<leftarrow> guard (state node1 = Leader \<and> current_term node1 = 1);
     _ \<leftarrow> guard (state node2 = Follower \<and> state node3 = Follower);
     _ \<leftarrow> guard (current_term node2 = 1 \<and> current_term node3 = 1);
     guard (current_leader node1 = Some 1 \<and> current_leader node2 = Some 1 \<and> current_leader node3 = Some 1) }"

definition request_vote_correct_log_info :: "rng \<Rightarrow> unit option" where
  "request_vote_correct_log_info rng = do {
     ns \<leftarrow> init_three_node_noop_cluster rng;
     ns \<leftarrow> edit_local 1 (\<lambda>s. s\<lparr>log := log s @ [dummy 1, dummy 2]\<rparr>) ns;
     (actions, ns) \<leftarrow> stand rng 1 ns;
     let vote_requests = extract_request_votes actions;
     _ \<leftarrow> guard (count_if (\<lambda>(_, req). rv_last_log_index req = 2) vote_requests = 2);
     guard (count_if (\<lambda>(_, req). rv_last_log_term req = 2) vote_requests = 2) }"

definition test_simultaneous_election :: "rng \<Rightarrow> unit option" where
  "test_simultaneous_election rng = do {
     ns \<leftarrow> init_three_node_noop_cluster rng;
     (_, ns) \<leftarrow> on_local 1 (tick_until_candidate rng) ns;
     (_, ns) \<leftarrow> on_local 2 (tick_until_candidate rng) ns;
     (node1_actions, ns) \<leftarrow> on_local 1 (tick rng) ns;
     (node2_actions, ns) \<leftarrow> on_local 2 (tick rng) ns;
     (responses_for_node1, ns) \<leftarrow> deliver_request_votes rng [2, 3] (extract_request_votes node1_actions) ns;
     (responses_for_node2, ns) \<leftarrow> deliver_request_votes rng [1, 3] (extract_request_votes node2_actions) ns;
     ns \<leftarrow> deliver_request_vote_responses rng 1 responses_for_node1 ns;
     node1 \<leftarrow> map_of ns 1;
     _ \<leftarrow> guard (state node1 = Leader);
     _ \<leftarrow> guard (list_all (\<lambda>(i, msg). i = 3 \<longrightarrow> \<not> rvr_vote_granted msg) responses_for_node2);
     node3 \<leftarrow> map_of ns 3;
     _ \<leftarrow> guard (voted_for node3 = Some 1);
     ns \<leftarrow> deliver_request_vote_responses rng 2 responses_for_node2 ns;
     node2 \<leftarrow> map_of ns 2;
     guard (state node2 = Candidate \<and> card (votes_received node2) = 1) }"

definition node_receives_request_vote_lower_term :: "rng \<Rightarrow> unit option" where
  "node_receives_request_vote_lower_term rng = do {
     ns \<leftarrow> init_three_node_noop_cluster rng;
     ns \<leftarrow> edit_local 1 (\<lambda>s. s\<lparr>current_term := 2\<rparr>) ns;
     ns \<leftarrow> edit_local 2 (\<lambda>s. s\<lparr>current_term := 2\<rparr>) ns;
     ns \<leftarrow> edit_local 3 (\<lambda>s. s\<lparr>current_term := 2\<rparr>) ns;
     (node2_actions, ns) \<leftarrow> on_local 2 (handle_request_vote rng
       \<lparr> rv_term = 1, rv_candidate_id = 1, rv_last_log_index = 0, rv_last_log_term = 0 \<rparr>) ns;
     guard (case node2_actions of
              SendMessage target (RequestVoteResponse response) # _ \<Rightarrow> target = 1 \<and> \<not> rvr_vote_granted response
            | _ \<Rightarrow> False) }"

definition candidate_steps_down_with_higher_term_request_vote :: "rng \<Rightarrow> unit option" where
  "candidate_steps_down_with_higher_term_request_vote rng = do {
     ns \<leftarrow> init_three_node_noop_cluster rng;
     (_, ns) \<leftarrow> stand rng 1 ns;
     node1 \<leftarrow> map_of ns 1;
     _ \<leftarrow> guard (state node1 = Candidate);
     next_term \<leftarrow> u64_add (current_term node1) 1;
     (node1_actions, ns) \<leftarrow> on_local 1 (handle_request_vote rng
       \<lparr> rv_term = next_term, rv_candidate_id = 2, rv_last_log_index = 0, rv_last_log_term = 0 \<rparr>) ns;
     node1 \<leftarrow> map_of ns 1;
     _ \<leftarrow> guard (state node1 = Follower \<and> voted_for node1 = Some 2 \<and> current_leader node1 = None \<and>
                current_term node1 = next_term);
     guard (case node1_actions of
              SendMessage _ (RequestVoteResponse response) # _ \<Rightarrow> rvr_vote_granted response
            | _ # _ \<Rightarrow> True
            | [] \<Rightarrow> False) }"

definition candidate_hits_election_timeout :: "rng \<Rightarrow> unit option" where
  "candidate_hits_election_timeout rng = do {
     ns \<leftarrow> init_three_node_noop_cluster rng;
     (actions, ns) \<leftarrow> stand rng 1 ns;
     node1 \<leftarrow> map_of ns 1;
     _ \<leftarrow> guard (state node1 = Candidate \<and> current_leader node1 = None \<and> current_term node1 = 1);
     (_, ns) \<leftarrow> deliver_request_votes rng [2, 3] (extract_request_votes actions) ns;
     node2 \<leftarrow> map_of ns 2;
     node3 \<leftarrow> map_of ns 3;
     _ \<leftarrow> guard (current_term node2 = 1 \<and> voted_for node2 = Some 1 \<and>
                current_term node3 = 1 \<and> voted_for node3 = Some 1);
     (actions, ns) \<leftarrow> stand rng 1 ns;
     node1 \<leftarrow> map_of ns 1;
     _ \<leftarrow> guard (state node1 = Candidate \<and> current_term node1 = 2);
     (responses, ns) \<leftarrow> deliver_request_votes rng [2, 3] (extract_request_votes actions) ns;
     node2 \<leftarrow> map_of ns 2;
     node3 \<leftarrow> map_of ns 3;
     _ \<leftarrow> guard (current_term node2 = 2 \<and> voted_for node2 = Some 1 \<and>
                current_term node3 = 2 \<and> voted_for node3 = Some 1);
     ns \<leftarrow> deliver_request_vote_responses rng 1 responses ns;
     node1 \<leftarrow> map_of ns 1;
     guard (state node1 = Leader \<and> current_term node1 = 2) }"

definition candidate_receives_higher_term_response :: "rng \<Rightarrow> unit option" where
  "candidate_receives_higher_term_response rng = do {
     ns \<leftarrow> init_three_node_noop_cluster rng;
     (_, ns) \<leftarrow> stand rng 1 ns;
     node1 \<leftarrow> map_of ns 1;
     next_term \<leftarrow> u64_add (current_term node1) 1;
     (_, ns) \<leftarrow> on_local 1 (handle_request_vote_response rng
       \<lparr> rvr_id = 2, rvr_term = next_term, rvr_vote_granted = False \<rparr>) ns;
     node1 \<leftarrow> map_of ns 1;
     guard (state node1 = Follower \<and> current_term node1 = next_term) }"

definition candidate_receives_duplicate_vote :: "rng \<Rightarrow> unit option" where
  "candidate_receives_duplicate_vote rng = do {
     ns \<leftarrow> init_five_node_noop_cluster rng;
     (actions, ns) \<leftarrow> stand rng 1 ns;
     (responses, ns) \<leftarrow> deliver_request_votes rng [2, 3, 4, 5] (extract_request_votes actions) ns;
     (_, node2_resp) \<leftarrow> List.find (\<lambda>(_, response). rvr_id response = 2) responses;
     node1 \<leftarrow> map_of ns 1;
     _ \<leftarrow> guard (state node1 = Candidate);
     (_, ns) \<leftarrow> on_local 1 (handle_request_vote_response rng node2_resp) ns;
     node1 \<leftarrow> map_of ns 1;
     _ \<leftarrow> guard (card (votes_received node1) = 2);
     (_, ns) \<leftarrow> on_local 1 (handle_request_vote_response rng node2_resp) ns;
     node1 \<leftarrow> map_of ns 1;
     guard (state node1 = Candidate \<and> card (votes_received node1) = 2) }"

definition leader_steps_down :: "rng \<Rightarrow> unit option" where
  "leader_steps_down rng = do {
     ns \<leftarrow> init_three_node_noop_cluster rng;
     (_, ns) \<leftarrow> on_local 1 (tick_until_candidate rng) ns;
     node1 \<leftarrow> map_of ns 1;
     _ \<leftarrow> guard (state node1 = Follower);
     (actions, ns) \<leftarrow> on_local 1 (tick rng) ns;
     node1 \<leftarrow> map_of ns 1;
     _ \<leftarrow> guard (state node1 = Candidate \<and> actions \<noteq> []);
     (responses, ns) \<leftarrow> deliver_request_votes rng [2, 3] (extract_request_votes actions) ns;
     ns \<leftarrow> deliver_request_vote_responses rng 1 responses ns;
     node1 \<leftarrow> map_of ns 1;
     _ \<leftarrow> guard (state node1 = Leader \<and> current_term node1 = 1);
     (actions, ns) \<leftarrow> stand rng 2 ns;
     (_, ns) \<leftarrow> deliver_request_votes rng [1, 3] (extract_request_votes actions) ns;
     node1 \<leftarrow> map_of ns 1;
     guard (state node1 = Follower \<and> current_leader node1 = None) }"

section \<open>Granting votes\<close>

definition reject_vote_candidate_log_behind :: "rng \<Rightarrow> unit option" where
  "reject_vote_candidate_log_behind rng = do {
     ns \<leftarrow> init_three_node_noop_cluster rng;
     ns \<leftarrow> edit_local 2 (\<lambda>s. s\<lparr>log := log s @ [dummy 2]\<rparr>) ns;
     (actions, ns) \<leftarrow> stand rng 1 ns;
     (responses, ns) \<leftarrow> deliver_request_votes rng [2, 3] (extract_request_votes actions) ns;
     guard (count_if (\<lambda>(_, msg). rvr_id msg = 2 \<and> \<not> rvr_vote_granted msg) responses = 1) }"

definition reject_vote_same_last_term_shorter_log :: "rng \<Rightarrow> unit option" where
  "reject_vote_same_last_term_shorter_log rng = do {
     ns \<leftarrow> init_three_node_noop_cluster rng;
     ns \<leftarrow> edit_local 1 (\<lambda>s. s\<lparr>log := log s @ [dummy 1]\<rparr>) ns;
     ns \<leftarrow> edit_local 3 (\<lambda>s. s\<lparr>log := log s @ [dummy 1]\<rparr>) ns;
     ns \<leftarrow> edit_local 2 (\<lambda>s. s\<lparr>log := log s @ [dummy 1, dummy 1]\<rparr>) ns;
     (actions, ns) \<leftarrow> stand rng 1 ns;
     (responses, ns) \<leftarrow> deliver_request_votes rng [2, 3] (extract_request_votes actions) ns;
     _ \<leftarrow> guard (count_if (\<lambda>(_, msg). rvr_id msg = 2 \<and> \<not> rvr_vote_granted msg) responses = 1);
     guard (count_if (\<lambda>(_, msg). rvr_id msg = 3 \<and> rvr_vote_granted msg) responses = 1) }"

definition grant_vote_candidate_higher_last_term :: "rng \<Rightarrow> unit option" where
  "grant_vote_candidate_higher_last_term rng = do {
     ns \<leftarrow> init_three_node_noop_cluster rng;
     ns \<leftarrow> edit_local 2 (\<lambda>s. s\<lparr>log := log s @ [dummy 1, dummy 1, dummy 1]\<rparr>) ns;
     ns \<leftarrow> edit_local 1 (\<lambda>s. s\<lparr>log := log s @ [dummy 2]\<rparr>) ns;
     (actions, ns) \<leftarrow> stand rng 1 ns;
     (responses, ns) \<leftarrow> deliver_request_votes rng [2, 3] (extract_request_votes actions) ns;
     guard (count_if (\<lambda>(_, msg). rvr_id msg = 2 \<and> rvr_vote_granted msg) responses = 1) }"

section \<open>Persistence before messages\<close>

definition election_emits_persist_metadata :: "rng \<Rightarrow> unit option" where
  "election_emits_persist_metadata rng = do {
     cluster \<leftarrow> tc_new rng [1, 2, 3];
     cluster \<leftarrow> tc_tick_until_candidate rng 1 cluster;
     (actions, cluster) \<leftarrow> tick_node rng 1 cluster;
     guard (actions \<noteq> [] \<and> hd actions = PersistMetadata 1 (Some 1)) }"

definition grant_vote_emits_persist_metadata :: "rng \<Rightarrow> unit option" where
  "grant_vote_emits_persist_metadata rng = do {
     cluster \<leftarrow> tc_new rng [1, 2, 3];
     cluster \<leftarrow> tc_tick_until_candidate rng 1 cluster;
     (actions, cluster) \<leftarrow> tick_node rng 1 cluster;
     node2_act \<leftarrow> List.find (\<lambda>a. case a of SendMessage target _ \<Rightarrow> target = 2 | _ \<Rightarrow> False) actions;
     node2_msg \<leftarrow> (case node2_act of SendMessage _ (RequestVote msg) \<Rightarrow> Some msg | _ \<Rightarrow> None);
     (node2_actions, cluster) \<leftarrow> on_node 2 (handle_request_vote rng node2_msg) cluster;
     guard (1 < length node2_actions \<and> node2_actions ! 0 = PersistMetadata 1 None \<and>
            node2_actions ! 1 = PersistMetadata 1 (Some 1)) }"

definition leader_election_emits_persist_log :: "rng \<Rightarrow> unit option" where
  "leader_election_emits_persist_log rng = do {
     cluster \<leftarrow> tc_new rng [1, 2, 3];
     cluster \<leftarrow> tc_tick_until_candidate rng 1 cluster;
     (actions, cluster) \<leftarrow> tick_node rng 1 cluster;
     (_, cluster) \<leftarrow> deliver_all rng (snd (collect_actions 1 actions cluster));
     (actions, cluster) \<leftarrow> deliver_all rng cluster;
     leader_actions \<leftarrow> map_of actions 1;
     guard (leader_actions \<noteq> [] \<and>
            hd leader_actions = PersistLogEntries 1 [\<lparr> le_term = 1, le_command = [] \<rparr>]) }"

section \<open>The tests pass\<close>

lemmas election_helpers [exec] =
  on_local_def edit_local_def count_if_def deliver_request_vote_responses_def init_three_node_noop_cluster_def
  init_five_node_noop_cluster_def stand_def make_leader_with_actions_def make_leader_def

definition election_tests :: "(rng \<Rightarrow> unit option) list" where
  "election_tests =
     [raft_initial_election, request_vote_correct_log_info, test_simultaneous_election,
      node_receives_request_vote_lower_term, candidate_steps_down_with_higher_term_request_vote,
      candidate_hits_election_timeout, candidate_receives_higher_term_response,
      candidate_receives_duplicate_vote, leader_steps_down, reject_vote_candidate_log_behind,
      reject_vote_same_last_term_shorter_log, grant_vote_candidate_higher_last_term,
      election_emits_persist_metadata, grant_vote_emits_persist_metadata,
      leader_election_emits_persist_log]"

lemma raft_initial_election_passes: "raft_initial_election demo_rng = Some ()"
  by (simp add: raft_initial_election_def exec cong: bind_weak let_weak_cong)

lemma request_vote_correct_log_info_passes: "request_vote_correct_log_info demo_rng = Some ()"
  by (simp add: request_vote_correct_log_info_def exec cong: bind_weak let_weak_cong)

lemma test_simultaneous_election_passes: "test_simultaneous_election demo_rng = Some ()"
  by (simp add: test_simultaneous_election_def exec cong: bind_weak let_weak_cong)

lemma node_receives_request_vote_lower_term_passes: "node_receives_request_vote_lower_term demo_rng = Some ()"
  by (simp add: node_receives_request_vote_lower_term_def exec cong: bind_weak let_weak_cong)

lemma candidate_steps_down_with_higher_term_request_vote_passes: "candidate_steps_down_with_higher_term_request_vote demo_rng = Some ()"
  by (simp add: candidate_steps_down_with_higher_term_request_vote_def exec cong: bind_weak let_weak_cong)

lemma candidate_hits_election_timeout_passes: "candidate_hits_election_timeout demo_rng = Some ()"
  by (simp add: candidate_hits_election_timeout_def exec cong: bind_weak let_weak_cong)

lemma candidate_receives_higher_term_response_passes: "candidate_receives_higher_term_response demo_rng = Some ()"
  by (simp add: candidate_receives_higher_term_response_def exec cong: bind_weak let_weak_cong)

lemma candidate_receives_duplicate_vote_passes: "candidate_receives_duplicate_vote demo_rng = Some ()"
  by (simp add: candidate_receives_duplicate_vote_def exec cong: bind_weak let_weak_cong)

lemma leader_steps_down_passes: "leader_steps_down demo_rng = Some ()"
  by (simp add: leader_steps_down_def exec cong: bind_weak let_weak_cong)

lemma reject_vote_candidate_log_behind_passes: "reject_vote_candidate_log_behind demo_rng = Some ()"
  by (simp add: reject_vote_candidate_log_behind_def exec cong: bind_weak let_weak_cong)

lemma reject_vote_same_last_term_shorter_log_passes: "reject_vote_same_last_term_shorter_log demo_rng = Some ()"
  by (simp add: reject_vote_same_last_term_shorter_log_def exec cong: bind_weak let_weak_cong)

lemma grant_vote_candidate_higher_last_term_passes: "grant_vote_candidate_higher_last_term demo_rng = Some ()"
  by (simp add: grant_vote_candidate_higher_last_term_def exec cong: bind_weak let_weak_cong)

lemma election_emits_persist_metadata_passes: "election_emits_persist_metadata demo_rng = Some ()"
  by (simp add: election_emits_persist_metadata_def exec cong: bind_weak let_weak_cong)

lemma grant_vote_emits_persist_metadata_passes: "grant_vote_emits_persist_metadata demo_rng = Some ()"
  by (simp add: grant_vote_emits_persist_metadata_def exec cong: bind_weak let_weak_cong)

lemma leader_election_emits_persist_log_passes: "leader_election_emits_persist_log demo_rng = Some ()"
  by (simp add: leader_election_emits_persist_log_def exec cong: bind_weak let_weak_cong)

lemma election_tests_pass: "list_all (\<lambda>t. t demo_rng = Some ()) election_tests"
  by (simp add: election_tests_def
      raft_initial_election_passes request_vote_correct_log_info_passes test_simultaneous_election_passes
      node_receives_request_vote_lower_term_passes
      candidate_steps_down_with_higher_term_request_vote_passes candidate_hits_election_timeout_passes
      candidate_receives_higher_term_response_passes candidate_receives_duplicate_vote_passes
      leader_steps_down_passes reject_vote_candidate_log_behind_passes
      reject_vote_same_last_term_shorter_log_passes grant_vote_candidate_higher_last_term_passes
      election_emits_persist_metadata_passes grant_vote_emits_persist_metadata_passes
      leader_election_emits_persist_log_passes)

end
