(* ===== verification/ReplicationTests.thy ===== *)
theory ReplicationTests
  imports ElectionTests
begin

text \<open>
  The tests of \<open>src/crates/raftcore/src/lib.rs\<close> on heartbeats, replication, commits and diverging logs,
  with the helpers they share, run like those of \<open>ElectionTests\<close>.
\<close>

section \<open>Helpers\<close>

fun extract_append_entries :: "Action list \<Rightarrow> (NodeId \<times> AppendEntriesRPC) list" where
  "extract_append_entries [] = []"
| "extract_append_entries (SendMessage target (AppendEntries req) # as) = (target, req) # extract_append_entries as"
| "extract_append_entries (_ # as) = extract_append_entries as"

fun extract_append_entries_responses :: "Action list \<Rightarrow> (NodeId \<times> AppendEntriesResponseRPC) list" where
  "extract_append_entries_responses [] = []"
| "extract_append_entries_responses (SendMessage target (AppendEntriesResponse resp) # as) =
     (target, resp) # extract_append_entries_responses as"
| "extract_append_entries_responses (_ # as) = extract_append_entries_responses as"

primrec deliver_append_entries ::
  "rng \<Rightarrow> NodeId list \<Rightarrow> (NodeId \<times> AppendEntriesRPC) list \<Rightarrow> locals \<Rightarrow>
   ((NodeId \<times> AppendEntriesResponseRPC) list \<times> locals) option" where
  "deliver_append_entries rng keys [] ns = Some ([], ns)"
| "deliver_append_entries rng keys (m # ms) ns =
     (if fst m \<in> set keys then do {
        (resp_actions, ns) \<leftarrow> on_local (fst m) (handle_append_entries rng (snd m)) ns;
        (responses, ns) \<leftarrow> deliver_append_entries rng keys ms ns;
        Some (extract_append_entries_responses resp_actions @ responses, ns) }
      else deliver_append_entries rng keys ms ns)"

primrec deliver_append_entries_responses ::
  "rng \<Rightarrow> NodeId \<Rightarrow> (NodeId \<times> AppendEntriesResponseRPC) list \<Rightarrow> locals \<Rightarrow> locals option" where
  "deliver_append_entries_responses rng n [] ns = Some ns"
| "deliver_append_entries_responses rng n (m # ms) ns =
     (if fst m = n then do {
        (_, ns) \<leftarrow> on_local n (handle_append_entries_response rng (snd m)) ns;
        deliver_append_entries_responses rng n ms ns }
      else deliver_append_entries_responses rng n ms ns)"

definition append_entries_loop ::
  "rng \<Rightarrow> NodeId \<Rightarrow> NodeId list \<Rightarrow> Action list \<Rightarrow> locals \<Rightarrow> locals option" where
  "append_entries_loop rng n keys actions ns = do {
     (responses, ns) \<leftarrow> deliver_append_entries rng keys (extract_append_entries actions) ns;
     deliver_append_entries_responses rng n responses ns }"

definition edit_node :: "NodeId \<Rightarrow> (RaftCore \<Rightarrow> RaftCore) \<Rightarrow> TestCluster \<Rightarrow> TestCluster option" where
  "edit_node n f c = do { s \<leftarrow> tc_node n c; Some (set_node n (f s) c) }"

text \<open>The patterns that the assertions on the queue match.\<close>

definition is_append :: "(AppendEntriesRPC \<Rightarrow> bool) \<Rightarrow> Message \<Rightarrow> bool" where
  "is_append P m = (case m of AppendEntries req \<Rightarrow> P req | _ \<Rightarrow> False)"

definition is_response :: "(AppendEntriesResponseRPC \<Rightarrow> bool) \<Rightarrow> Message \<Rightarrow> bool" where
  "is_response P m = (case m of AppendEntriesResponse resp \<Rightarrow> P resp | _ \<Rightarrow> False)"

definition is_apply :: "Action \<Rightarrow> bool" where
  "is_apply a = (case a of ApplyToStateMachine _ _ \<Rightarrow> True | _ \<Rightarrow> False)"

definition is_persist_log :: "Action \<Rightarrow> bool" where
  "is_persist_log a = (case a of PersistLogEntries _ _ \<Rightarrow> True | _ \<Rightarrow> False)"

text \<open>\<open>actions.get(&id).unwrap()\<close> has one action, an \<open>ApplyToStateMachine\<close>.\<close>

definition applies_one :: "NodeId \<Rightarrow> outcome \<Rightarrow> unit option" where
  "applies_one n actions = do {
     as \<leftarrow> map_of actions n;
     guard (length as = 1 \<and> list_all is_apply as) }"

definition committed :: "NodeId \<Rightarrow> u64 \<Rightarrow> TestCluster \<Rightarrow> unit option" where
  "committed n i c = do { s \<leftarrow> tc_node n c; guard (commit_index s = i) }"

text \<open>\<open>tick_until_heartbeat(n)\<close>, \<open>tick_node(n)\<close> and the collection of the messages.\<close>

definition send_heartbeat :: "rng \<Rightarrow> NodeId \<Rightarrow> TestCluster \<Rightarrow> (Action list \<times> TestCluster) option" where
  "send_heartbeat rng n c = do {
     c \<leftarrow> tc_tick_until_heartbeat rng n c;
     (actions, c) \<leftarrow> tick_node rng n c;
     Some (actions, snd (collect_actions n actions c)) }"

section \<open>Heartbeats\<close>

definition leader_sends_heartbeat_at_interval :: "rng \<Rightarrow> unit option" where
  "leader_sends_heartbeat_at_interval rng = do {
     cluster \<leftarrow> new_with_leader rng [1, 2, 3] 1;
     (_, cluster) \<leftarrow> send_heartbeat rng 1 cluster;
     _ \<leftarrow> guard (length (pending_messages cluster) = 2);
     guard (count_if (\<lambda>(_, _, msg). is_append (\<lambda>req. ae_entries req = []) msg) (pending_messages cluster) = 2) }"

definition follower_resets_election_timeout :: "rng \<Rightarrow> unit option" where
  "follower_resets_election_timeout rng = do {
     cluster \<leftarrow> new_with_leader rng [1, 2, 3] 1;
     (_, cluster) \<leftarrow> send_heartbeat rng 1 cluster;
     (_, cluster) \<leftarrow> tick_node rng 2 cluster;
     (_, cluster) \<leftarrow> tick_node rng 3 cluster;
     node2 \<leftarrow> tc_node 2 cluster;
     node3 \<leftarrow> tc_node 3 cluster;
     _ \<leftarrow> guard (0 < ticks_since_last_heartbeat node2 \<and> 0 < ticks_since_last_heartbeat node3);
     (_, cluster) \<leftarrow> deliver_all rng cluster;
     node2 \<leftarrow> tc_node 2 cluster;
     node3 \<leftarrow> tc_node 3 cluster;
     _ \<leftarrow> guard (ticks_since_last_heartbeat node2 = 0 \<and> ticks_since_last_heartbeat node3 = 0);
     guard (count_if (\<lambda>(_, _, msg). is_response aer_success msg) (pending_messages cluster) = 2) }"

definition follower_rejects_heartbeat_with_lower_term :: "rng \<Rightarrow> unit option" where
  "follower_rejects_heartbeat_with_lower_term rng = do {
     ns \<leftarrow> init_three_node_noop_cluster rng;
     ns \<leftarrow> make_leader rng 1 [2, 3] ns;
     _ \<leftarrow> guard (list_all (\<lambda>(_, s). current_term s = 1) ns);
     node1 \<leftarrow> map_of ns 1;
     (action, ns) \<leftarrow> on_local 2 (handle_append_entries rng
       \<lparr> ae_term = 0, ae_leader_id = node_id node1, ae_prev_log_index = 0, ae_prev_log_term = 0,
         ae_entries = [], ae_leader_commit = 0 \<rparr>) ns;
     node2 \<leftarrow> map_of ns 2;
     _ \<leftarrow> guard (length action = 1 \<and> current_leader node2 = None);
     guard (case action of
              SendMessage _ (AppendEntriesResponse resp) # _ \<Rightarrow> \<not> aer_success resp
            | _ \<Rightarrow> False) }"

definition candidate_steps_down_with_equal_term_append_entries :: "rng \<Rightarrow> unit option" where
  "candidate_steps_down_with_equal_term_append_entries rng = do {
     ns \<leftarrow> init_three_node_noop_cluster rng;
     (_, ns) \<leftarrow> stand rng 1 ns;
     node1 \<leftarrow> map_of ns 1;
     _ \<leftarrow> guard (state node1 = Candidate);
     (node1_actions, ns) \<leftarrow> on_local 1 (handle_append_entries rng
       \<lparr> ae_term = current_term node1, ae_leader_id = 2, ae_prev_log_index = 0, ae_prev_log_term = 0,
         ae_entries = [], ae_leader_commit = 0 \<rparr>) ns;
     node1 \<leftarrow> map_of ns 1;
     _ \<leftarrow> guard (state node1 = Follower);
     guard (case node1_actions of
              SendMessage _ (AppendEntriesResponse resp) # _ \<Rightarrow> aer_success resp
            | _ \<Rightarrow> False) }"

definition candidate_steps_down_with_higher_term_append_entries :: "rng \<Rightarrow> unit option" where
  "candidate_steps_down_with_higher_term_append_entries rng = do {
     ns \<leftarrow> init_three_node_noop_cluster rng;
     (_, ns) \<leftarrow> stand rng 1 ns;
     node1 \<leftarrow> map_of ns 1;
     _ \<leftarrow> guard (state node1 = Candidate);
     next_term \<leftarrow> u64_add (current_term node1) 1;
     (node1_actions, ns) \<leftarrow> on_local 1 (handle_append_entries rng
       \<lparr> ae_term = next_term, ae_leader_id = 2, ae_prev_log_index = 0, ae_prev_log_term = 0,
         ae_entries = [], ae_leader_commit = 0 \<rparr>) ns;
     node1 \<leftarrow> map_of ns 1;
     _ \<leftarrow> guard (state node1 = Follower \<and> current_term node1 = next_term);
     guard (count_if (\<lambda>a. case a of SendMessage _ m \<Rightarrow> is_response aer_success m | _ \<Rightarrow> False) node1_actions = 1) }"

definition heartbeat_no_persist :: "rng \<Rightarrow> unit option" where
  "heartbeat_no_persist rng = do {
     cluster \<leftarrow> new_with_leader rng [1, 2, 3] 1;
     (actions, cluster) \<leftarrow> send_heartbeat rng 1 cluster;
     _ \<leftarrow> guard (count_if is_persist_log actions = 0);
     (node_actions, cluster) \<leftarrow> deliver_all rng cluster;
     guard (list_all (\<lambda>(_, actions). count_if is_persist_log actions = 0) node_actions) }"

section \<open>Proposals\<close>

definition correct_next_match_index :: "rng \<Rightarrow> unit option" where
  "correct_next_match_index rng = do {
     ns \<leftarrow> init_three_node_noop_cluster rng;
     ns \<leftarrow> make_leader rng 1 [2, 3] ns;
     node1 \<leftarrow> map_of ns 1;
     guard (list_all (\<lambda>n. map_of (next_index node1) n = Some 2 \<and> map_of (match_index node1) n = Some 0) [2, 3]) }"

definition basic_propose_test :: "rng \<Rightarrow> unit option" where
  "basic_propose_test rng = do {
     cluster \<leftarrow> new_with_leader rng [1, 2, 3] 1;
     (_, cluster) \<leftarrow> tc_propose DUMMY cluster;
     node1 \<leftarrow> tc_node 1 cluster;
     _ \<leftarrow> guard (current_term node1 = 1);
     _ \<leftarrow> guard (log node1 \<noteq> [] \<and> last (log node1) = \<lparr> le_term = current_term node1, le_command = DUMMY \<rparr>);
     guard (count_if (\<lambda>(_, _, msg). is_append (\<lambda>_. True) msg) (pending_messages cluster) = 2) }"

definition followers_append_entries :: "rng \<Rightarrow> unit option" where
  "followers_append_entries rng = do {
     cluster \<leftarrow> new_with_leader rng [1, 2, 3] 1;
     (_, cluster) \<leftarrow> tc_propose DUMMY cluster;
     (_, cluster) \<leftarrow> deliver_all rng cluster;
     node2 \<leftarrow> tc_node 2 cluster;
     node3 \<leftarrow> tc_node 3 cluster;
     guard (log node2 \<noteq> [] \<and> last (log node2) = dummy 1 \<and> log node3 \<noteq> [] \<and> last (log node3) = dummy 1) }"

definition full_append_entries_message :: "rng \<Rightarrow> unit option" where
  "full_append_entries_message rng = do {
     cluster \<leftarrow> new_with_leader rng [1, 2, 3] 1;
     (actions, cluster) \<leftarrow> propose_and_sync rng DUMMY cluster;
     leader \<leftarrow> tc_leader cluster;
     s \<leftarrow> tc_node leader cluster;
     _ \<leftarrow> guard (map_of (next_index s) 2 = Some 3 \<and> map_of (match_index s) 2 = Some 2);
     _ \<leftarrow> guard (map_of (next_index s) 3 = Some 3 \<and> map_of (match_index s) 3 = Some 2);
     _ \<leftarrow> guard (commit_index s = 2);
     applies_one leader actions }"

definition follower_commit_advancement :: "rng \<Rightarrow> unit option" where
  "follower_commit_advancement rng = do {
     cluster \<leftarrow> new_with_leader rng [1, 2, 3] 1;
     (actions, cluster) \<leftarrow> propose_and_sync rng DUMMY cluster;
     _ \<leftarrow> committed 2 2 cluster;
     _ \<leftarrow> applies_one 2 actions;
     _ \<leftarrow> committed 3 2 cluster;
     applies_one 3 actions }"

definition leader_commit_three_node_cluster :: "rng \<Rightarrow> unit option" where
  "leader_commit_three_node_cluster rng = do {
     cluster \<leftarrow> new_with_leader rng [1, 2, 3] 1;
     (actions, cluster) \<leftarrow> propose_and_sync rng DUMMY (partition_node 3 cluster);
     leader \<leftarrow> tc_leader cluster;
     _ \<leftarrow> applies_one leader actions;
     _ \<leftarrow> committed leader 2 cluster;
     _ \<leftarrow> committed 2 2 cluster;
     committed 3 1 cluster }"

definition leader_commit_five_node_cluster :: "rng \<Rightarrow> unit option" where
  "leader_commit_five_node_cluster rng = do {
     cluster \<leftarrow> new_with_leader rng [1, 2, 3, 4, 5] 1;
     (actions, cluster) \<leftarrow> propose_and_sync rng DUMMY (partition_node 5 (partition_node 4 cluster));
     leader \<leftarrow> tc_leader cluster;
     _ \<leftarrow> applies_one leader actions;
     _ \<leftarrow> committed leader 2 cluster;
     _ \<leftarrow> committed 2 2 cluster;
     _ \<leftarrow> committed 3 2 cluster;
     _ \<leftarrow> committed 4 1 cluster;
     committed 5 1 cluster }"

definition propose_emits_persist_log :: "rng \<Rightarrow> unit option" where
  "propose_emits_persist_log rng = do {
     cluster \<leftarrow> new_with_leader rng [1, 2, 3] 1;
     (r, cluster) \<leftarrow> on_node 1 (propose DUMMY) cluster;
     actions \<leftarrow> r;
     guard (actions \<noteq> [] \<and> hd actions = PersistLogEntries 2 [dummy 1]) }"

definition follower_append_emits_persist_log :: "rng \<Rightarrow> unit option" where
  "follower_append_emits_persist_log rng = do {
     cluster \<leftarrow> new_with_leader rng [1, 2, 3] 1;
     (r, cluster) \<leftarrow> on_node 1 (propose DUMMY) cluster;
     actions \<leftarrow> r;
     (_, node2_msg) \<leftarrow> List.find (\<lambda>(target, _). target = 2) (extract_append_entries actions);
     (_, node3_msg) \<leftarrow> List.find (\<lambda>(target, _). target = 3) (extract_append_entries actions);
     (node2_actions, cluster) \<leftarrow> on_node 2 (handle_append_entries rng node2_msg) cluster;
     (node3_actions, cluster) \<leftarrow> on_node 3 (handle_append_entries rng node3_msg) cluster;
     _ \<leftarrow> guard (node2_actions \<noteq> [] \<and> hd node2_actions = PersistLogEntries 2 [dummy 1]);
     guard (node3_actions \<noteq> [] \<and> hd node3_actions = PersistLogEntries 2 [dummy 1]) }"

section \<open>Followers that lag behind or diverge\<close>

text \<open>The loop over the actions of a follower in the test below: whether the two commands have been seen at
  their indices; \<open>None\<close> is the \<open>unwrap\<close> of the last byte of an empty command.\<close>

fun both_commands :: "Action list \<Rightarrow> bool \<times> bool \<Rightarrow> (bool \<times> bool) option" where
  "both_commands [] seen = Some seen"
| "both_commands (ApplyToStateMachine index command # as) (cmd1, cmd2) =
     (if command = [] then None
      else if last command = 68 then both_commands as (index = 2, cmd2)
      else if last command = 50 then both_commands as (cmd1, index = 3)
      else both_commands as (cmd1, cmd2))"
| "both_commands (_ # as) seen = both_commands as seen"

definition multiple_entries_applied :: "rng \<Rightarrow> unit option" where
  "multiple_entries_applied rng = do {
     cluster \<leftarrow> new_with_leader rng [1, 2, 3] 1;
     (_, cluster) \<leftarrow> propose_and_sync rng DUMMY (partition_node 3 (partition_node 2 cluster));
     (_, cluster) \<leftarrow> tc_propose (DUMMY @ [50]) (heal 3 (heal 2 cluster));
     _ \<leftarrow> guard (count_if (\<lambda>(_, _, msg). is_append (\<lambda>req. length (ae_entries req) = 2) msg)
                 (pending_messages cluster) = 2);
     leader_id \<leftarrow> tc_leader cluster;
     (_, cluster) \<leftarrow> deliver_all rng cluster;
     (_, cluster) \<leftarrow> deliver_all rng cluster;
     _ \<leftarrow> committed leader_id 3 cluster;
     cluster \<leftarrow> broadcast leader_id cluster;
     (follower_actions, cluster) \<leftarrow> deliver_all rng cluster;
     (_, cluster) \<leftarrow> deliver_all rng cluster;
     _ \<leftarrow> committed 2 3 cluster;
     _ \<leftarrow> committed 3 3 cluster;
     guard (list_all (\<lambda>(_, actions). length actions = 2 \<and>
              both_commands actions (False, False) = Some (True, True)) follower_actions) }"

definition follower_conflicting_entry :: "rng \<Rightarrow> unit option" where
  "follower_conflicting_entry rng = do {
     ns \<leftarrow> init_three_node_noop_cluster rng;
     (actions, ns) \<leftarrow> make_leader_with_actions rng 1 [2, 3] ns;
     ns \<leftarrow> append_entries_loop rng 1 [2, 3] actions ns;
     node1 \<leftarrow> map_of ns 1;
     actions \<leftarrow> append_entries node1;
     ns \<leftarrow> append_entries_loop rng 1 [2, 3] actions ns;
     (r, ns) \<leftarrow> on_local 1 (propose DUMMY) ns;
     actions \<leftarrow> r;
     ns \<leftarrow> edit_local 2 (\<lambda>s. s\<lparr>log := log s @ [\<lparr> le_term = 0, le_command = [79, 86, 69, 82, 87, 82, 73, 84, 69, 32, 77, 69] \<rparr>]\<rparr>) ns;
     (responses, ns) \<leftarrow> deliver_append_entries rng [2, 3] (extract_append_entries actions) ns;
     _ \<leftarrow> guard (count_if (\<lambda>(_, r). aer_success r) responses = 2);
     node2 \<leftarrow> map_of ns 2;
     guard (1 < length (log node2) \<and> le_term (log node2 ! 1) = 1) }"

definition catch_up_follower :: "rng \<Rightarrow> unit option" where
  "catch_up_follower rng = do {
     cluster \<leftarrow> new_with_leader rng [1, 2, 3] 1;
     (_, cluster) \<leftarrow> propose_and_sync rng DUMMY (partition_node 3 cluster);
     let second = DUMMY @ [50];
     (_, cluster) \<leftarrow> tc_propose second (heal 3 cluster);
     _ \<leftarrow> guard (count_if (\<lambda>(_, to, msg). is_append (\<lambda>req. to = 3 \<and> length (ae_entries req) = 2) msg)
                 (pending_messages cluster) = 1);
     (_, cluster) \<leftarrow> deliver_all rng cluster;
     (_, cluster) \<leftarrow> deliver_all rng cluster;
     node3 \<leftarrow> tc_node 3 cluster;
     _ \<leftarrow> guard (length (log node3) = 3 \<and> last_log_index node3 = Some 3);
     _ \<leftarrow> guard (le_command (log node3 ! 1) = DUMMY \<and> le_command (log node3 ! 2) = second);
     leader \<leftarrow> tc_leader cluster;
     s \<leftarrow> tc_node leader cluster;
     guard (map_of (next_index s) 3 = Some 4) }"

definition follower_well_behind :: "rng \<Rightarrow> unit option" where
  "follower_well_behind rng = do {
     cluster \<leftarrow> new_with_leader rng [1, 2, 3] 1;
     cluster \<leftarrow> edit_node 1 (\<lambda>s. s\<lparr>log := log s @ [dummy 1, dummy 1, dummy 1]\<rparr>) cluster;
     cluster \<leftarrow> edit_node 3 (\<lambda>s. s\<lparr>log := log s @ [dummy 1, dummy 1, dummy 1]\<rparr>) cluster;
     cluster \<leftarrow> edit_node 1 (\<lambda>s. s\<lparr>next_index := and_modify 2 5 (next_index s)\<rparr>) cluster;
     cluster \<leftarrow> edit_node 2 (\<lambda>s. s\<lparr>current_leader := None\<rparr>) cluster;
     cluster \<leftarrow> edit_node 1 (\<lambda>s. s\<lparr>next_index := and_modify 3 5 (next_index s)\<rparr>) cluster;
     (_, cluster) \<leftarrow> send_heartbeat rng 1 cluster;
     (_, cluster) \<leftarrow> deliver_all rng cluster;
     _ \<leftarrow> guard (count_if (\<lambda>(from, _, msg). is_response
            (\<lambda>resp. from = 2 \<and> \<not> aer_success resp \<and> aer_first_conflicting_index resp = Some 2) msg)
            (pending_messages cluster) = 1);
     (_, cluster) \<leftarrow> deliver_all rng cluster;
     node1 \<leftarrow> tc_node 1 cluster;
     _ \<leftarrow> guard (map_of (next_index node1) 2 = Some 2);
     _ \<leftarrow> guard (count_if (\<lambda>(from, to, msg). is_append
            (\<lambda>req. from = 1 \<and> to = 2 \<and> ae_prev_log_index req = 1 \<and> length (ae_entries req) = 3) msg)
            (pending_messages cluster) = 1);
     (_, cluster) \<leftarrow> deliver_all rng cluster;
     _ \<leftarrow> guard (count_if (\<lambda>(from, _, msg). is_response (\<lambda>resp. from = 2 \<and> aer_success resp) msg)
            (pending_messages cluster) = 1);
     node1 \<leftarrow> tc_node 1 cluster;
     node2 \<leftarrow> tc_node 2 cluster;
     guard (map le_term (log node1) = map le_term (log node2) \<and> current_leader node2 = Some 1) }"

definition follower_ahead :: "rng \<Rightarrow> unit option" where
  "follower_ahead rng = do {
     cluster \<leftarrow> new_with_leader rng [1, 2, 3] 1;
     cluster \<leftarrow> edit_node 1 (\<lambda>s. s\<lparr>log := log s @ [dummy 1]\<rparr>) cluster;
     cluster \<leftarrow> edit_node 3 (\<lambda>s. s\<lparr>log := log s @ [dummy 1]\<rparr>) cluster;
     cluster \<leftarrow> edit_node 2 (\<lambda>s. s\<lparr>log := log s @ [dummy 0, dummy 0, dummy 0]\<rparr>) cluster;
     cluster \<leftarrow> edit_node 1 (\<lambda>s. s\<lparr>next_index := and_modify 2 3 (next_index s)\<rparr>) cluster;
     cluster \<leftarrow> edit_node 1 (\<lambda>s. s\<lparr>next_index := and_modify 3 3 (next_index s)\<rparr>) cluster;
     (_, cluster) \<leftarrow> send_heartbeat rng 1 cluster;
     (_, cluster) \<leftarrow> deliver_all rng cluster;
     _ \<leftarrow> guard (count_if (\<lambda>(from, _, msg). is_response
            (\<lambda>resp. from = 2 \<and> \<not> aer_success resp \<and> aer_first_conflicting_index resp = Some 2) msg)
            (pending_messages cluster) = 1);
     (_, cluster) \<leftarrow> deliver_all rng cluster;
     node1 \<leftarrow> tc_node 1 cluster;
     _ \<leftarrow> guard (map_of (next_index node1) 2 = Some 2);
     _ \<leftarrow> guard (count_if (\<lambda>(from, to, msg). is_append
            (\<lambda>req. from = 1 \<and> to = 2 \<and> ae_prev_log_index req = 1 \<and> length (ae_entries req) = 1) msg)
            (pending_messages cluster) = 1);
     (_, cluster) \<leftarrow> deliver_all rng cluster;
     _ \<leftarrow> guard (count_if (\<lambda>(_, to, msg). is_response (\<lambda>resp. to = 1 \<and> aer_success resp) msg)
            (pending_messages cluster) = 1);
     node1 \<leftarrow> tc_node 1 cluster;
     node2 \<leftarrow> tc_node 2 cluster;
     guard (map le_term (log node1) = map le_term (log node2)) }"

definition mix_and_matched_logs :: "rng \<Rightarrow> unit option" where
  "mix_and_matched_logs rng = do {
     cluster \<leftarrow> new_with_leader rng [1, 2, 3] 1;
     cluster \<leftarrow> edit_node 1 (\<lambda>s. s\<lparr>log := log s @ [dummy 1, dummy 1]\<rparr>) cluster;
     cluster \<leftarrow> edit_node 2 (\<lambda>s. s\<lparr>log := log s @ [dummy 1, dummy 1]\<rparr>) cluster;
     cluster \<leftarrow> edit_node 3 (\<lambda>s. s\<lparr>log := log s @ [dummy 1, dummy 2]\<rparr>) cluster;
     cluster \<leftarrow> edit_node 1 (\<lambda>s. s\<lparr>next_index := and_modify 2 4 (next_index s)\<rparr>) cluster;
     cluster \<leftarrow> edit_node 1 (\<lambda>s. s\<lparr>next_index := and_modify 3 4 (next_index s)\<rparr>) cluster;
     (_, cluster) \<leftarrow> send_heartbeat rng 1 cluster;
     (_, cluster) \<leftarrow> deliver_all rng cluster;
     _ \<leftarrow> guard (count_if (\<lambda>(from, _, msg). from = 3 \<and> is_response (\<lambda>resp. \<not> aer_success resp) msg)
            (pending_messages cluster) = 1);
     (_, cluster) \<leftarrow> deliver_all rng cluster;
     node1 \<leftarrow> tc_node 1 cluster;
     _ \<leftarrow> guard (map_of (next_index node1) 3 = Some 3);
     _ \<leftarrow> guard (pending_messages cluster \<noteq> []);
     (_, cluster) \<leftarrow> deliver_all rng cluster;
     _ \<leftarrow> guard (count_if (\<lambda>(from, _, msg). from = 3 \<and> is_response aer_success msg)
            (pending_messages cluster) = 1);
     node1 \<leftarrow> tc_node 1 cluster;
     node3 \<leftarrow> tc_node 3 cluster;
     guard (map le_term (log node1) = map le_term (log node3)) }"

section \<open>Computing with the model\<close>

lemma find_conflict_numeral [exec]:
  "find_conflict s t (numeral k) =
     (if term_or_0 s (pred_numeral k) \<noteq> t then Some (pred_numeral k + 1)
      else find_conflict s t (pred_numeral k))"
  by (simp add: numeral_eq_Suc)

lemma DUMMY_last [exec]: "DUMMY \<noteq> [] \<and> last DUMMY = 68"
  by (simp add: DUMMY_def)

section \<open>The tests pass\<close>

lemmas replication_helpers [exec] =
  append_entries_loop_def edit_node_def is_append_def is_response_def is_apply_def is_persist_log_def
  applies_one_def committed_def send_heartbeat_def

definition replication_tests :: "(rng \<Rightarrow> unit option) list" where
  "replication_tests =
     [leader_sends_heartbeat_at_interval, follower_resets_election_timeout,
      follower_rejects_heartbeat_with_lower_term, candidate_steps_down_with_equal_term_append_entries,
      candidate_steps_down_with_higher_term_append_entries, heartbeat_no_persist,
      correct_next_match_index, basic_propose_test, followers_append_entries,
      full_append_entries_message, follower_commit_advancement, leader_commit_three_node_cluster,
      leader_commit_five_node_cluster, propose_emits_persist_log, follower_append_emits_persist_log,
      multiple_entries_applied, follower_conflicting_entry, catch_up_follower, follower_well_behind,
      follower_ahead, mix_and_matched_logs]"

lemma leader_sends_heartbeat_at_interval_passes: "leader_sends_heartbeat_at_interval demo_rng = Some ()"
  by (simp add: leader_sends_heartbeat_at_interval_def exec cong: bind_weak let_weak_cong)

lemma follower_resets_election_timeout_passes: "follower_resets_election_timeout demo_rng = Some ()"
  by (simp add: follower_resets_election_timeout_def exec cong: bind_weak let_weak_cong)

lemma follower_rejects_heartbeat_with_lower_term_passes: "follower_rejects_heartbeat_with_lower_term demo_rng = Some ()"
  by (simp add: follower_rejects_heartbeat_with_lower_term_def exec cong: bind_weak let_weak_cong)

lemma candidate_steps_down_with_equal_term_append_entries_passes: "candidate_steps_down_with_equal_term_append_entries demo_rng = Some ()"
  by (simp add: candidate_steps_down_with_equal_term_append_entries_def exec cong: bind_weak let_weak_cong)

lemma candidate_steps_down_with_higher_term_append_entries_passes: "candidate_steps_down_with_higher_term_append_entries demo_rng = Some ()"
  by (simp add: candidate_steps_down_with_higher_term_append_entries_def exec cong: bind_weak let_weak_cong)

lemma heartbeat_no_persist_passes: "heartbeat_no_persist demo_rng = Some ()"
  by (simp add: heartbeat_no_persist_def exec cong: bind_weak let_weak_cong)

lemma correct_next_match_index_passes: "correct_next_match_index demo_rng = Some ()"
  by (simp add: correct_next_match_index_def exec cong: bind_weak let_weak_cong)

lemma basic_propose_test_passes: "basic_propose_test demo_rng = Some ()"
  by (simp add: basic_propose_test_def exec cong: bind_weak let_weak_cong)

lemma followers_append_entries_passes: "followers_append_entries demo_rng = Some ()"
  by (simp add: followers_append_entries_def exec cong: bind_weak let_weak_cong)

lemma full_append_entries_message_passes: "full_append_entries_message demo_rng = Some ()"
  by (simp add: full_append_entries_message_def exec cong: bind_weak let_weak_cong)

lemma follower_commit_advancement_passes: "follower_commit_advancement demo_rng = Some ()"
  by (simp add: follower_commit_advancement_def exec cong: bind_weak let_weak_cong)

lemma leader_commit_three_node_cluster_passes: "leader_commit_three_node_cluster demo_rng = Some ()"
  by (simp add: leader_commit_three_node_cluster_def exec cong: bind_weak let_weak_cong)

lemma leader_commit_five_node_cluster_passes: "leader_commit_five_node_cluster demo_rng = Some ()"
  by (simp add: leader_commit_five_node_cluster_def exec cong: bind_weak let_weak_cong)

lemma propose_emits_persist_log_passes: "propose_emits_persist_log demo_rng = Some ()"
  by (simp add: propose_emits_persist_log_def exec cong: bind_weak let_weak_cong)

lemma follower_append_emits_persist_log_passes: "follower_append_emits_persist_log demo_rng = Some ()"
  by (simp add: follower_append_emits_persist_log_def exec cong: bind_weak let_weak_cong)

lemma multiple_entries_applied_passes: "multiple_entries_applied demo_rng = Some ()"
  by (simp add: multiple_entries_applied_def exec cong: bind_weak let_weak_cong)

lemma follower_conflicting_entry_passes: "follower_conflicting_entry demo_rng = Some ()"
  by (simp add: follower_conflicting_entry_def exec cong: bind_weak let_weak_cong)

lemma catch_up_follower_passes: "catch_up_follower demo_rng = Some ()"
  by (simp add: catch_up_follower_def exec cong: bind_weak let_weak_cong)

lemma follower_well_behind_passes: "follower_well_behind demo_rng = Some ()"
  by (simp add: follower_well_behind_def exec cong: bind_weak let_weak_cong)

lemma follower_ahead_passes: "follower_ahead demo_rng = Some ()"
  by (simp add: follower_ahead_def exec cong: bind_weak let_weak_cong)

lemma mix_and_matched_logs_passes: "mix_and_matched_logs demo_rng = Some ()"
  by (simp add: mix_and_matched_logs_def exec cong: bind_weak let_weak_cong)

lemma replication_tests_pass: "list_all (\<lambda>t. t demo_rng = Some ()) replication_tests"
  by (simp add: replication_tests_def
      leader_sends_heartbeat_at_interval_passes follower_resets_election_timeout_passes
      follower_rejects_heartbeat_with_lower_term_passes
      candidate_steps_down_with_equal_term_append_entries_passes
      candidate_steps_down_with_higher_term_append_entries_passes heartbeat_no_persist_passes
      correct_next_match_index_passes basic_propose_test_passes followers_append_entries_passes
      full_append_entries_message_passes follower_commit_advancement_passes
      leader_commit_three_node_cluster_passes leader_commit_five_node_cluster_passes
      propose_emits_persist_log_passes follower_append_emits_persist_log_passes
      multiple_entries_applied_passes follower_conflicting_entry_passes catch_up_follower_passes
      follower_well_behind_passes follower_ahead_passes mix_and_matched_logs_passes)

end
