(* ===== verification/DriverTypes.thy ===== *)
theory DriverTypes
  imports RaftTypes
begin

text \<open>
  The types between the event loop, its storage and the application
  (\<open>src/crates/raft-event-loop/src/types.rs\<close>).  The trait \<open>Storage\<close> is a record of its methods
  over an abstract storage state \<open>'s\<close>; a method that writes returns the new state.  An I/O result
  is a sum whose left side is the error.  Both panics inside a storage method and the errors that
  the driver turns into panics (\<open>expect\<close>) end the process, so an error carries no state: what is
  on disk after a crash is described separately, by the states an operation passes through.

  A \<open>oneshot::Sender\<close> is an identifier (\<open>reply\<close>) of the request it answers; what is sent on it is
  an event of the driver.
\<close>

section \<open>Results\<close>

datatype io_error =
    NotFound
  | Other string
  | Panicked

definition and_then :: "'e + 'a \<Rightarrow> ('a \<Rightarrow> 'e + 'b) \<Rightarrow> 'e + 'b" where
  "and_then r f = (case r of Inl e \<Rightarrow> Inl e | Inr x \<Rightarrow> f x)"

lemma and_then_simps [simp]:
  "and_then (Inl e) f = Inl e" "and_then (Inr x) f = f x"
  by (simp_all add: and_then_def)

lemma and_then_eq_Inr: "and_then r f = Inr y \<longleftrightarrow> (\<exists>x. r = Inr x \<and> f x = Inr y)"
  by (cases r) simp_all

section \<open>Persisted data\<close>

record PersistedMetadata =
  pm_term :: u64
  pm_voted_for :: "NodeId option"

record PersistedLogAddendum =
  pla_start_index :: u64
  pla_entries :: "LogEntry list"

record Snapshot =
  sn_last_included_index :: u64
  sn_last_included_term :: u64
  sn_data :: bytes

record 's Storage =
  st_store_metadata :: "PersistedMetadata \<Rightarrow> 's \<Rightarrow> io_error + 's"
  st_restore_metadata :: "'s \<Rightarrow> io_error + PersistedMetadata option"
  st_store_log_entries :: "PersistedLogAddendum \<Rightarrow> 's \<Rightarrow> io_error + 's"
  st_restore_log_entries :: "'s \<Rightarrow> io_error + LogEntry list option"
  st_store_snapshot :: "Snapshot \<Rightarrow> 's \<Rightarrow> io_error + 's"
  st_truncate_log :: "'s \<Rightarrow> io_error + 's"
  st_retrieve_snapshot_bytes :: "'s \<Rightarrow> io_error + bytes"
  st_restore_snapshot :: "'s \<Rightarrow> io_error + Snapshot option"

section \<open>Proposals and applied entries\<close>

type_synonym reply = nat

datatype ProposalError =
    FollowerNode "NodeId option"
  | LostLeadership
  | OtherError

record Proposal =
  pr_command :: bytes
  pr_respond :: reply

datatype AppliedEntry =
    Command bytes
  | AppliedSnapshot bytes
  | SnapshotRequest

section \<open>Configuration\<close>

record RaftConfig =
  cfg_id :: NodeId
  cfg_nodes :: "NodeId list"
  cfg_heartbeat_interval :: "u64 option"
  cfg_election_range :: "u64 \<times> u64"
  cfg_snapshot_threshold :: u64

section \<open>Serialization\<close>

text \<open>The \<open>postcard\<close> crate is a parameter: an encoder and a decoder for each persisted type.\<close>

record codec =
  enc_metadata :: "PersistedMetadata \<Rightarrow> bytes option"
  dec_metadata :: "bytes \<Rightarrow> PersistedMetadata option"
  enc_entry :: "LogEntry \<Rightarrow> bytes option"
  dec_entry :: "bytes \<Rightarrow> LogEntry option"
  enc_snapshot :: "Snapshot \<Rightarrow> bytes option"
  dec_snapshot :: "bytes \<Rightarrow> Snapshot option"

text \<open>What the crate documents: values of these types can be encoded and are decoded to themselves, and
  an input that ends too early is an error.\<close>

definition round_trip :: "('a \<Rightarrow> bytes option) \<Rightarrow> (bytes \<Rightarrow> 'a option) \<Rightarrow> bool" where
  "round_trip enc dec \<longleftrightarrow> (\<forall>x. \<exists>b. enc x = Some b \<and> dec b = Some x) \<and> dec [] = None"

definition codec_ok :: "codec \<Rightarrow> bool" where
  "codec_ok pc \<longleftrightarrow>
     round_trip (enc_metadata pc) (dec_metadata pc) \<and>
     round_trip (enc_entry pc) (dec_entry pc) \<and>
     round_trip (enc_snapshot pc) (dec_snapshot pc)"

lemma round_tripD:
  assumes "round_trip enc dec"
  obtains b where "enc x = Some b" and "dec b = Some x" and "b \<noteq> []"
  using assms unfolding round_trip_def by (metis option.distinct(1))

end
