(* ===== verification/Framing.thy ===== *)
theory Framing
  imports DriverTypes RaftContract
begin

text \<open>
  The byte format of the log shared by \<open>src/crates/raft-file-storage/src/lib.rs\<close> and
  \<open>src/crates/raft-test-utils/src/lib.rs\<close>: a sequence of frames, each the index as eight bytes,
  the length as four bytes (both big endian) and the serialized entry.
\<close>

section \<open>Integers as bytes\<close>

primrec to_be_bytes :: "nat \<Rightarrow> nat \<Rightarrow> bytes" where
  "to_be_bytes 0 n = []"
| "to_be_bytes (Suc k) n = to_be_bytes k (n div 256) @ [of_nat n]"

definition from_be_bytes :: "bytes \<Rightarrow> nat" where
  "from_be_bytes bs = foldl (\<lambda>a b. a * 256 + unat b) 0 bs"

lemma length_to_be_bytes [simp]: "length (to_be_bytes k n) = k"
  by (induction k arbitrary: n) simp_all

lemma unat_byte: "unat (of_nat n :: u8) = n mod 256"
  by (simp add: unat_of_nat)

lemma from_to_be_bytes: "from_be_bytes (to_be_bytes k n) = n mod 256 ^ k"
proof (induction k arbitrary: n)
  case (Suc k)
  have "from_be_bytes (to_be_bytes (Suc k) n) = from_be_bytes (to_be_bytes k (n div 256)) * 256 + n mod 256"
    by (simp add: from_be_bytes_def unat_byte)
  also have "\<dots> = n mod (256 * 256 ^ k)"
    by (simp add: Suc.IH mod_mult2_eq)
  finally show ?case by simp
qed (simp add: from_be_bytes_def)

section \<open>Readers\<close>

definition read_exact :: "nat \<Rightarrow> bytes \<Rightarrow> (bytes \<times> bytes) option" where
  "read_exact n bs = (if n \<le> length bs then Some (take n bs, drop n bs) else None)"

definition read_u64 :: "bytes \<Rightarrow> (u64 \<times> bytes) option" where
  "read_u64 bs = map_option (\<lambda>(x, r). (from_be_bytes x, r)) (read_exact 8 bs)"

definition read_u32 :: "bytes \<Rightarrow> (nat \<times> bytes) option" where
  "read_u32 bs = map_option (\<lambda>(x, r). (from_be_bytes x, r)) (read_exact 4 bs)"

lemma read_exact_append [simp]: "length xs = n \<Longrightarrow> read_exact n (xs @ ys) = Some (xs, ys)"
  by (simp add: read_exact_def)

lemma read_exact_shrinks: "read_exact n bs = Some (x, r) \<Longrightarrow> length bs = n + length r"
  by (auto simp: read_exact_def split: if_splits)

lemma read_u64_shrinks: "read_u64 bs = Some (x, r) \<Longrightarrow> length bs = 8 + length r"
  by (auto simp: read_u64_def dest: read_exact_shrinks)

lemma read_u32_shrinks: "read_u32 bs = Some (x, r) \<Longrightarrow> length bs = 4 + length r"
  by (auto simp: read_u32_def dest: read_exact_shrinks)

lemma read_u64_frame: "i < u64_bound \<Longrightarrow> read_u64 (to_be_bytes 8 i @ r) = Some (i, r)"
  by (simp add: read_u64_def from_to_be_bytes)

lemma read_u32_frame: "n < 4294967296 \<Longrightarrow> read_u32 (to_be_bytes 4 n @ r) = Some (n, r)"
  by (simp add: read_u32_def from_to_be_bytes)

section \<open>Frames\<close>

text \<open>The length is \<open>serialized.len() as u32\<close>.\<close>

definition frame :: "u64 \<Rightarrow> bytes \<Rightarrow> bytes" where
  "frame i b = to_be_bytes 8 i @ to_be_bytes 4 (length b mod 4294967296) @ b"

text \<open>The loop that writes the entries; \<open>index += 1\<close> panics at the end of the range.\<close>

primrec write_frames :: "(LogEntry \<Rightarrow> bytes option) \<Rightarrow> u64 \<Rightarrow> LogEntry list \<Rightarrow> io_error + bytes" where
  "write_frames enc index [] = Inr []"
| "write_frames enc index (entry # entries) =
     (case enc entry of
        None \<Rightarrow> Inl (Other ''Unable to serialize log entry'')
      | Some serialized \<Rightarrow>
          (case u64_add index 1 of
             None \<Rightarrow> Inl Panicked
           | Some nxt \<Rightarrow> and_then (write_frames enc nxt entries) (\<lambda>r. Inr (frame index serialized @ r))))"

text \<open>The loop that reads the entries back and stops at the first incomplete frame; \<open>msg\<close> is the
  text of the error for an entry that cannot be decoded.\<close>

function read_frames :: "string \<Rightarrow> (bytes \<Rightarrow> LogEntry option) \<Rightarrow> bytes \<Rightarrow> io_error + LogEntry list" where
  "read_frames msg dec bs =
     (case read_u64 bs of
        None \<Rightarrow> Inr []
      | Some (_, r1) \<Rightarrow>
          (case read_u32 r1 of
             None \<Rightarrow> Inr []
           | Some (len, r2) \<Rightarrow>
               (case read_exact len r2 of
                  None \<Rightarrow> Inr []
                | Some (buf, r3) \<Rightarrow>
                    (case dec buf of
                       None \<Rightarrow> Inl (Other msg)
                     | Some e \<Rightarrow> and_then (read_frames msg dec r3) (\<lambda>es. Inr (e # es))))))"
  by pat_completeness auto
termination
  by (relation "measure (\<lambda>(msg, dec, bs). length bs)")
    (auto dest!: read_u64_shrinks read_u32_shrinks read_exact_shrinks)

declare read_frames.simps [simp del]

section \<open>What a log file means\<close>

text \<open>The bytes of a list of indexed entries, for an encoder that does not fail.\<close>

definition enc_bytes :: "(LogEntry \<Rightarrow> bytes option) \<Rightarrow> LogEntry \<Rightarrow> bytes" where
  "enc_bytes enc e = (case enc e of None \<Rightarrow> [] | Some b \<Rightarrow> b)"

definition frames_bytes :: "(LogEntry \<Rightarrow> bytes option) \<Rightarrow> frames \<Rightarrow> bytes" where
  "frames_bytes enc d = concat (map (\<lambda>(i, e). frame i (enc_bytes enc e)) d)"

text \<open>An entry whose encoding has a length of 32 bits, at an index of 64 bits.\<close>

definition fits :: "(LogEntry \<Rightarrow> bytes option) \<Rightarrow> u64 \<times> LogEntry \<Rightarrow> bool" where
  "fits enc f \<longleftrightarrow>
     fst f < u64_bound \<and> (\<exists>b. enc (snd f) = Some b \<and> length b < 4294967296)"

text \<open>The end of a file that a crash has cut inside a frame.\<close>

definition torn :: "bytes \<Rightarrow> bool" where
  "torn t \<longleftrightarrow> (\<exists>i b rest. frame i b = t @ rest \<and> rest \<noteq> [] \<and> i < u64_bound \<and> length b < 4294967296)"

lemma frames_bytes_simps [simp]:
  "frames_bytes enc [] = []"
  "frames_bytes enc (f # d) = frame (fst f) (enc_bytes enc (snd f)) @ frames_bytes enc d"
  "frames_bytes enc (d @ d') = frames_bytes enc d @ frames_bytes enc d'"
  by (simp_all add: frames_bytes_def split: prod.splits)

lemma length_frame [simp]: "length (frame i b) = 12 + length b"
  by (simp add: frame_def)

lemma torn_Nil [simp]: "torn []"
proof -
  have "frame 0 [] \<noteq> []" by (metis length_frame list.size(3) add_is_0 zero_neq_numeral)
  then have "frame 0 [] = [] @ frame 0 [] \<and> frame 0 [] \<noteq> [] \<and> (0::nat) < u64_bound \<and>
      length ([] :: bytes) < 4294967296" by simp
  then show ?thesis unfolding torn_def by blast
qed

text \<open>Reading the header of a complete frame, and of an incomplete one.\<close>

lemma frame_header:
  assumes "i < u64_bound" and "length b < 4294967296"
  shows "read_u64 (frame i b @ r) = Some (i, to_be_bytes 4 (length b) @ b @ r)"
    and "read_u32 (to_be_bytes 4 (length b) @ b @ r) = Some (length b, b @ r)"
    and "read_exact (length b) (b @ r) = Some (b, r)"
  using assms by (simp_all add: frame_def read_u64_frame read_u32_frame)

lemma torn_header:
  assumes "torn t" and "read_u64 t = Some (i, r1)" and "read_u32 r1 = Some (len, r2)"
  shows "read_exact len r2 = None"
proof -
  from assms(1) obtain j b rest where f: "frame j b = t @ rest" "rest \<noteq> []" "j < u64_bound"
    "length b < 4294967296"
    by (auto simp: torn_def)
  from assms(2,3) have len: "length t = 12 + length r2"
    by (simp add: read_u64_shrinks [OF assms(2)] read_u32_shrinks [OF assms(3)])
  have t: "t = take (length t) (frame j b)" using f(1) by simp
  have r2: "r2 = drop 12 t" and r: "len = from_be_bytes (take 4 (drop 8 t))"
    using assms(2,3) by (auto simp: read_u64_def read_u32_def read_exact_def split: if_splits)
  have "take 4 (drop 8 t) = to_be_bytes 4 (length b)"
    using len f(4) by (subst t) (simp add: frame_def drop_take min_def)
  then have "len = length b" using r f(4) by (simp add: from_to_be_bytes)
  moreover have "length r2 < length b"
  proof -
    have "12 + length b = length t + length rest" using arg_cong [OF f(1), of length] by simp
    with len f(2) show ?thesis by (cases rest) simp_all
  qed
  ultimately show ?thesis by (simp add: read_exact_def)
qed

section \<open>Writing and reading back\<close>

lemma write_frames_ok:
  assumes "list_all (fits enc) (enumerate start es)" and "start + length es < u64_bound"
  shows "write_frames enc start es = Inr (frames_bytes enc (enumerate start es))"
  using assms
proof (induction es arbitrary: start)
  case (Cons e es)
  then obtain b where "enc e = Some b" by (auto simp: fits_def)
  moreover have "write_frames enc (start + 1) es = Inr (frames_bytes enc (enumerate (Suc start) es))"
    using Cons by simp
  ultimately show ?case using Cons.prems(2) by (simp add: enc_bytes_def)
qed simp

lemma read_frames_ok:
  assumes "list_all (fits enc) d" and "\<And>e b. enc e = Some b \<Longrightarrow> dec b = Some e" and "torn t"
  shows "read_frames msg dec (frames_bytes enc d @ t) = Inr (map snd d)"
  using assms(1)
proof (induction d)
  case Nil
  show ?case
    using torn_header [OF assms(3)]
    by (subst read_frames.simps) (auto split: option.splits)
next
  case (Cons f d)
  from Cons.prems obtain b where b: "enc (snd f) = Some b" "length b < 4294967296" "fst f < u64_bound"
    by (auto simp: fits_def)
  have "frames_bytes enc (f # d) @ t = frame (fst f) b @ frames_bytes enc d @ t"
    using b(1) by (simp add: enc_bytes_def)
  with Cons b show ?case
    by (subst read_frames.simps) (simp add: frame_header assms(2) [OF b(1)])
qed

end
