(* ===== verification/StorageContract.thy ===== *)
theory StorageContract
  imports Framing
begin

text \<open>
  What the event loop relies on in a \<open>Storage\<close>
  (the trait of \<open>src/crates/raft-event-loop/src/types.rs\<close>): each method acts on an abstract disk of
  metadata, indexed log frames and a snapshot.  The locale is interpreted on both storages of the
  repository; its lemmas carry a sequence of persistence actions from the abstract disk to the
  storage.
\<close>

record disk =
  d_metadata :: "PersistedMetadata option"
  d_frames :: frames
  d_snapshot :: "Snapshot option"

definition entries_or_empty :: "LogEntry list option \<Rightarrow> LogEntry list" where
  "entries_or_empty r = (case r of None \<Rightarrow> [] | Some es \<Rightarrow> es)"

locale storage_contract =
  fixes st :: "'s Storage"
    and holds :: "'s \<Rightarrow> disk \<Rightarrow> bool"
    and has_log :: "'s \<Rightarrow> bool"
    and entry_fits :: "u64 \<times> LogEntry \<Rightarrow> bool"
  assumes store_metadata: "holds s d \<Longrightarrow>
      \<exists>s'. st_store_metadata st m s = Inr s' \<and> holds s' (d\<lparr>d_metadata := Some m\<rparr>) \<and> has_log s' = has_log s"
    and restore_metadata: "holds s d \<Longrightarrow> st_restore_metadata st s = Inr (d_metadata d)"
    and store_log_entries: "holds s d \<Longrightarrow> list_all entry_fits (enumerate start es) \<Longrightarrow>
      start + length es < u64_bound \<Longrightarrow>
      \<exists>s'. st_store_log_entries st \<lparr> pla_start_index = start, pla_entries = es \<rparr> s = Inr s' \<and>
           holds s' (d\<lparr>d_frames := store_frames start es (d_frames d)\<rparr>) \<and> has_log s'"
    and restore_log_entries: "holds s d \<Longrightarrow>
      \<exists>r. st_restore_log_entries st s = Inr r \<and> entries_or_empty r = map snd (d_frames d)"
    and store_snapshot: "holds s d \<Longrightarrow>
      \<exists>s'. st_store_snapshot st sn s = Inr s' \<and> holds s' (d\<lparr>d_snapshot := Some sn\<rparr>) \<and> has_log s' = has_log s"
    and restore_snapshot: "holds s d \<Longrightarrow> st_restore_snapshot st s = Inr (d_snapshot d)"
    and retrieve_snapshot_bytes: "holds s d \<Longrightarrow> d_snapshot d = Some sn \<Longrightarrow>
      st_retrieve_snapshot_bytes st s = Inr (sn_data sn)"
    and truncate_log: "holds s d \<Longrightarrow> has_log s \<Longrightarrow>
      \<exists>s'. st_truncate_log st s = Inr s' \<and> holds s' (d\<lparr>d_frames := []\<rparr>) \<and> has_log s'"
begin

text \<open>What was stored last is what is restored.\<close>

lemma metadata_round_trip:
  assumes "holds s d"
  shows "\<exists>s'. st_store_metadata st m s = Inr s' \<and> st_restore_metadata st s' = Inr (Some m)"
proof -
  from store_metadata [OF assms, of m] obtain s' where
    "st_store_metadata st m s = Inr s'" "holds s' (d\<lparr>d_metadata := Some m\<rparr>)" by blast
  with restore_metadata [of s' "d\<lparr>d_metadata := Some m\<rparr>"] show ?thesis by auto
qed

lemma snapshot_round_trip:
  assumes "holds s d"
  shows "\<exists>s'. st_store_snapshot st sn s = Inr s' \<and> st_restore_snapshot st s' = Inr (Some sn) \<and>
              st_retrieve_snapshot_bytes st s' = Inr (sn_data sn)"
proof -
  from store_snapshot [OF assms, of sn] obtain s' where
    "st_store_snapshot st sn s = Inr s'" "holds s' (d\<lparr>d_snapshot := Some sn\<rparr>)" by blast
  with restore_snapshot [of s' "d\<lparr>d_snapshot := Some sn\<rparr>"]
    retrieve_snapshot_bytes [of s' "d\<lparr>d_snapshot := Some sn\<rparr>" sn] show ?thesis by auto
qed

text \<open>Storing the tail of a log over the frames of an older log that agrees with it below.\<close>

lemma log_round_trip:
  assumes "holds s d" and "d_frames d = enumerate n xs" and "k \<le> length ys" and "take k xs = take k ys"
    and "list_all entry_fits (enumerate (n + k) (drop k ys))" and "n + length ys < u64_bound"
  shows "\<exists>s' r. st_store_log_entries st \<lparr> pla_start_index = n + k, pla_entries = drop k ys \<rparr> s = Inr s' \<and>
           st_restore_log_entries st s' = Inr r \<and> entries_or_empty r = ys"
proof -
  have "n + k + length (drop k ys) < u64_bound" using assms(3,6) by simp
  from store_log_entries [OF assms(1,5) this] obtain s' where
    s': "st_store_log_entries st \<lparr> pla_start_index = n + k, pla_entries = drop k ys \<rparr> s = Inr s'"
    "holds s' (d\<lparr>d_frames := store_frames (n + k) (drop k ys) (d_frames d)\<rparr>)"
    by blast
  have "store_frames (n + k) (drop k ys) (d_frames d) = enumerate n ys"
    using store_frames_tail [OF assms(4,3)] assms(2) by simp
  with restore_log_entries [OF s'(2)] s'(1) show ?thesis by auto
qed

end

end
