(* ===== verification/EventLoop.thy ===== *)
theory EventLoop
  imports RaftMachine StorageContract "HOL-Library.Multiset"
begin

text \<open>
  The driver of \<open>src/crates/raft-event-loop/src/lib.rs\<close>: start-up from storage, one step per branch
  of the \<open>select!\<close> of \<open>event_loop\<close>, and the interpretation of every action.  The loop is a single
  task that handles one event to its end before the next, so a run of the loop is a sequence of
  these steps.  The channels to the outside are kept as the list of what was put on them:
  \<open>drv_sent\<close> (transport), \<open>drv_replies\<close> (answers to \<open>propose\<close> and \<open>read_request\<close>, \<open>None\<close> for
  \<open>Ok(())\<close>) and \<open>drv_applied\<close> (the application).  The application is a parameter \<open>answer\<close>: the bytes it
  returns for a snapshot request, given everything it has been sent.  A panic is \<open>None\<close>.
\<close>

section \<open>State\<close>

record 's RaftDriver =
  drv_id :: NodeId
  drv_core :: RaftCore
  pending_proposals :: "(u64 \<times> reply) list"
  pending_reads :: "(u64 \<times> reply) list"
  num_entries :: u64
  snapshot_threshold :: u64
  drv_storage :: 's
  drv_sent :: "(NodeId \<times> Message) list"
  drv_replies :: "(reply \<times> ProposalError option) list"
  drv_applied :: "AppliedEntry list"

type_synonym answer = "AppliedEntry list \<Rightarrow> bytes"

definition expect :: "io_error + 'a \<Rightarrow> 'a option" where
  "expect r = (case r of Inl _ \<Rightarrow> None | Inr x \<Rightarrow> Some x)"

lemma expect_simps [simp]: "expect (Inl e) = None" "expect (Inr x) = Some x"
  by (simp_all add: expect_def)

lemma expect_Some [simp]: "expect r = Some x \<longleftrightarrow> r = Inr x"
  by (cases r) simp_all

section \<open>Start\<close>

definition restore_core :: "rng \<Rightarrow> 's Storage \<Rightarrow> RaftConfig \<Rightarrow> 's \<Rightarrow> RaftCore option" where
  "restore_core rng st config s = do {
     snapshot \<leftarrow> expect (st_restore_snapshot st s);
     m \<leftarrow> expect (st_restore_metadata st s);
     entries \<leftarrow> expect (st_restore_log_entries st s);
     (case snapshot of
        Some snapshot \<Rightarrow> do {
          m \<leftarrow> m;
          entries \<leftarrow> entries;
          restore_with_snapshot rng (cfg_id config) (cfg_nodes config)
            (cfg_heartbeat_interval config) (cfg_election_range config)
            (pm_term m) (pm_voted_for m) entries
            (sn_last_included_index snapshot) (sn_last_included_term snapshot) }
      | None \<Rightarrow>
          (case m of
             Some m \<Rightarrow>
               restore rng (cfg_id config) (cfg_nodes config)
                 (cfg_heartbeat_interval config) (cfg_election_range config)
                 (pm_term m) (pm_voted_for m) (entries_or_empty entries)
           | None \<Rightarrow>
               new rng (cfg_id config) (cfg_nodes config)
                 (cfg_heartbeat_interval config) (cfg_election_range config))) }"

definition driver_new :: "rng \<Rightarrow> 's Storage \<Rightarrow> RaftConfig \<Rightarrow> 's \<Rightarrow> 's RaftDriver option" where
  "driver_new rng st config s = do {
     core \<leftarrow> restore_core rng st config s;
     Some \<lparr> drv_id = cfg_id config, drv_core = core, pending_proposals = [], pending_reads = [],
       num_entries = 0, snapshot_threshold = cfg_snapshot_threshold config, drv_storage = s,
       drv_sent = [], drv_replies = [], drv_applied = [] \<rparr> }"

section \<open>Actions\<close>

definition send_to :: "NodeId \<Rightarrow> Message \<Rightarrow> 's RaftDriver \<Rightarrow> 's RaftDriver" where
  "send_to target message d = d\<lparr>drv_sent := drv_sent d @ [(target, message)]\<rparr>"

definition reply_to :: "reply \<Rightarrow> ProposalError option \<Rightarrow> 's RaftDriver \<Rightarrow> 's RaftDriver" where
  "reply_to r e d = d\<lparr>drv_replies := drv_replies d @ [(r, e)]\<rparr>"

definition send_applied :: "AppliedEntry \<Rightarrow> 's RaftDriver \<Rightarrow> 's RaftDriver" where
  "send_applied a d = d\<lparr>drv_applied := drv_applied d @ [a]\<rparr>"

text \<open>\<open>pending_proposals.remove(&index)\<close> and the answer on the channel.\<close>

definition resolve_proposal :: "u64 \<Rightarrow> 's RaftDriver \<Rightarrow> 's RaftDriver" where
  "resolve_proposal index d =
     (case map_of (pending_proposals d) index of
        None \<Rightarrow> d
      | Some r \<Rightarrow> reply_to r None (d\<lparr>pending_proposals := AList.delete index (pending_proposals d)\<rparr>))"

definition resolve_read :: "u64 \<Rightarrow> 's RaftDriver \<Rightarrow> 's RaftDriver" where
  "resolve_read i d =
     (case map_of (pending_reads d) i of
        None \<Rightarrow> d
      | Some r \<Rightarrow> reply_to r None (d\<lparr>pending_reads := AList.delete i (pending_reads d)\<rparr>))"

text \<open>The snapshot that is taken when the threshold is reached.\<close>

definition take_snapshot :: "'s Storage \<Rightarrow> answer \<Rightarrow> 's RaftDriver \<Rightarrow> 's RaftDriver option" where
  "take_snapshot st answer d = do {
     let d1 = send_applied SnapshotRequest d;
     let data = answer (drv_applied d1);
     m \<leftarrow> prepare_snapshot (drv_core d1);
     s1 \<leftarrow> expect (st_store_snapshot st
             \<lparr> sn_last_included_index = sm_last_applied m, sn_last_included_term = sm_last_applied_term m,
               sn_data = data \<rparr> (drv_storage d1));
     core \<leftarrow> complete_snapshot m (drv_core d1);
     s2 \<leftarrow> expect (st_truncate_log st s1);
     Some (d1\<lparr>drv_core := core, drv_storage := s2, num_entries := 0\<rparr>) }"

definition apply_command :: "'s Storage \<Rightarrow> answer \<Rightarrow> bytes \<Rightarrow> 's RaftDriver \<Rightarrow> 's RaftDriver option" where
  "apply_command st answer command d =
     (if command = [] then Some d
      else do {
        let d1 = send_applied (Command command) d;
        n \<leftarrow> u64_add (num_entries d1) 1;
        let d2 = d1\<lparr>num_entries := n\<rparr>;
        (if snapshot_threshold d2 \<le> num_entries d2 then take_snapshot st answer d2 else Some d2) })"

definition handle_action :: "'s Storage \<Rightarrow> answer \<Rightarrow> Action \<Rightarrow> 's RaftDriver \<Rightarrow> 's RaftDriver option" where
  "handle_action st answer action d =
     (case action of
        SendMessage target message \<Rightarrow> Some (send_to target message d)
      | PersistMetadata t v \<Rightarrow> do {
          s \<leftarrow> expect (st_store_metadata st \<lparr> pm_term = t, pm_voted_for = v \<rparr> (drv_storage d));
          Some (d\<lparr>drv_storage := s\<rparr>) }
      | PersistLogEntries start es \<Rightarrow> do {
          s \<leftarrow> expect (st_store_log_entries st \<lparr> pla_start_index = start, pla_entries = es \<rparr> (drv_storage d));
          Some (d\<lparr>drv_storage := s\<rparr>) }
      | InstallSnapshot lii lit data \<Rightarrow> do {
          s1 \<leftarrow> expect (st_store_snapshot st
                  \<lparr> sn_last_included_index = lii, sn_last_included_term = lit, sn_data = data \<rparr> (drv_storage d));
          let d1 = send_applied (AppliedSnapshot data) (d\<lparr>drv_storage := s1\<rparr>);
          s2 \<leftarrow> expect (st_truncate_log st s1);
          Some (d1\<lparr>drv_storage := s2\<rparr>) }
      | SendInstallSnapshot target t lii lit \<Rightarrow> do {
          data \<leftarrow> expect (st_retrieve_snapshot_bytes st (drv_storage d));
          Some (send_to target (InstallSnapshotMsg
            \<lparr> is_term = t, is_leader_id = drv_id d, is_last_included_index = lii,
              is_last_included_term = lit, is_data = data \<rparr>) d) }
      | ApplyToStateMachine index command \<Rightarrow> apply_command st answer command (resolve_proposal index d)
      | ReadBarrierReady i \<Rightarrow> Some (resolve_read i d))"

primrec handle_actions ::
  "'s Storage \<Rightarrow> answer \<Rightarrow> Action list \<Rightarrow> 's RaftDriver \<Rightarrow> 's RaftDriver option" where
  "handle_actions st answer [] d = Some d"
| "handle_actions st answer (a # as) d = do {
     d1 \<leftarrow> handle_action st answer a d; handle_actions st answer as d1 }"

section \<open>The branches of the loop\<close>

definition on_tick :: "rng \<Rightarrow> 's Storage \<Rightarrow> answer \<Rightarrow> 's RaftDriver \<Rightarrow> 's RaftDriver option" where
  "on_tick rng st answer d = do {
     (actions, core) \<leftarrow> tick rng (drv_core d);
     handle_actions st answer actions (d\<lparr>drv_core := core\<rparr>) }"

text \<open>The index of the first \<open>PersistLogEntries\<close>.\<close>

primrec first_persist :: "Action list \<Rightarrow> u64 option" where
  "first_persist [] = None"
| "first_persist (a # as) = (case a of PersistLogEntries start _ \<Rightarrow> Some start | _ \<Rightarrow> first_persist as)"

definition on_proposal :: "'s Storage \<Rightarrow> answer \<Rightarrow> Proposal \<Rightarrow> 's RaftDriver \<Rightarrow> 's RaftDriver option" where
  "on_proposal st answer p d = do {
     (r, core) \<leftarrow> propose (pr_command p) (drv_core d);
     let d1 = d\<lparr>drv_core := core\<rparr>;
     (case r of
        Some actions \<Rightarrow>
          let d2 = (case first_persist actions of
                      None \<Rightarrow> d1
                    | Some start \<Rightarrow>
                        d1\<lparr>pending_proposals := AList.update start (pr_respond p) (pending_proposals d1)\<rparr>)
          in handle_actions st answer actions d2
      | None \<Rightarrow> Some (reply_to (pr_respond p) (Some (FollowerNode (current_leader core))) d1)) }"

definition on_read :: "reply \<Rightarrow> 's RaftDriver \<Rightarrow> 's RaftDriver option" where
  "on_read request d = do {
     (r, core) \<leftarrow> request_read_barrier (drv_core d);
     let d1 = d\<lparr>drv_core := core\<rparr>;
     Some (case r of
        Some read_id \<Rightarrow> d1\<lparr>pending_reads := AList.update read_id request (pending_reads d1)\<rparr>
      | None \<Rightarrow> reply_to request (Some (FollowerNode (current_leader core))) d1) }"

definition handle_message ::
  "rng \<Rightarrow> 's Storage \<Rightarrow> answer \<Rightarrow> Message \<Rightarrow> 's RaftDriver \<Rightarrow> 's RaftDriver option" where
  "handle_message rng st answer msg d = do {
     (actions, core) \<leftarrow> dispatch_message rng msg (drv_core d);
     handle_actions st answer actions (d\<lparr>drv_core := core\<rparr>) }"

definition drain_pending :: "'s RaftDriver \<Rightarrow> 's RaftDriver" where
  "drain_pending d =
     d\<lparr>drv_replies := drv_replies d @
         map (\<lambda>(_, r). (r, Some LostLeadership)) (pending_proposals d) @
         map (\<lambda>(_, r). (r, Some LostLeadership)) (pending_reads d),
       pending_proposals := [], pending_reads := []\<rparr>"

definition on_message ::
  "rng \<Rightarrow> 's Storage \<Rightarrow> answer \<Rightarrow> Message \<Rightarrow> 's RaftDriver \<Rightarrow> 's RaftDriver option" where
  "on_message rng st answer msg d = do {
     let before = is_leader (drv_core d);
     d1 \<leftarrow> handle_message rng st answer msg d;
     let after = is_leader (drv_core d1);
     Some (if before \<and> \<not> after then drain_pending d1 else d1) }"

datatype loop_event =
    IntervalTick
  | ProposalReceived Proposal
  | ReadReceived reply
  | MessageReceived Message

definition event_step ::
  "'s Storage \<Rightarrow> answer \<Rightarrow> rng \<times> loop_event \<Rightarrow> 's RaftDriver \<Rightarrow> 's RaftDriver option" where
  "event_step st answer e d =
     (case snd e of
        IntervalTick \<Rightarrow> on_tick (fst e) st answer d
      | ProposalReceived p \<Rightarrow> on_proposal st answer p d
      | ReadReceived r \<Rightarrow> on_read r d
      | MessageReceived m \<Rightarrow> on_message (fst e) st answer m d)"

primrec event_loop ::
  "'s Storage \<Rightarrow> answer \<Rightarrow> (rng \<times> loop_event) list \<Rightarrow> 's RaftDriver \<Rightarrow> 's RaftDriver option" where
  "event_loop st answer [] d = Some d"
| "event_loop st answer (e # es) d = do {
     d1 \<leftarrow> event_step st answer e d; event_loop st answer es d1 }"

section \<open>What handling an action leaves alone\<close>

text \<open>A snapshot changes the core only by compaction; nothing else does.\<close>

definition core_kept :: "RaftCore \<Rightarrow> RaftCore \<Rightarrow> bool" where
  "core_kept c c' \<longleftrightarrow>
     state c' = state c \<and> metadata c' = metadata c \<and> same_config c c' \<and> lli c' = lli c \<and>
     next_read_barrier_id c' = next_read_barrier_id c \<and> commit_index c' = commit_index c"

lemma core_kept_refl [simp]: "core_kept c c"
  by (simp add: core_kept_def)

lemma core_kept_trans: "core_kept a b \<Longrightarrow> core_kept b c \<Longrightarrow> core_kept a c"
  by (auto simp: core_kept_def intro: same_config_trans)

lemma complete_snapshot_core_kept: "complete_snapshot m c = Some c' \<Longrightarrow> core_kept c c'"
  by (auto dest!: complete_snapshot_Some simp: core_kept_def metadata_def same_config_def lli_def)

text \<open>The requests that still wait for an answer, and those answered.\<close>

definition requests :: "'s RaftDriver \<Rightarrow> reply multiset" where
  "requests d = mset (map fst (drv_replies d)) + mset (map snd (pending_proposals d)) +
     mset (map snd (pending_reads d))"

text \<open>Handling an action answers pending requests but neither drops nor invents one.\<close>

definition driver_kept :: "'s RaftDriver \<Rightarrow> 's RaftDriver \<Rightarrow> bool" where
  "driver_kept d d' \<longleftrightarrow>
     core_kept (drv_core d) (drv_core d') \<and> drv_id d' = drv_id d \<and>
     set (pending_proposals d') \<subseteq> set (pending_proposals d) \<and>
     set (pending_reads d') \<subseteq> set (pending_reads d) \<and>
     (distinct (map fst (pending_proposals d)) \<longrightarrow> distinct (map fst (pending_reads d)) \<longrightarrow>
        requests d' = requests d \<and> distinct (map fst (pending_proposals d')) \<and>
        distinct (map fst (pending_reads d')))"

lemma driver_kept_refl [simp]: "driver_kept d d"
  by (simp add: driver_kept_def)

lemma driver_kept_trans: "driver_kept a b \<Longrightarrow> driver_kept b c \<Longrightarrow> driver_kept a c"
  by (auto simp: driver_kept_def intro: core_kept_trans)

lemma mset_delete:
  assumes "distinct (map fst al)" and "(k, v) \<in> set al"
  shows "add_mset v (image_mset snd (mset (AList.delete k al))) = image_mset snd (mset al)"
  using assms
proof (induction al)
  case (Cons e al)
  show ?case
  proof (cases "fst e = k")
    case True
    with Cons.prems have "k \<notin> fst ` set al" by auto
    then have "AList.delete k al = al" by (simp add: AList.delete_eq filter_id_conv) force
    with True Cons.prems show ?thesis by (cases e) (auto simp: AList.delete_eq image_iff)
  next
    case False
    with Cons have "add_mset v (image_mset snd (mset (AList.delete k al))) = image_mset snd (mset al)" by auto
    with False show ?thesis by (cases e) (simp add: add_mset_commute)
  qed
qed simp

lemma set_delete_subset: "set (AList.delete k al) \<subseteq> set al"
  by (auto simp: AList.delete_eq)

lemma resolve_proposal_kept: "driver_kept d (resolve_proposal i d)"
  using set_delete_subset [of i "pending_proposals d"]
  by (auto simp: driver_kept_def resolve_proposal_def reply_to_def requests_def mset_delete
      distinct_delete split: option.splits)

lemma resolve_read_kept: "driver_kept d (resolve_read i d)"
  using set_delete_subset [of i "pending_reads d"]
  by (auto simp: driver_kept_def resolve_read_def reply_to_def requests_def mset_delete
      distinct_delete split: option.splits)

lemma driver_kept_fields:
  "core_kept (drv_core d) (drv_core d') \<Longrightarrow> drv_id d' = drv_id d \<Longrightarrow>
   pending_proposals d' = pending_proposals d \<Longrightarrow> pending_reads d' = pending_reads d \<Longrightarrow>
   drv_replies d' = drv_replies d \<Longrightarrow> driver_kept d d'"
  by (simp add: driver_kept_def requests_def)

lemma take_snapshot_kept: "take_snapshot st answer d = Some d' \<Longrightarrow> driver_kept d d'"
  by (auto simp: take_snapshot_def opt_bind Let_def send_applied_def
      intro!: driver_kept_fields complete_snapshot_core_kept)

lemma apply_command_kept:
  assumes "apply_command st answer c d = Some d'"
  shows "driver_kept d d'"
proof (cases "c = []")
  case True
  with assms show ?thesis by (simp add: apply_command_def)
next
  case False
  let ?d2 = "\<lambda>n. (send_applied (Command c) d)\<lparr>num_entries := n\<rparr>"
  have k: "driver_kept d (?d2 n)" for n by (rule driver_kept_fields) (simp_all add: send_applied_def)
  from assms False obtain n where "d' = ?d2 n \<or> take_snapshot st answer (?d2 n) = Some d'"
    by (auto simp: apply_command_def opt_bind Let_def split: if_splits)
  with k [of n] take_snapshot_kept show ?thesis by (blast intro: driver_kept_trans)
qed

lemma handle_action_kept:
  assumes "handle_action st answer a d = Some d'"
  shows "driver_kept d d'"
proof (cases a)
  case (ApplyToStateMachine i c)
  with assms have "apply_command st answer c (resolve_proposal i d) = Some d'"
    by (simp add: handle_action_def)
  from driver_kept_trans [OF resolve_proposal_kept apply_command_kept [OF this]] show ?thesis .
next
  case (ReadBarrierReady i)
  with assms resolve_read_kept [of d i] show ?thesis by (simp add: handle_action_def)
qed (use assms in \<open>auto simp: handle_action_def opt_bind Let_def send_to_def send_applied_def
      intro!: driver_kept_fields\<close>)

lemma handle_actions_kept: "handle_actions st answer as d = Some d' \<Longrightarrow> driver_kept d d'"
proof (induction as arbitrary: d)
  case (Cons a as)
  then obtain d1 where "handle_action st answer a d = Some d1" "handle_actions st answer as d1 = Some d'"
    by (auto simp: opt_bind)
  with Cons.IH handle_action_kept show ?case by (blast intro: driver_kept_trans)
qed simp

section \<open>Requests that wait\<close>

definition waiting_ok :: "'s RaftDriver \<Rightarrow> bool" where
  "waiting_ok d \<longleftrightarrow>
     (\<not> is_leader (drv_core d) \<longrightarrow> pending_proposals d = [] \<and> pending_reads d = []) \<and>
     distinct (map fst (pending_proposals d)) \<and> distinct (map fst (pending_reads d)) \<and>
     (\<forall>i\<in>fst ` set (pending_proposals d). i \<le> lli (drv_core d)) \<and>
     (\<forall>i\<in>fst ` set (pending_reads d). i \<le> next_read_barrier_id (drv_core d))"

lemma waiting_kept:
  assumes "driver_kept d d'" and "waiting_ok d"
  shows "waiting_ok d' \<and> requests d' = requests d"
  using assms by (fastforce simp: driver_kept_def waiting_ok_def core_kept_def is_leader_def)

text \<open>Setting a new core state before its actions are handled.\<close>

lemma waiting_core:
  assumes "waiting_ok d" and "is_leader (drv_core d) \<Longrightarrow> is_leader c"
    and "is_leader (drv_core d) \<Longrightarrow> lli (drv_core d) \<le> lli c"
    and "is_leader (drv_core d) \<Longrightarrow> next_read_barrier_id (drv_core d) \<le> next_read_barrier_id c"
  shows "waiting_ok (d\<lparr>drv_core := c\<rparr>) \<and> requests (d\<lparr>drv_core := c\<rparr>) = requests d"
  using assms by (cases "is_leader (drv_core d)") (fastforce simp: waiting_ok_def requests_def)+

lemma update_new_key: "k \<notin> fst ` set al \<Longrightarrow> AList.update k v al = al @ [(k, v)]"
  by (induction al) auto

lemma drain_pending_ok:
  "waiting_ok (drain_pending d) \<and> requests (drain_pending d) = requests d"
  by (simp add: waiting_ok_def drain_pending_def requests_def comp_def case_prod_beta)

lemma reply_to_waiting [simp]:
  "waiting_ok (reply_to r e d) = waiting_ok d" "requests (reply_to r e d) = add_mset r (requests d)"
  by (simp_all add: reply_to_def waiting_ok_def requests_def)

fun request_of :: "loop_event \<Rightarrow> reply multiset" where
  "request_of (ProposalReceived p) = {#pr_respond p#}"
| "request_of (ReadReceived r) = {#r#}"
| "request_of _ = {#}"

lemma tick_leader:
  assumes "tick rng s = Some (as, s')" and "state s = Leader"
  shows "state s' = Leader \<and> lli s' = lli s \<and> next_read_barrier_id s' = next_read_barrier_id s"
  using tick_cases [OF assms(1)] assms(2) by (auto dest!: heartbeat_Some simp: lli_def)

lemma on_tick_waiting:
  assumes "on_tick rng st answer d = Some d'" and "waiting_ok d"
  shows "waiting_ok d' \<and> requests d' = requests d"
proof -
  from assms(1) obtain as c where t: "tick rng (drv_core d) = Some (as, c)"
    and h: "handle_actions st answer as (d\<lparr>drv_core := c\<rparr>) = Some d'"
    unfolding on_tick_def by (rule bind_pair_SomeE)
  have "waiting_ok (d\<lparr>drv_core := c\<rparr>) \<and> requests (d\<lparr>drv_core := c\<rparr>) = requests d"
    using tick_leader [OF t] by (intro waiting_core [OF assms(2)]) (auto simp: is_leader_def)
  with waiting_kept [OF handle_actions_kept [OF h]] show ?thesis by simp
qed

lemma on_proposal_waiting:
  assumes "on_proposal st answer p d = Some d'" and "waiting_ok d"
  shows "waiting_ok d' \<and> requests d' = requests d + {#pr_respond p#}"
proof -
  from assms(1) obtain r c where p: "propose (pr_command p) (drv_core d) = Some (r, c)"
    unfolding on_proposal_def by (rule bind_pair_SomeE)
  note rest = assms(1) [unfolded on_proposal_def p Let_def, simplified]
  show ?thesis
  proof (cases r)
    case None
    with p have "c = drv_core d" by (auto simp: propose_def opt_bind Let_def split: if_splits)
    with rest None have "d' = reply_to (pr_respond p) (Some (FollowerNode (current_leader c))) d" by simp
    with assms(2) show ?thesis by simp
  next
    case (Some as)
    note q = propose_Some [OF p [unfolded Some]]
    from q(3) have f: "first_persist as = Some (lli (drv_core d) + 1)" by auto
    have l: "lli c = lli (drv_core d) + 1" by (simp add: q(2) lli_def)
    let ?d2 = "d\<lparr>drv_core := c,
      pending_proposals := AList.update (lli (drv_core d) + 1) (pr_respond p) (pending_proposals d)\<rparr>"
    have new: "lli (drv_core d) + 1 \<notin> fst ` set (pending_proposals d)"
      using assms(2) by (auto simp: waiting_ok_def)
    have lead: "is_leader c" by (simp add: q(1,2) is_leader_def)
    have nrb: "next_read_barrier_id c = next_read_barrier_id (drv_core d)" by (simp add: q(2))
    have "waiting_ok ?d2 \<and> requests ?d2 = requests d + {#pr_respond p#}"
      using assms(2) new lead l nrb
      by (auto simp: waiting_ok_def requests_def update_new_key le_SucI)
    moreover have "handle_actions st answer as ?d2 = Some d'" using rest Some f by simp
    ultimately show ?thesis using waiting_kept [OF handle_actions_kept] by metis
  qed
qed

lemma on_read_waiting:
  assumes "on_read q d = Some d'" and "waiting_ok d"
  shows "waiting_ok d' \<and> requests d' = requests d + {#q#}"
proof -
  from assms(1) obtain r c where p: "request_read_barrier (drv_core d) = Some (r, c)"
    unfolding on_read_def by (rule bind_pair_SomeE)
  note rest = assms(1) [unfolded on_read_def p Let_def, simplified]
  let ?n = "next_read_barrier_id (drv_core d) + 1"
  from request_read_barrier_Some [OF p] show ?thesis
  proof (elim disjE conjE)
    assume "r = None" "c = drv_core d"
    with rest have "d' = reply_to q (Some (FollowerNode (current_leader c))) d" by simp
    with assms(2) show ?thesis by simp
  next
    assume l: "state (drv_core d) = Leader" and r: "r = Some ?n"
      and c: "c = (drv_core d)\<lparr>next_read_barrier_id := ?n,
           read_barriers := AList.update ?n (append_entries_count (drv_core d)) (read_barriers (drv_core d))\<rparr>"
    have new: "?n \<notin> fst ` set (pending_reads d)" using assms(2) by (auto simp: waiting_ok_def)
    have "is_leader c" "lli c = lli (drv_core d)" "next_read_barrier_id c = ?n"
      using l by (simp_all add: c is_leader_def lli_def)
    moreover have "d' = d\<lparr>drv_core := c, pending_reads := AList.update ?n q (pending_reads d)\<rparr>"
      using rest r by simp
    ultimately show ?thesis
      using assms(2) new by (auto simp: waiting_ok_def requests_def update_new_key le_SucI)
  qed
qed

lemma on_message_waiting:
  assumes "on_message rng st answer m d = Some d'" and "waiting_ok d" and "no_rival m (drv_core d)"
  shows "waiting_ok d' \<and> requests d' = requests d"
proof -
  from assms(1) obtain d1 where h: "handle_message rng st answer m d = Some d1"
    and d': "d' = (if is_leader (drv_core d) \<and> \<not> is_leader (drv_core d1) then drain_pending d1 else d1)"
    by (auto simp: on_message_def opt_bind Let_def)
  from h obtain as c where t: "dispatch_message rng m (drv_core d) = Some (as, c)"
    and a: "handle_actions st answer as (d\<lparr>drv_core := c\<rparr>) = Some d1"
    unfolding handle_message_def by (rule bind_pair_SomeE)
  have k: "driver_kept (d\<lparr>drv_core := c\<rparr>) d1" using handle_actions_kept [OF a] .
  then have lead: "is_leader (drv_core d1) = is_leader c"
    by (auto simp: driver_kept_def core_kept_def is_leader_def)
  show ?thesis
  proof (cases "is_leader (drv_core d) \<and> \<not> is_leader c")
    case True
    have "requests d1 = requests d"
      using k assms(2) by (auto simp: driver_kept_def waiting_ok_def requests_def)
    with True lead d' drain_pending_ok [of d1] show ?thesis by simp
  next
    case False
    have "waiting_ok (d\<lparr>drv_core := c\<rparr>) \<and> requests (d\<lparr>drv_core := c\<rparr>) = requests d"
      using False dispatch_leader_log [OF t] assms(3)
      by (intro waiting_core [OF assms(2)]) (auto simp: is_leader_def)
    with waiting_kept [OF k] have "waiting_ok d1 \<and> requests d1 = requests d" by simp
    with False lead d' show ?thesis by auto
  qed
qed

lemma event_step_waiting:
  assumes "event_step st answer e d = Some d'" and "waiting_ok d"
    and "\<And>m. snd e = MessageReceived m \<Longrightarrow> no_rival m (drv_core d)"
  shows "waiting_ok d' \<and> requests d' = requests d + request_of (snd e)"
  using assms on_tick_waiting on_proposal_waiting on_read_waiting on_message_waiting
  by (cases "snd e") (fastforce simp: event_step_def)+

section \<open>Storage follows the core\<close>

text \<open>The effect of an action on the abstract disk.\<close>

fun disk_after :: "Action \<Rightarrow> disk \<Rightarrow> disk" where
  "disk_after (PersistMetadata t v) D = D\<lparr>d_metadata := Some \<lparr> pm_term = t, pm_voted_for = v \<rparr>\<rparr>"
| "disk_after (PersistLogEntries start es) D = D\<lparr>d_frames := store_frames start es (d_frames D)\<rparr>"
| "disk_after (InstallSnapshot i t data) D =
     D\<lparr>d_snapshot := Some \<lparr> sn_last_included_index = i, sn_last_included_term = t, sn_data = data \<rparr>,
       d_frames := []\<rparr>"
| "disk_after _ D = D"

definition meta_of :: "disk \<Rightarrow> meta" where
  "meta_of D = (case d_metadata D of None \<Rightarrow> (0, None) | Some m \<Rightarrow> (pm_term m, pm_voted_for m))"

definition snap_of :: "disk \<Rightarrow> u64 \<times> u64" where
  "snap_of D = (case d_snapshot D of
     None \<Rightarrow> (0, 0) | Some sn \<Rightarrow> (sn_last_included_index sn, sn_last_included_term sn))"

text \<open>The disk from which the persistent part of a core can be restored.\<close>

definition mirrors :: "disk \<Rightarrow> RaftCore \<Rightarrow> bool" where
  "mirrors D c \<longleftrightarrow> meta_of D = metadata c \<and> d_frames D = log_frames c \<and> snap_of D = base c"

lemma disk_after_parts:
  "meta_of (disk_after a D) = disk_meta (meta_of D) [a]"
  "d_frames (disk_after a D) = disk_step a (d_frames D)"
  "snap_of (disk_after a D) = snap_step a (snap_of D)"
  by (cases a; simp add: meta_of_def snap_of_def)+

lemma disk_meta_Cons: "disk_meta m (a # as) = disk_meta (disk_meta m [a]) as"
  by (cases a) simp_all

lemma fold_disk_after:
  "meta_of (fold disk_after as D) = disk_meta (meta_of D) as"
  "d_frames (fold disk_after as D) = disk_replay as (d_frames D)"
  "snap_of (fold disk_after as D) = snap_replay as (snap_of D)"
proof (induction as arbitrary: D)
  case (Cons a as)
  case 1
  show ?case using Cons(1) [of "disk_after a D"] by (subst disk_meta_Cons) (simp add: disk_after_parts)
  case 2
  show ?case using Cons(2) [of "disk_after a D"] by (simp add: disk_after_parts)
  case 3
  show ?case using Cons(3) [of "disk_after a D"] by (simp add: disk_after_parts)
qed simp_all

lemma mirrors_step:
  assumes "core_step rng i s = Some (as, s')" and "keeps s as s'" and "i \<noteq> TakeSnapshot" and "mirrors D s"
  shows "mirrors (fold disk_after as D) s'"
proof -
  have "durable_sends (metadata s') (metadata s) as"
    using core_step_contract [OF assms(1)] by (simp add: op_contract_def)
  with assms(4) have "disk_meta (meta_of D) as = metadata s'"
    by (simp add: mirrors_def durable_sends_final)
  with assms(2,4) core_step_base [OF assms(1,3)] show ?thesis
    by (simp add: mirrors_def fold_disk_after keeps_def)
qed

text \<open>What the storage must be able to take: entries that fit, a snapshot to send, a log file to
  truncate, and no snapshot of the node's own in between.\<close>

definition storable :: "(u64 \<times> LogEntry \<Rightarrow> bool) \<Rightarrow> Action \<Rightarrow> bool" where
  "storable fit a \<longleftrightarrow>
     (case a of PersistLogEntries start es \<Rightarrow>
        list_all fit (enumerate start es) \<and> start + length es < u64_bound | _ \<Rightarrow> True)"

fun sends_snapshot :: "Action \<Rightarrow> bool" where
  "sends_snapshot (SendInstallSnapshot _ _ _ _) = True"
| "sends_snapshot _ = False"

definition below_threshold :: "Action list \<Rightarrow> 's RaftDriver \<Rightarrow> bool" where
  "below_threshold as d \<longleftrightarrow>
     num_entries d + length (applied as) < snapshot_threshold d \<and> snapshot_threshold d < u64_bound"

lemma apply_command_below:
  assumes "num_entries d + 1 < snapshot_threshold d" and "snapshot_threshold d < u64_bound"
  obtains d' where "apply_command st answer c (resolve_proposal i d) = Some d'"
    "drv_storage d' = drv_storage d" "drv_core d' = drv_core d" "num_entries d' \<le> num_entries d + 1"
    "snapshot_threshold d' = snapshot_threshold d"
proof -
  have r: "drv_storage (resolve_proposal i d) = drv_storage d" "drv_core (resolve_proposal i d) = drv_core d"
    "num_entries (resolve_proposal i d) = num_entries d"
    "snapshot_threshold (resolve_proposal i d) = snapshot_threshold d"
    by (simp_all add: resolve_proposal_def reply_to_def split: option.splits)
  show thesis
  proof (cases "c = []")
    case True
    with r show thesis by (intro that [of "resolve_proposal i d"]) (simp_all add: apply_command_def)
  next
    case False
    let ?d' = "(send_applied (Command c) (resolve_proposal i d))\<lparr>num_entries := num_entries d + 1\<rparr>"
    from False assms r have "apply_command st answer c (resolve_proposal i d) = Some ?d'"
      by (simp add: apply_command_def send_applied_def)
    with r show thesis by (intro that [of ?d']) (simp_all add: send_applied_def)
  qed
qed

context storage_contract
begin

lemma handle_action_disk:
  assumes "holds (drv_storage d) D" and "storable entry_fits a"
    and "installs a \<longrightarrow> has_log (drv_storage d)" and "sends_snapshot a \<longrightarrow> d_snapshot D \<noteq> None"
    and "below_threshold [a] d"
  shows "\<exists>d'. handle_action st answer a d = Some d' \<and> holds (drv_storage d') (disk_after a D) \<and>
     drv_core d' = drv_core d \<and> (has_log (drv_storage d) \<longrightarrow> has_log (drv_storage d')) \<and>
     num_entries d' \<le> num_entries d + length (applied [a]) \<and>
     snapshot_threshold d' = snapshot_threshold d"
proof (cases a)
  case (SendMessage t m)
  with assms show ?thesis by (simp add: handle_action_def send_to_def)
next
  case (ApplyToStateMachine i c)
  with assms(5) have "num_entries d + 1 < snapshot_threshold d" "snapshot_threshold d < u64_bound"
    by (simp_all add: below_threshold_def)
  from apply_command_below [OF this] obtain d' where
    "apply_command st answer c (resolve_proposal i d) = Some d'" "drv_storage d' = drv_storage d"
    "drv_core d' = drv_core d" "num_entries d' \<le> num_entries d + 1"
    "snapshot_threshold d' = snapshot_threshold d" .
  with ApplyToStateMachine assms(1) show ?thesis by (simp add: handle_action_def)
next
  case (PersistMetadata t v)
  with store_metadata [OF assms(1), of "\<lparr> pm_term = t, pm_voted_for = v \<rparr>"] show ?thesis
    by (auto simp: handle_action_def)
next
  case (PersistLogEntries start es)
  with assms(2) store_log_entries [OF assms(1), of start es] show ?thesis
    by (auto simp: handle_action_def storable_def)
next
  case (SendInstallSnapshot t x y z)
  with assms(4) obtain sn where "d_snapshot D = Some sn" by auto
  with retrieve_snapshot_bytes [OF assms(1)] SendInstallSnapshot assms(1) show ?thesis
    by (simp add: handle_action_def send_to_def)
next
  case (InstallSnapshot i t data)
  let ?sn = "\<lparr> sn_last_included_index = i, sn_last_included_term = t, sn_data = data \<rparr>"
  from store_snapshot [OF assms(1), of ?sn] InstallSnapshot assms(3) obtain s1 where
    s1: "st_store_snapshot st ?sn (drv_storage d) = Inr s1" "holds s1 (D\<lparr>d_snapshot := Some ?sn\<rparr>)" "has_log s1"
    by auto
  from truncate_log [OF s1(2,3)] obtain s2 where
    "st_truncate_log st s1 = Inr s2" "holds s2 (D\<lparr>d_snapshot := Some ?sn, d_frames := []\<rparr>)" "has_log s2"
    by auto
  with s1(1) InstallSnapshot show ?thesis by (simp add: handle_action_def send_applied_def)
next
  case (ReadBarrierReady i)
  with assms(1) show ?thesis by (simp add: handle_action_def resolve_read_def reply_to_def split: option.splits)
qed

lemma handle_actions_disk:
  assumes "holds (drv_storage d) D" and "list_all (storable entry_fits) as"
    and "list_ex installs as \<longrightarrow> has_log (drv_storage d)"
    and "list_ex sends_snapshot as \<longrightarrow> d_snapshot D \<noteq> None" and "below_threshold as d"
  shows "\<exists>d'. handle_actions st answer as d = Some d' \<and> holds (drv_storage d') (fold disk_after as D) \<and>
     drv_core d' = drv_core d \<and> (has_log (drv_storage d) \<longrightarrow> has_log (drv_storage d'))"
  using assms
proof (induction as arbitrary: d D)
  case (Cons a as)
  have ap: "length (applied (a # as)) = length (applied [a]) + length (applied as)"
    by (cases a) simp_all
  have b: "below_threshold [a] d" using Cons.prems(5) ap by (simp add: below_threshold_def)
  have p: "storable entry_fits a" "installs a \<longrightarrow> has_log (drv_storage d)"
    "sends_snapshot a \<longrightarrow> d_snapshot D \<noteq> None" using Cons.prems by auto
  from handle_action_disk [OF Cons.prems(1) p b] obtain d1 where
    d1: "handle_action st answer a d = Some d1" "holds (drv_storage d1) (disk_after a D)"
      "drv_core d1 = drv_core d" "has_log (drv_storage d) \<longrightarrow> has_log (drv_storage d1)"
      "num_entries d1 \<le> num_entries d + length (applied [a])" "snapshot_threshold d1 = snapshot_threshold d"
    by blast
  have "below_threshold as d1" using Cons.prems(5) d1(5,6) ap by (simp add: below_threshold_def)
  moreover have "d_snapshot D \<noteq> None \<Longrightarrow> d_snapshot (disk_after a D) \<noteq> None" by (cases a) auto
  then have "list_ex sends_snapshot as \<longrightarrow> d_snapshot (disk_after a D) \<noteq> None" using Cons.prems(4) by auto
  moreover have "list_ex installs as \<longrightarrow> has_log (drv_storage d1)" using Cons.prems(3) d1(4) by auto
  ultimately obtain d' where
    "handle_actions st answer as d1 = Some d'" "holds (drv_storage d') (fold disk_after as (disk_after a D))"
    "drv_core d' = drv_core d1" "has_log (drv_storage d1) \<longrightarrow> has_log (drv_storage d')"
    using Cons.IH [OF d1(2)] Cons.prems(2) by auto
  with d1 show ?case by simp
qed simp

text \<open>A node whose disk mirrors its core comes back with its term, vote, log and snapshot position.\<close>

lemma restore_mirrored:
  assumes "holds s D" and "mirrors D c" and "0 < current_term c"
    and "d_snapshot D \<noteq> None \<longrightarrow> st_restore_log_entries st s \<noteq> Inr None"
    and "rng (cfg_election_range config) = Some tm"
  shows "\<exists>c'. restore_core rng st config s = Some c' \<and> metadata c' = metadata c \<and>
     log c' = log c \<and> base c' = base c \<and> commit_index c' = last_included_index c \<and>
     last_applied c' = last_included_index c \<and> state c' = Follower"
proof -
  from restore_log_entries [OF assms(1)] obtain r where
    r: "st_restore_log_entries st s = Inr r" "entries_or_empty r = map snd (d_frames D)" by blast
  have log: "map snd (d_frames D) = log c" using assms(2) by (simp add: mirrors_def log_frames_def)
  from assms(2,3) obtain m where m: "d_metadata D = Some m" "(pm_term m, pm_voted_for m) = metadata c"
    by (cases "d_metadata D") (auto simp: mirrors_def meta_of_def metadata_def)
  note rs = restore_snapshot [OF assms(1)] restore_metadata [OF assms(1)]
  show ?thesis
  proof (cases "d_snapshot D")
    case None
    with rs r log m assms(2,5) show ?thesis
      by (auto simp: restore_core_def restore_def new_def mirrors_def snap_of_def base_def metadata_def)
  next
    case (Some sn)
    with assms(4) r(1) obtain es where "r = Some es" by (cases r) auto
    with Some rs r log m assms(2,5) show ?thesis
      by (auto simp: restore_core_def restore_with_snapshot_def restore_def new_def mirrors_def snap_of_def
          base_def metadata_def entries_or_empty_def)
  qed
qed

text \<open>A crash between \<open>store_snapshot\<close> and \<open>truncate_log\<close>: the next start takes the old log for the
  entries behind the new snapshot.\<close>

lemma restore_untruncated:
  assumes "holds s D" and "mirrors D c" and "0 < current_term c" and "log c \<noteq> []"
    and "rng (cfg_election_range config) = Some tm" and "st_store_snapshot st sn s = Inr s'"
  shows "\<exists>c'. restore_core rng st config s' = Some c' \<and> log c' = log c \<and>
     base c' = (sn_last_included_index sn, sn_last_included_term sn)"
proof -
  let ?D = "D\<lparr>d_snapshot := Some sn\<rparr>"
  from store_snapshot [OF assms(1), of sn] assms(6) have h: "holds s' ?D" by auto
  from restore_log_entries [OF h] obtain r where
    r: "st_restore_log_entries st s' = Inr r" "entries_or_empty r = log c"
    using assms(2) by (auto simp: mirrors_def log_frames_def)
  with assms(4) have "r = Some (log c)" by (cases r) (simp_all add: entries_or_empty_def)
  moreover obtain m where "d_metadata D = Some m"
    using assms(2,3) by (cases "d_metadata D") (auto simp: mirrors_def meta_of_def metadata_def)
  ultimately show ?thesis
    using r(1) restore_snapshot [OF h] restore_metadata [OF h] assms(5)
    by (simp add: restore_core_def restore_with_snapshot_def restore_def new_def base_def)
qed

end

section \<open>An event from start to end\<close>

fun input_of :: "loop_event \<Rightarrow> input" where
  "input_of IntervalTick = Tick"
| "input_of (ProposalReceived p) = Propose (pr_command p)"
| "input_of (ReadReceived r) = ReadBarrier"
| "input_of (MessageReceived m) = Receive m"

text \<open>The actions that the core emits for an event can be carried out.\<close>

definition feasible ::
  "(u64 \<times> LogEntry \<Rightarrow> bool) \<Rightarrow> bool \<Rightarrow> disk \<Rightarrow> rng \<times> loop_event \<Rightarrow> 's RaftDriver \<Rightarrow> bool" where
  "feasible fit has_file D e d \<longleftrightarrow>
     (\<forall>as c. core_step (fst e) (input_of (snd e)) (drv_core d) = Some (as, c) \<longrightarrow>
        list_all (storable fit) as \<and> (list_ex installs as \<longrightarrow> has_file) \<and>
        (list_ex sends_snapshot as \<longrightarrow> d_snapshot D \<noteq> None) \<and> below_threshold as d)"

lemma below_threshold_cong:
  "num_entries d' = num_entries d \<Longrightarrow> snapshot_threshold d' = snapshot_threshold d \<Longrightarrow>
     below_threshold as d' = below_threshold as d"
  by (simp add: below_threshold_def)

text \<open>Each branch of the loop is the step of the core followed by its actions, up to the bookkeeping of
  requests, which touches neither storage nor core.\<close>

definition bookkeeping :: "'s RaftDriver \<Rightarrow> 's RaftDriver \<Rightarrow> bool" where
  "bookkeeping d d' \<longleftrightarrow>
     drv_storage d' = drv_storage d \<and> drv_core d' = drv_core d \<and> num_entries d' = num_entries d \<and>
     snapshot_threshold d' = snapshot_threshold d"

lemma event_step_actions:
  assumes "core_step (fst e) (input_of (snd e)) (drv_core d) = Some (as, c)"
  shows "\<exists>d1. bookkeeping (d\<lparr>drv_core := c\<rparr>) d1 \<and>
     (\<forall>d2. handle_actions st answer as d1 = Some d2 \<longrightarrow>
        (\<exists>d'. event_step st answer e d = Some d' \<and> drv_storage d' = drv_storage d2 \<and> drv_core d' = drv_core d2))"
proof (cases "snd e")
  case IntervalTick
  with assms show ?thesis
    by (intro exI [of _ "d\<lparr>drv_core := c\<rparr>"]) (auto simp: bookkeeping_def event_step_def on_tick_def)
next
  case (ProposalReceived p)
  with assms obtain r where r: "propose (pr_command p) (drv_core d) = Some (r, c)" "as = opt_list r"
    by (auto simp: opt_bind)
  show ?thesis
  proof (cases r)
    case None
    with r ProposalReceived show ?thesis
      by (intro exI [of _ "d\<lparr>drv_core := c\<rparr>"])
        (auto simp: bookkeeping_def event_step_def on_proposal_def reply_to_def)
  next
    case (Some bs)
    let ?d1 = "case first_persist bs of None \<Rightarrow> d\<lparr>drv_core := c\<rparr>
       | Some start \<Rightarrow> d\<lparr>drv_core := c,
           pending_proposals := AList.update start (pr_respond p) (pending_proposals d)\<rparr>"
    have "bookkeeping (d\<lparr>drv_core := c\<rparr>) ?d1" by (simp add: bookkeeping_def split: option.splits)
    moreover have "event_step st answer e d = handle_actions st answer as ?d1"
      using r Some ProposalReceived
      by (simp add: event_step_def on_proposal_def Let_def split: option.splits)
    ultimately show ?thesis by (intro exI [of _ ?d1]) simp
  qed
next
  case (ReadReceived q)
  with assms obtain r where r: "request_read_barrier (drv_core d) = Some (r, c)" "as = []"
    by (auto simp: opt_bind)
  with ReadReceived show ?thesis
    by (intro exI [of _ "d\<lparr>drv_core := c\<rparr>"])
      (auto simp: bookkeeping_def event_step_def on_read_def reply_to_def Let_def split: option.splits)
next
  case (MessageReceived m)
  with assms have "dispatch_message (fst e) m (drv_core d) = Some (as, c)" by simp
  with MessageReceived show ?thesis
    by (intro exI [of _ "d\<lparr>drv_core := c\<rparr>"])
      (auto simp: bookkeeping_def event_step_def on_message_def handle_message_def drain_pending_def Let_def)
qed

context storage_contract
begin

lemma event_step_durable:
  assumes "holds (drv_storage d) D" and "mirrors D (drv_core d)" and "core_inv (drv_core d)"
    and "rng_ok (fst e)" and "has_room (drv_core d)" and "input_ok (input_of (snd e)) (drv_core d)"
    and "feasible entry_fits (has_log (drv_storage d)) D e d"
  shows "\<exists>d' D'. event_step st answer e d = Some d' \<and> holds (drv_storage d') D' \<and>
     mirrors D' (drv_core d') \<and> core_inv (drv_core d') \<and>
     commit_index (drv_core d) \<le> commit_index (drv_core d')"
proof -
  have ns: "input_of (snd e) \<noteq> TakeSnapshot" by (cases "snd e") simp_all
  from core_step_keeps [OF assms(3-6) ns] obtain as c where
    cs: "core_step (fst e) (input_of (snd e)) (drv_core d) = Some (as, c)" and k: "keeps (drv_core d) as c"
    by blast
  from event_step_actions [OF cs, of st answer] obtain d1 where
    b: "bookkeeping (d\<lparr>drv_core := c\<rparr>) d1" and
    ev: "\<And>d2. handle_actions st answer as d1 = Some d2 \<Longrightarrow>
        \<exists>d'. event_step st answer e d = Some d' \<and> drv_storage d' = drv_storage d2 \<and> drv_core d' = drv_core d2"
    by blast
  have f: "list_all (storable entry_fits) as" "list_ex installs as \<longrightarrow> has_log (drv_storage d)"
    "list_ex sends_snapshot as \<longrightarrow> d_snapshot D \<noteq> None" "below_threshold as d"
    using assms(7) cs unfolding feasible_def by blast+
  have s1: "drv_storage d1 = drv_storage d" "drv_core d1 = c" "below_threshold as d1"
    using b f(4) by (simp_all add: bookkeeping_def below_threshold_def)
  with handle_actions_disk [of d1 D as answer] assms(1) f obtain d2 where
    h: "handle_actions st answer as d1 = Some d2" "holds (drv_storage d2) (fold disk_after as D)" "drv_core d2 = c"
    by auto
  from ev [OF h(1)] obtain d' where
    "event_step st answer e d = Some d'" "drv_storage d' = drv_storage d2" "drv_core d' = c"
    using h(3) by auto
  moreover have "mirrors (fold disk_after as D) c" using mirrors_step [OF cs k ns assms(2)] .
  ultimately show ?thesis using h(2) k unfolding keeps_def by metis
qed

text \<open>The snapshot a driver takes: which index it claims, what the application put into it, and when the
  truncated log still mirrors the core.\<close>

lemma take_snapshot_effect:
  assumes "holds (drv_storage d) D" and "has_log (drv_storage d)" and "mirrors D (drv_core d)"
    and "log_ok (drv_core d)"
  shows "\<exists>d' D' sn. take_snapshot st answer d = Some d' \<and> holds (drv_storage d') D' \<and>
     d_snapshot D' = Some sn \<and> sn_last_included_index sn = last_applied (drv_core d) \<and>
     log_term_at (drv_core d) (last_applied (drv_core d)) = Some (sn_last_included_term sn) \<and>
     sn_data sn = answer (drv_applied d @ [SnapshotRequest]) \<and>
     (mirrors D' (drv_core d') \<longleftrightarrow> lli (drv_core d) = last_applied (drv_core d))"
proof -
  let ?c = "drv_core d"
  from prepare_snapshot_ok [OF assms(4)] obtain m where m: "prepare_snapshot ?c = Some m"
    "sm_last_applied m = last_applied ?c" "log_term_at ?c (last_applied ?c) = Some (sm_last_applied_term m)" .
  let ?sn = "\<lparr> sn_last_included_index = sm_last_applied m, sn_last_included_term = sm_last_applied_term m,
               sn_data = answer (drv_applied d @ [SnapshotRequest]) \<rparr>"
  from store_snapshot [OF assms(1), of ?sn] assms(2) obtain s1 where
    s1: "st_store_snapshot st ?sn (drv_storage d) = Inr s1" "holds s1 (D\<lparr>d_snapshot := Some ?sn\<rparr>)" "has_log s1"
    by auto
  let ?D = "D\<lparr>d_snapshot := Some ?sn, d_frames := []\<rparr>"
  from truncate_log [OF s1(2,3)] obtain s2 where s2: "st_truncate_log st s1 = Inr s2" "holds s2 ?D" by auto
  have "sm_last_applied m \<le> lli ?c" using m(2) assms(4) by (simp add: log_ok_def)
  from complete_snapshot_ok [OF this] obtain c' where c': "complete_snapshot m ?c = Some c'" ..
  let ?d' = "(send_applied SnapshotRequest d)\<lparr>drv_core := c', drv_storage := s2, num_entries := 0\<rparr>"
  have t: "take_snapshot st answer d = Some ?d'"
    using m(1) s1(1) s2(1) c' by (simp add: take_snapshot_def send_applied_def)
  have kept: "same_log_behind ?c c'" using complete_snapshot_keeps [OF c'] m by simp
  have b: "base c' = (last_applied ?c, sm_last_applied_term m)" and md: "metadata c' = metadata ?c"
    using complete_snapshot_Some [OF c'] m assms(4) log_term_at_base [of ?c]
    by (auto simp: base_def log_ok_def metadata_def simp del: log_term_at_base)
  have "log_frames c' = [] \<longleftrightarrow> lli ?c = last_applied ?c"
  proof -
    have "log_frames c' = [] \<longleftrightarrow> log c' = []"
      by (metis length_0_conv length_enumerate log_frames_def)
    also have "\<dots> \<longleftrightarrow> lli c' = last_applied ?c" using b by (simp add: lli_def base_def)
    finally show ?thesis using kept by (simp add: same_log_behind_def)
  qed
  then have "mirrors ?D c' \<longleftrightarrow> lli ?c = last_applied ?c"
    using assms(3) b md m(2) by (auto simp: mirrors_def meta_of_def snap_of_def)
  moreover have "holds (drv_storage ?d') ?D" "drv_core ?d' = c'" using s2(2) by (simp_all add: send_applied_def)
  ultimately show ?thesis using t m(2,3) by (intro exI [of _ ?d'] exI [of _ ?D] exI [of _ ?sn]) simp
qed

end

end
