(* ===== verification/FileStorage.thy ===== *)
theory FileStorage
  imports EventLoop
begin

text \<open>
  \<open>src/crates/raft-file-storage/src/lib.rs\<close>.  A directory is a partial map from file names to
  contents.  The errors modelled are those that depend on the contents (a missing file, a failed
  serialization); failures of the device are not.  \<open>atomic_steps\<close> and \<open>log_steps\<close> list the
  directories a crash can leave behind while a file is written.
\<close>

type_synonym files = "string \<Rightarrow> bytes option"

section \<open>Atomic replacement\<close>

definition tmp_name :: "string \<Rightarrow> string" where
  "tmp_name file_name = ''.'' @ file_name @ ''.tmp''"

definition rename_file :: "string \<Rightarrow> string \<Rightarrow> files \<Rightarrow> files" where
  "rename_file src dst fs = fs(dst := fs src, src := None)"

definition atomic_serialize ::
  "('a \<Rightarrow> bytes option) \<Rightarrow> string \<Rightarrow> 'a \<Rightarrow> files \<Rightarrow> io_error + files" where
  "atomic_serialize enc path data fs =
     (let tmp = tmp_name path;
          fs1 = fs(tmp \<mapsto> [])
      in case enc data of
           None \<Rightarrow> Inl (Other ''Unable to serialize data'')
         | Some serialized \<Rightarrow>
             let fs2 = fs1(tmp \<mapsto> serialized)
             in Inr (rename_file tmp path fs2))"

definition read_type :: "(bytes \<Rightarrow> 'a option) \<Rightarrow> string \<Rightarrow> files \<Rightarrow> io_error + 'a option" where
  "read_type dec path fs =
     (case fs path of
        None \<Rightarrow> Inr None
      | Some data \<Rightarrow>
          (case dec data of
             None \<Rightarrow> Inl (Other ''Error deserializing data'')
           | Some x \<Rightarrow> Inr (Some x)))"

text \<open>The directories between the start and the end of \<open>atomic_serialize\<close>: the temporary file holds any
  part of the data, then it takes the place of the file.\<close>

definition atomic_steps ::
  "('a \<Rightarrow> bytes option) \<Rightarrow> string \<Rightarrow> 'a \<Rightarrow> files \<Rightarrow> files list" where
  "atomic_steps enc path data fs =
     (case enc data of
        None \<Rightarrow> [fs, fs(tmp_name path \<mapsto> [])]
      | Some serialized \<Rightarrow>
          fs # map (\<lambda>k. fs(tmp_name path \<mapsto> take k serialized)) [0..<Suc (length serialized)] @
          [rename_file (tmp_name path) path (fs(tmp_name path \<mapsto> serialized))])"

section \<open>Metadata and snapshots\<close>

definition file_store_metadata :: "codec \<Rightarrow> PersistedMetadata \<Rightarrow> files \<Rightarrow> io_error + files" where
  "file_store_metadata pc m fs = atomic_serialize (enc_metadata pc) ''metadata'' m fs"

definition file_restore_metadata :: "codec \<Rightarrow> files \<Rightarrow> io_error + PersistedMetadata option" where
  "file_restore_metadata pc fs = read_type (dec_metadata pc) ''metadata'' fs"

definition file_store_snapshot :: "codec \<Rightarrow> Snapshot \<Rightarrow> files \<Rightarrow> io_error + files" where
  "file_store_snapshot pc snapshot fs = atomic_serialize (enc_snapshot pc) ''snapshot'' snapshot fs"

definition file_restore_snapshot :: "codec \<Rightarrow> files \<Rightarrow> io_error + Snapshot option" where
  "file_restore_snapshot pc fs = read_type (dec_snapshot pc) ''snapshot'' fs"

definition file_retrieve_snapshot_bytes :: "codec \<Rightarrow> files \<Rightarrow> io_error + bytes" where
  "file_retrieve_snapshot_bytes pc fs =
     and_then (file_restore_snapshot pc fs) (\<lambda>snapshot.
       case snapshot of None \<Rightarrow> Inl NotFound | Some s \<Rightarrow> Inr (sn_data s))"

section \<open>The log\<close>

text \<open>The position of the first frame to overwrite: the frame of the start index, or the first
  incomplete one, or the end.\<close>

function scan_log :: "u64 \<Rightarrow> nat \<Rightarrow> bytes \<Rightarrow> nat" where
  "scan_log start pos bs =
     (case read_u64 bs of
        None \<Rightarrow> pos
      | Some (index, r1) \<Rightarrow>
          if index = start then pos
          else (case read_u32 r1 of
             None \<Rightarrow> pos
           | Some (len, r2) \<Rightarrow>
               (case read_exact len r2 of
                  None \<Rightarrow> pos
                | Some (_, r3) \<Rightarrow> scan_log start (pos + (8 + 4 + len)) r3)))"
  by pat_completeness auto
termination
  by (relation "measure (\<lambda>(start, pos, bs). length bs)")
    (auto dest!: read_u64_shrinks read_u32_shrinks read_exact_shrinks)

declare scan_log.simps [simp del]

definition set_len :: "nat \<Rightarrow> bytes \<Rightarrow> bytes" where
  "set_len n bs = take n bs @ replicate (n - length bs) 0"

text \<open>The file is opened with \<open>create\<close>, so a missing file is an empty one.\<close>

definition open_create :: "string \<Rightarrow> files \<Rightarrow> bytes" where
  "open_create path fs = (case fs path of None \<Rightarrow> [] | Some bs \<Rightarrow> bs)"

definition file_store_log_entries ::
  "codec \<Rightarrow> PersistedLogAddendum \<Rightarrow> files \<Rightarrow> io_error + files" where
  "file_store_log_entries pc addendum fs =
     (let log = open_create ''log'' fs;
          truncate_at = scan_log (pla_start_index addendum) 0 log;
          kept = set_len truncate_at log
      in and_then (write_frames (enc_entry pc) (pla_start_index addendum) (pla_entries addendum))
           (\<lambda>written. Inr (fs(''log'' \<mapsto> kept @ written))))"

text \<open>The contents of the log after a crash in the middle of writing.\<close>

definition log_steps :: "codec \<Rightarrow> PersistedLogAddendum \<Rightarrow> files \<Rightarrow> files list" where
  "log_steps pc addendum fs =
     (let log = open_create ''log'' fs;
          kept = set_len (scan_log (pla_start_index addendum) 0 log) log
      in fs # fs(''log'' \<mapsto> log) #
         (case write_frames (enc_entry pc) (pla_start_index addendum) (pla_entries addendum) of
            Inl _ \<Rightarrow> [fs(''log'' \<mapsto> kept)]
          | Inr written \<Rightarrow>
              map (\<lambda>k. fs(''log'' \<mapsto> kept @ take k written)) [0..<Suc (length written)]))"

definition file_restore_log_entries :: "codec \<Rightarrow> files \<Rightarrow> io_error + LogEntry list option" where
  "file_restore_log_entries pc fs =
     (case fs ''log'' of
        None \<Rightarrow> Inr None
      | Some bs \<Rightarrow> and_then (read_frames ''Deserialization error on LogEntry'' (dec_entry pc) bs)
                     (\<lambda>entries. Inr (Some entries)))"

text \<open>Opened without \<open>create\<close>: a missing log is an error.\<close>

definition file_truncate_log :: "files \<Rightarrow> io_error + files" where
  "file_truncate_log fs =
     (case fs ''log'' of None \<Rightarrow> Inl NotFound | Some _ \<Rightarrow> Inr (fs(''log'' \<mapsto> [])))"

definition file_storage :: "codec \<Rightarrow> files Storage" where
  "file_storage pc =
     \<lparr> st_store_metadata = file_store_metadata pc,
       st_restore_metadata = file_restore_metadata pc,
       st_store_log_entries = file_store_log_entries pc,
       st_restore_log_entries = file_restore_log_entries pc,
       st_store_snapshot = file_store_snapshot pc,
       st_truncate_log = file_truncate_log,
       st_retrieve_snapshot_bytes = file_retrieve_snapshot_bytes pc,
       st_restore_snapshot = file_restore_snapshot pc \<rparr>"

section \<open>What a directory means\<close>

definition file_holds :: "codec \<Rightarrow> files \<Rightarrow> disk \<Rightarrow> bool" where
  "file_holds pc fs d \<longleftrightarrow>
     codec_ok pc \<and>
     fs ''metadata'' = Option.bind (d_metadata d) (enc_metadata pc) \<and>
     fs ''snapshot'' = Option.bind (d_snapshot d) (enc_snapshot pc) \<and>
     list_all (fits (enc_entry pc)) (d_frames d) \<and>
     (case fs ''log'' of
        None \<Rightarrow> d_frames d = []
      | Some bs \<Rightarrow> \<exists>t. torn t \<and> bs = frames_bytes (enc_entry pc) (d_frames d) @ t)"

definition file_has_log :: "files \<Rightarrow> bool" where
  "file_has_log fs \<longleftrightarrow> fs ''log'' \<noteq> None"

lemma tmp_name_other:
  "tmp_name p \<noteq> ''metadata''" "tmp_name p \<noteq> ''snapshot''" "tmp_name p \<noteq> ''log''"
  by (simp_all add: tmp_name_def)

lemma tmp_name_self: "tmp_name p \<noteq> p"
proof
  assume "tmp_name p = p"
  then have "length (tmp_name p) = length p" by simp
  then show False by (simp add: tmp_name_def)
qed

lemma atomic_serialize_ok:
  "enc x = Some b \<Longrightarrow> atomic_serialize enc path x fs = Inr (fs(path \<mapsto> b, tmp_name path := None))"
  using tmp_name_self [of path]
  by (simp add: atomic_serialize_def rename_file_def Let_def fun_eq_iff)

lemma scan_log_ok:
  assumes "list_all (fits enc) d" and "torn t"
  shows "scan_log start pos (frames_bytes enc d @ t) =
           pos + length (frames_bytes enc (takeWhile (\<lambda>f. fst f \<noteq> start) d))"
  using assms(1)
proof (induction d arbitrary: pos)
  case Nil
  show ?case
    using torn_header [OF assms(2)]
    by (subst scan_log.simps) (auto split: option.splits)
next
  case (Cons f d)
  from Cons.prems obtain b where b: "enc (snd f) = Some b" "length b < 4294967296" "fst f < u64_bound"
    by (auto simp: fits_def)
  have f: "frames_bytes enc (f # d) @ t = frame (fst f) b @ frames_bytes enc d @ t"
    using b(1) by (simp add: enc_bytes_def)
  show ?case
  proof (cases "fst f = start")
    case True
    with b f show ?thesis by (subst scan_log.simps) (simp add: frame_header)
  next
    case False
    with b f Cons show ?thesis
      by (subst scan_log.simps) (simp add: frame_header enc_bytes_def)
  qed
qed

lemma set_len_frames:
  "set_len (length (frames_bytes enc (takeWhile P d))) (frames_bytes enc d @ t) =
     frames_bytes enc (takeWhile P d)"
proof -
  have "frames_bytes enc d = frames_bytes enc (takeWhile P d) @ frames_bytes enc (dropWhile P d)"
    by (metis frames_bytes_simps(3) takeWhile_dropWhile_id)
  then show ?thesis by (simp add: set_len_def)
qed

text \<open>The part of the log that is kept, for a log that may end in a torn frame.\<close>

lemma kept_log:
  assumes "file_holds pc fs d"
  defines "bs \<equiv> open_create ''log'' fs"
  shows "set_len (scan_log start 0 bs) bs =
           frames_bytes (enc_entry pc) (takeWhile (\<lambda>f. fst f \<noteq> start) (d_frames d))"
proof -
  obtain t where t: "torn t" "bs = frames_bytes (enc_entry pc) (d_frames d) @ t"
    using assms by (cases "fs ''log''") (auto simp: file_holds_def open_create_def bs_def)
  have "scan_log start 0 bs = length (frames_bytes (enc_entry pc) (takeWhile (\<lambda>f. fst f \<noteq> start) (d_frames d)))"
    using scan_log_ok [of "enc_entry pc" "d_frames d" t start 0] t assms by (simp add: file_holds_def)
  with t(2) show ?thesis by (simp add: set_len_frames)
qed

lemma store_frames_fits:
  "list_all (fits enc) d \<Longrightarrow> list_all (fits enc) (enumerate start es) \<Longrightarrow>
     list_all (fits enc) (store_frames start es d)"
  by (auto simp: store_frames_def list_all_iff dest: set_takeWhileD)

lemma file_store_log_entries_ok:
  assumes "file_holds pc fs d" and "list_all (fits (enc_entry pc)) (enumerate start es)"
    and "start + length es < u64_bound"
  shows "file_store_log_entries pc \<lparr> pla_start_index = start, pla_entries = es \<rparr> fs =
           Inr (fs(''log'' \<mapsto> frames_bytes (enc_entry pc) (store_frames start es (d_frames d))))"
  using kept_log [OF assms(1), of start] write_frames_ok [OF assms(2,3)]
  by (simp add: file_store_log_entries_def Let_def store_frames_def)

lemma codec_entry: "codec_ok pc \<Longrightarrow> enc_entry pc e = Some b \<Longrightarrow> dec_entry pc b = Some e"
  unfolding codec_ok_def round_trip_def by (metis option.inject)

lemma file_restore_log_entries_ok:
  assumes "file_holds pc fs d"
  shows "file_restore_log_entries pc fs =
           Inr (if file_has_log fs then Some (map snd (d_frames d)) else None)"
proof (cases "fs ''log''")
  case None
  then show ?thesis by (simp add: file_restore_log_entries_def file_has_log_def)
next
  case (Some bs)
  with assms obtain t where t: "torn t" "bs = frames_bytes (enc_entry pc) (d_frames d) @ t"
    by (auto simp: file_holds_def)
  have "read_frames msg (dec_entry pc) bs = Inr (map snd (d_frames d))" for msg
    unfolding t(2) using assms t(1) codec_entry by (intro read_frames_ok) (auto simp: file_holds_def)
  with Some show ?thesis by (simp add: file_restore_log_entries_def file_has_log_def)
qed

section \<open>The contract\<close>

lemma codec_metadata:
  assumes "codec_ok pc"
  obtains b where "enc_metadata pc m = Some b" "dec_metadata pc b = Some m" "b \<noteq> []"
  using assms round_tripD [of "enc_metadata pc" "dec_metadata pc" m] by (auto simp: codec_ok_def)

lemma codec_snapshot:
  assumes "codec_ok pc"
  obtains b where "enc_snapshot pc sn = Some b" "dec_snapshot pc b = Some sn" "b \<noteq> []"
  using assms round_tripD [of "enc_snapshot pc" "dec_snapshot pc" sn] by (auto simp: codec_ok_def)

lemma read_type_ok:
  assumes "fs path = Option.bind x enc" and "\<And>y. x = Some y \<Longrightarrow> \<exists>b. enc y = Some b \<and> dec b = Some y"
  shows "read_type dec path fs = Inr x"
proof (cases x)
  case None
  with assms(1) show ?thesis by (simp add: read_type_def)
next
  case (Some y)
  with assms(2) obtain b where "enc y = Some b" "dec b = Some y" by blast
  with assms(1) Some show ?thesis by (simp add: read_type_def)
qed

lemma file_restore_snapshot_ok:
  assumes "file_holds pc fs d"
  shows "file_restore_snapshot pc fs = Inr (d_snapshot d)"
proof -
  have "codec_ok pc" using assms by (simp add: file_holds_def)
  then show ?thesis
    unfolding file_restore_snapshot_def using assms
    by (intro read_type_ok) (auto simp: file_holds_def elim: codec_snapshot)
qed

interpretation disk_file: storage_contract
  "file_storage pc" "file_holds pc" file_has_log "fits (enc_entry pc)" for pc
proof (unfold_locales, goal_cases)
  case (1 fs d m)
  then have "codec_ok pc" by (simp add: file_holds_def)
  then obtain b where "enc_metadata pc m = Some b" by (rule codec_metadata)
  with 1 show ?case
    by (auto simp: file_storage_def file_store_metadata_def atomic_serialize_ok file_holds_def
        file_has_log_def tmp_name_other [symmetric] split: option.splits)
next
  case (2 fs d)
  then have "codec_ok pc" by (simp add: file_holds_def)
  then have "read_type (dec_metadata pc) ''metadata'' fs = Inr (d_metadata d)"
    using 2 by (intro read_type_ok) (auto simp: file_holds_def elim: codec_metadata)
  then show ?case by (simp add: file_storage_def file_restore_metadata_def)
next
  case (3 fs d start es)
  then have "list_all (fits (enc_entry pc)) (store_frames start es (d_frames d))"
    by (intro store_frames_fits) (auto simp: file_holds_def)
  moreover have "\<exists>t. torn t \<and> t = []" by simp
  ultimately show ?case
    using 3 file_store_log_entries_ok [OF 3]
    by (auto simp: file_storage_def file_holds_def file_has_log_def)
next
  case (4 fs d)
  from file_restore_log_entries_ok [OF 4] 4 show ?case
    by (auto simp: file_storage_def entries_or_empty_def file_has_log_def file_holds_def)
next
  case (5 fs d sn)
  then have "codec_ok pc" by (simp add: file_holds_def)
  then obtain b where "enc_snapshot pc sn = Some b" by (rule codec_snapshot)
  with 5 show ?case
    by (auto simp: file_storage_def file_store_snapshot_def atomic_serialize_ok file_holds_def
        file_has_log_def tmp_name_other [symmetric] split: option.splits)
next
  case (6 fs d)
  with file_restore_snapshot_ok show ?case by (simp add: file_storage_def)
next
  case (7 fs d sn)
  with file_restore_snapshot_ok [OF 7(1)] show ?case
    by (simp add: file_storage_def file_retrieve_snapshot_bytes_def)
next
  case (8 fs d)
  then show ?case
    by (auto simp: file_storage_def file_truncate_log_def file_holds_def file_has_log_def)
qed

section \<open>Crashes\<close>

text \<open>Whenever a crash interrupts the replacement of a file, its contents are the old or the new ones.\<close>

lemma atomic_steps_read:
  assumes "fs' \<in> set (atomic_steps enc path x fs)"
  shows "fs' path = fs path \<or> fs' path = enc x"
  using assms tmp_name_self [of path]
  by (cases "enc x") (auto simp: atomic_steps_def rename_file_def)

lemma atomic_steps_last:
  "enc x = Some b \<Longrightarrow> atomic_serialize enc path x fs = Inr (last (atomic_steps enc path x fs))"
  by (simp add: atomic_serialize_def atomic_steps_def Let_def)

text \<open>A prefix of the bytes of some frames is the bytes of a prefix of the frames and a torn frame.\<close>

lemma take_frames_bytes:
  assumes "list_all (fits enc) d"
  shows "\<exists>j t. j \<le> length d \<and> torn t \<and> take k (frames_bytes enc d) = frames_bytes enc (take j d) @ t"
  using assms
proof (induction d arbitrary: k)
  case Nil
  then show ?case by (auto intro: exI [of _ 0])
next
  case (Cons f d)
  let ?b = "enc_bytes enc (snd f)"
  let ?f = "frame (fst f) ?b"
  show ?case
  proof (cases "k < length ?f")
    case True
    then have "?f = take k ?f @ drop k ?f" "drop k ?f \<noteq> []" by auto
    moreover have "fst f < u64_bound" "length ?b < 4294967296"
      using Cons.prems by (auto simp: fits_def enc_bytes_def)
    ultimately have "torn (take k ?f)" unfolding torn_def by blast
    moreover have "take k (frames_bytes enc (f # d)) = frames_bytes enc (take 0 (f # d)) @ take k ?f"
      using True by simp
    ultimately show ?thesis by blast
  next
    case False
    from Cons obtain j t where "j \<le> length d" "torn t"
      "take (k - length ?f) (frames_bytes enc d) = frames_bytes enc (take j d) @ t" by fastforce
    with False have "take k (frames_bytes enc (f # d)) = frames_bytes enc (take (Suc j) (f # d)) @ t"
      by simp
    with \<open>j \<le> length d\<close> \<open>torn t\<close> show ?thesis by (metis Suc_le_mono length_Cons)
  qed
qed

lemma take_enumerate: "take j (enumerate n xs) = enumerate n (take j xs)"
  by (simp add: enumerate_eq_zip take_zip take_upt min_def)

text \<open>After a crash while entries are stored, the log holds the old frames, or those below the start
  index followed by the first few of the new ones.\<close>

lemma log_steps_hold:
  assumes "file_holds pc fs d" and "list_all (fits (enc_entry pc)) (enumerate start es)"
    and "start + length es < u64_bound"
    and "fs' \<in> set (log_steps pc \<lparr> pla_start_index = start, pla_entries = es \<rparr> fs)"
  shows "file_holds pc fs' d \<or>
         (\<exists>j\<le>length es. file_holds pc fs' (d\<lparr>d_frames := store_frames start (take j es) (d_frames d)\<rparr>))"
proof -
  let ?kept = "frames_bytes (enc_entry pc) (takeWhile (\<lambda>f. fst f \<noteq> start) (d_frames d))"
  from assms(4) consider "fs' = fs" | "fs' = fs(''log'' \<mapsto> open_create ''log'' fs)"
    | k where "fs' = fs(''log'' \<mapsto> ?kept @ take k (frames_bytes (enc_entry pc) (enumerate start es)))"
    using kept_log [OF assms(1), of start] write_frames_ok [OF assms(2,3)]
    by (auto simp: log_steps_def Let_def simp del: upt_Suc)
  then show ?thesis
  proof cases
    case 1
    with assms(1) show ?thesis by simp
  next
    case 2
    have "file_holds pc fs' d"
      using assms(1) 2 by (cases "fs ''log''") (auto simp: file_holds_def open_create_def)
    then show ?thesis ..
  next
    case (3 k)
    from take_frames_bytes [OF assms(2), of k] obtain j t where j: "j \<le> length es" "torn t"
      "take k (frames_bytes (enc_entry pc) (enumerate start es)) =
         frames_bytes (enc_entry pc) (enumerate start (take j es)) @ t"
      by (auto simp: take_enumerate)
    have "list_all (fits (enc_entry pc)) (enumerate start (take j es))"
      using assms(2) by (metis take_enumerate append_take_drop_id list_all_append)
    then have "list_all (fits (enc_entry pc)) (store_frames start (take j es) (d_frames d))"
      using assms(1) by (intro store_frames_fits) (auto simp: file_holds_def)
    moreover have "fs' ''log'' = Some (frames_bytes (enc_entry pc) (store_frames start (take j es) (d_frames d)) @ t)"
      using 3 j(3) by (simp add: store_frames_def)
    ultimately have "file_holds pc fs' (d\<lparr>d_frames := store_frames start (take j es) (d_frames d)\<rparr>)"
      using assms(1) 3 j(2) by (auto simp: file_holds_def)
    with j(1) show ?thesis by blast
  qed
qed

end
