(* ===== verification/MemoryStorage.thy ===== *)
theory MemoryStorage
  imports FileStorage
begin

text \<open>
  \<open>InMemoryStorage\<close> of \<open>src/crates/raft-test-utils/src/lib.rs\<close>: three byte buffers, with the log
  in the format of \<open>Framing\<close>.  The buffers are behind mutexes that are never held across an
  \<open>await\<close>, so a method is one step.
\<close>

record InMemoryStorage =
  mem_metadata :: bytes
  mem_log_entries :: bytes
  mem_snapshot :: bytes

definition mem_new :: InMemoryStorage where
  "mem_new = \<lparr> mem_metadata = [], mem_log_entries = [], mem_snapshot = [] \<rparr>"

definition get_snapshot :: "codec \<Rightarrow> InMemoryStorage \<Rightarrow> io_error + Snapshot" where
  "get_snapshot pc s =
     (case dec_snapshot pc (mem_snapshot s) of
        None \<Rightarrow> Inl (Other ''Unable to deserialize'') | Some sn \<Rightarrow> Inr sn)"

definition mem_store_metadata ::
  "codec \<Rightarrow> PersistedMetadata \<Rightarrow> InMemoryStorage \<Rightarrow> io_error + InMemoryStorage" where
  "mem_store_metadata pc m s =
     (case enc_metadata pc m of None \<Rightarrow> Inl Panicked | Some b \<Rightarrow> Inr (s\<lparr>mem_metadata := b\<rparr>))"

definition mem_restore_metadata ::
  "codec \<Rightarrow> InMemoryStorage \<Rightarrow> io_error + PersistedMetadata option" where
  "mem_restore_metadata pc s =
     (case dec_metadata pc (mem_metadata s) of
        Some m \<Rightarrow> Inr (Some m)
      | None \<Rightarrow> if mem_metadata s = [] then Inr None else Inl (Other ''No metadata''))"

section \<open>The log\<close>

primrec serialize_all :: "(LogEntry \<Rightarrow> bytes option) \<Rightarrow> LogEntry list \<Rightarrow> io_error + bytes list" where
  "serialize_all enc [] = Inr []"
| "serialize_all enc (e # es) =
     (case enc e of
        None \<Rightarrow> Inl (Other ''Could not serialize'')
      | Some s \<Rightarrow> and_then (serialize_all enc es) (\<lambda>r. Inr (s # r)))"

text \<open>The search for the frame of the start index; the length of a frame is read with \<open>unwrap\<close>.\<close>

function mem_scan :: "u64 \<Rightarrow> nat \<Rightarrow> bytes \<Rightarrow> io_error + nat option" where
  "mem_scan start pos bs =
     (case read_u64 bs of
        None \<Rightarrow> Inr None
      | Some (i, r1) \<Rightarrow>
          if i = start then Inr (Some pos)
          else (case read_u32 r1 of
             None \<Rightarrow> Inl Panicked
           | Some (len, r2) \<Rightarrow> mem_scan start (pos + (8 + 4 + len)) (drop len r2)))"
  by pat_completeness auto
termination
  by (relation "measure (\<lambda>(start, pos, bs). length bs)")
    (auto dest!: read_u64_shrinks read_u32_shrinks)

declare mem_scan.simps [simp del]

primrec mem_append :: "u64 \<Rightarrow> bytes list \<Rightarrow> io_error + bytes" where
  "mem_append index [] = Inr []"
| "mem_append index (s # ss) =
     (case u64_add index 1 of
        None \<Rightarrow> Inl Panicked
      | Some nxt \<Rightarrow> and_then (mem_append nxt ss) (\<lambda>r. Inr (frame index s @ r)))"

definition mem_store_log_entries ::
  "codec \<Rightarrow> PersistedLogAddendum \<Rightarrow> InMemoryStorage \<Rightarrow> io_error + InMemoryStorage" where
  "mem_store_log_entries pc addendum s =
     and_then (serialize_all (enc_entry pc) (pla_entries addendum)) (\<lambda>serialized.
     and_then (mem_scan (pla_start_index addendum) 0 (mem_log_entries s)) (\<lambda>truncate_at.
       let buf = (case truncate_at of
                    None \<Rightarrow> mem_log_entries s | Some pos \<Rightarrow> take pos (mem_log_entries s))
       in and_then (mem_append (pla_start_index addendum) serialized) (\<lambda>v.
            Inr (s\<lparr>mem_log_entries := buf @ v\<rparr>))))"

definition mem_restore_log_entries ::
  "codec \<Rightarrow> InMemoryStorage \<Rightarrow> io_error + LogEntry list option" where
  "mem_restore_log_entries pc s =
     (if mem_log_entries s = [] then Inr None
      else and_then (read_frames ''Unable to deserialize'' (dec_entry pc) (mem_log_entries s))
             (\<lambda>entries. Inr (Some entries)))"

section \<open>Snapshots\<close>

definition mem_store_snapshot ::
  "codec \<Rightarrow> Snapshot \<Rightarrow> InMemoryStorage \<Rightarrow> io_error + InMemoryStorage" where
  "mem_store_snapshot pc sn s =
     (case enc_snapshot pc sn of
        None \<Rightarrow> Inl (Other ''Could not serialize snapshot'')
      | Some b \<Rightarrow> Inr (s\<lparr>mem_snapshot := b\<rparr>))"

definition mem_truncate_log :: "InMemoryStorage \<Rightarrow> io_error + InMemoryStorage" where
  "mem_truncate_log s = Inr (s\<lparr>mem_log_entries := []\<rparr>)"

definition mem_retrieve_snapshot_bytes :: "codec \<Rightarrow> InMemoryStorage \<Rightarrow> io_error + bytes" where
  "mem_retrieve_snapshot_bytes pc s =
     (case get_snapshot pc s of
        Inl _ \<Rightarrow> Inl (Other ''Unable to deserialize'') | Inr sn \<Rightarrow> Inr (sn_data sn))"

definition mem_restore_snapshot :: "codec \<Rightarrow> InMemoryStorage \<Rightarrow> io_error + Snapshot option" where
  "mem_restore_snapshot pc s =
     (if mem_snapshot s = [] then Inr None
      else (case get_snapshot pc s of
              Inl _ \<Rightarrow> Inl (Other ''Unable to deserialize'') | Inr sn \<Rightarrow> Inr (Some sn)))"

definition memory_storage :: "codec \<Rightarrow> InMemoryStorage Storage" where
  "memory_storage pc =
     \<lparr> st_store_metadata = mem_store_metadata pc,
       st_restore_metadata = mem_restore_metadata pc,
       st_store_log_entries = mem_store_log_entries pc,
       st_restore_log_entries = mem_restore_log_entries pc,
       st_store_snapshot = mem_store_snapshot pc,
       st_truncate_log = mem_truncate_log,
       st_retrieve_snapshot_bytes = mem_retrieve_snapshot_bytes pc,
       st_restore_snapshot = mem_restore_snapshot pc \<rparr>"

section \<open>The contract\<close>

definition mem_holds :: "codec \<Rightarrow> InMemoryStorage \<Rightarrow> disk \<Rightarrow> bool" where
  "mem_holds pc s d \<longleftrightarrow>
     codec_ok pc \<and>
     mem_metadata s = (case d_metadata d of None \<Rightarrow> [] | Some m \<Rightarrow> the (enc_metadata pc m)) \<and>
     mem_snapshot s = (case d_snapshot d of None \<Rightarrow> [] | Some sn \<Rightarrow> the (enc_snapshot pc sn)) \<and>
     list_all (fits (enc_entry pc)) (d_frames d) \<and>
     mem_log_entries s = frames_bytes (enc_entry pc) (d_frames d)"

lemma serialize_all_ok:
  assumes "list_all (fits enc) (enumerate start es)"
  shows "serialize_all enc es = Inr (map (enc_bytes enc) es)"
  using assms by (induction es arbitrary: start) (auto simp: fits_def enc_bytes_def)

lemma mem_append_ok:
  assumes "start + length es < u64_bound"
  shows "mem_append start (map (enc_bytes enc) es) = Inr (frames_bytes enc (enumerate start es))"
  using assms by (induction es arbitrary: start) simp_all

lemma mem_scan_ok:
  assumes "list_all (fits enc) d"
  shows "mem_scan start pos (frames_bytes enc d) =
           Inr (if start \<in> fst ` set d
                then Some (pos + length (frames_bytes enc (takeWhile (\<lambda>f. fst f \<noteq> start) d))) else None)"
  using assms
proof (induction d arbitrary: pos)
  case Nil
  show ?case by (subst mem_scan.simps) (simp add: read_u64_def read_exact_def)
next
  case (Cons f d)
  from Cons.prems obtain b where b: "enc (snd f) = Some b" "length b < 4294967296" "fst f < u64_bound"
    by (auto simp: fits_def)
  have f: "frames_bytes enc (f # d) = frame (fst f) b @ frames_bytes enc d"
    using b(1) by (simp add: enc_bytes_def)
  show ?case
  proof (cases "fst f = start")
    case True
    with b f show ?thesis by (subst mem_scan.simps) (simp add: frame_header)
  next
    case False
    with b f Cons show ?thesis
      by (subst mem_scan.simps) (simp add: frame_header enc_bytes_def image_iff)
  qed
qed

lemma mem_store_log_entries_ok:
  assumes "mem_holds pc s d" and "list_all (fits (enc_entry pc)) (enumerate start es)"
    and "start + length es < u64_bound"
  shows "mem_store_log_entries pc \<lparr> pla_start_index = start, pla_entries = es \<rparr> s =
           Inr (s\<lparr>mem_log_entries := frames_bytes (enc_entry pc) (store_frames start es (d_frames d))\<rparr>)"
proof -
  let ?enc = "enc_entry pc"
  let ?kept = "takeWhile (\<lambda>f. fst f \<noteq> start) (d_frames d)"
  have log: "mem_log_entries s = frames_bytes ?enc (d_frames d)" and ft: "list_all (fits ?enc) (d_frames d)"
    using assms(1) by (simp_all add: mem_holds_def)
  have kept: "(case (if start \<in> fst ` set (d_frames d) then Some (length (frames_bytes ?enc ?kept)) else None) of
        None \<Rightarrow> mem_log_entries s | Some pos \<Rightarrow> take pos (mem_log_entries s)) = frames_bytes ?enc ?kept"
  proof (cases "start \<in> fst ` set (d_frames d)")
    case True
    have "frames_bytes ?enc (d_frames d) = frames_bytes ?enc ?kept @
        frames_bytes ?enc (dropWhile (\<lambda>f. fst f \<noteq> start) (d_frames d))"
      by (metis frames_bytes_simps(3) takeWhile_dropWhile_id)
    with True log show ?thesis by simp
  next
    case False
    then have e: "?kept = d_frames d" by (auto simp: takeWhile_eq_all_conv)
    from False log show ?thesis by (simp add: e)
  qed
  have scan: "mem_scan start 0 (mem_log_entries s) =
      Inr (if start \<in> fst ` set (d_frames d) then Some (length (frames_bytes ?enc ?kept)) else None)"
    unfolding log using mem_scan_ok [OF ft, of start 0] by simp
  show ?thesis
    unfolding mem_store_log_entries_def
    by (simp add: serialize_all_ok [OF assms(2)] mem_append_ok [OF assms(3)] scan Let_def
        store_frames_def kept del: if_split)
qed

lemma mem_get_snapshot:
  assumes "mem_holds pc s d" and "d_snapshot d = Some sn"
  shows "get_snapshot pc s = Inr sn \<and> mem_snapshot s \<noteq> []"
proof -
  have "codec_ok pc" using assms(1) by (simp add: mem_holds_def)
  then obtain b where "enc_snapshot pc sn = Some b" "dec_snapshot pc b = Some sn" "b \<noteq> []"
    by (rule codec_snapshot)
  with assms show ?thesis by (simp add: mem_holds_def get_snapshot_def)
qed

lemma mem_restore_snapshot_ok:
  assumes "mem_holds pc s d"
  shows "mem_restore_snapshot pc s = Inr (d_snapshot d)"
proof (cases "d_snapshot d")
  case None
  with assms show ?thesis by (simp add: mem_restore_snapshot_def mem_holds_def)
next
  case (Some sn)
  with mem_get_snapshot [OF assms] show ?thesis by (simp add: mem_restore_snapshot_def)
qed

lemma mem_restore_log_entries_ok:
  assumes "mem_holds pc s d"
  shows "mem_restore_log_entries pc s =
           Inr (if d_frames d = [] then None else Some (map snd (d_frames d)))"
proof -
  have "read_frames msg (dec_entry pc) (mem_log_entries s) = Inr (map snd (d_frames d))" for msg
    using read_frames_ok [of "enc_entry pc" "d_frames d" "dec_entry pc" "[]" msg] codec_entry assms
    by (simp add: mem_holds_def)
  moreover have "mem_log_entries s = [] \<longleftrightarrow> d_frames d = []"
  proof (cases "d_frames d")
    case (Cons f fs)
    with assms have "length (mem_log_entries s) \<noteq> 0" by (simp add: mem_holds_def)
    with Cons show ?thesis by auto
  qed (use assms in \<open>simp add: mem_holds_def\<close>)
  ultimately show ?thesis by (simp add: mem_restore_log_entries_def)
qed

interpretation memory: storage_contract
  "memory_storage pc" "mem_holds pc" "\<lambda>_. True" "fits (enc_entry pc)" for pc
proof (unfold_locales, goal_cases)
  case (1 s d m)
  then have "codec_ok pc" by (simp add: mem_holds_def)
  then obtain b where "enc_metadata pc m = Some b" by (rule codec_metadata)
  with 1 show ?case by (auto simp: memory_storage_def mem_store_metadata_def mem_holds_def)
next
  case (2 s d)
  then have ok: "codec_ok pc" by (simp add: mem_holds_def)
  show ?case
  proof (cases "d_metadata d")
    case None
    with 2 ok show ?thesis
      by (simp add: memory_storage_def mem_restore_metadata_def mem_holds_def codec_ok_def round_trip_def)
  next
    case (Some m)
    from codec_metadata [OF ok, of m] obtain b where "enc_metadata pc m = Some b" "dec_metadata pc b = Some m" .
    with 2 Some show ?thesis by (simp add: memory_storage_def mem_restore_metadata_def mem_holds_def)
  qed
next
  case (3 s d start es)
  then have "list_all (fits (enc_entry pc)) (store_frames start es (d_frames d))"
    by (intro store_frames_fits) (auto simp: mem_holds_def)
  with 3 mem_store_log_entries_ok [OF 3] show ?case by (auto simp: memory_storage_def mem_holds_def)
next
  case (4 s d)
  from mem_restore_log_entries_ok [OF 4] show ?case by (auto simp: memory_storage_def entries_or_empty_def)
next
  case (5 s d sn)
  then have "codec_ok pc" by (simp add: mem_holds_def)
  then obtain b where "enc_snapshot pc sn = Some b" by (rule codec_snapshot)
  with 5 show ?case by (auto simp: memory_storage_def mem_store_snapshot_def mem_holds_def)
next
  case (6 s d)
  with mem_restore_snapshot_ok show ?case by (simp add: memory_storage_def)
next
  case (7 s d sn)
  with mem_get_snapshot [OF 7] show ?case by (simp add: memory_storage_def mem_retrieve_snapshot_bytes_def)
next
  case (8 s d)
  then show ?case by (auto simp: memory_storage_def mem_truncate_log_def mem_holds_def)
qed

end
