(* ===== verification/StorageTests.thy ===== *)
theory StorageTests
  imports FileStorage MemoryStorage TestCluster
begin

text \<open>
  The tests of the two storages (\<open>src/crates/raft-file-storage/src/lib.rs\<close> and
  \<open>src/crates/raft-test-utils/src/lib.rs\<close>).  A test is a function of the codec in the option monad:
  \<open>unwrap\<close> is \<open>expect\<close> on a result, \<open>assert!\<close> is \<open>guard\<close>, a slice out of range is \<open>None\<close>, and a test that
  passes returns \<open>Some ()\<close>.  A fresh temporary directory is \<open>Map.empty\<close>.  Each test is shown to pass for
  every codec that decodes what it encodes and that encodes the small entries of the tests in less than
  \<open>2 ^ 32\<close> bytes.
\<close>

definition as_bytes :: "string \<Rightarrow> bytes" where
  "as_bytes s = map of_char s"

definition make_log_entry :: "u64 \<Rightarrow> string \<Rightarrow> LogEntry" where
  "make_log_entry t command = \<lparr> le_term = t, le_command = as_bytes command \<rparr>"

definition addendum :: "u64 \<Rightarrow> LogEntry list \<Rightarrow> PersistedLogAddendum" where
  "addendum start es = \<lparr> pla_start_index = start, pla_entries = es \<rparr>"

section \<open>The file storage\<close>

definition file_exists_in_dir :: "files \<Rightarrow> string \<Rightarrow> bool" where
  "file_exists_in_dir fs filename \<longleftrightarrow> fs filename \<noteq> None"

definition file_does_not_exist_in_dir :: "files \<Rightarrow> string \<Rightarrow> bool" where
  "file_does_not_exist_in_dir fs filename \<longleftrightarrow> fs filename = None"

definition test_atomic_serialization :: "codec \<Rightarrow> unit option" where
  "test_atomic_serialization pc = do {
     fs \<leftarrow> expect (file_store_metadata pc \<lparr> pm_term = 1, pm_voted_for = None \<rparr> Map.empty);
     guard (file_exists_in_dir fs ''metadata'');
     guard (file_does_not_exist_in_dir fs ''.metadata.tmp'');
     r \<leftarrow> expect (file_restore_metadata pc fs);
     m \<leftarrow> r;
     guard (1 = pm_term m);
     guard (None = pm_voted_for m) }"

definition test_entries_rt :: "codec \<Rightarrow> unit option" where
  "test_entries_rt pc = do {
     let entries = [make_log_entry 1 ''CMD1'', make_log_entry 1 ''CMD2''];
     fs \<leftarrow> expect (file_store_log_entries pc (addendum 1 entries) Map.empty);
     guard (file_exists_in_dir fs ''log'');
     guard (file_does_not_exist_in_dir fs ''.log.tmp'');
     r \<leftarrow> expect (file_restore_log_entries pc fs);
     l \<leftarrow> r;
     guard (l = entries) }"

definition test_overwrite_entries :: "codec \<Rightarrow> unit option" where
  "test_overwrite_entries pc = do {
     let orig_entries = [make_log_entry 1 ''CMD1'', make_log_entry 1 ''TMPCMD2'', make_log_entry 1 ''TMPCMD3''];
     fs \<leftarrow> expect (file_store_log_entries pc (addendum 1 orig_entries) Map.empty);
     let new_entries = [make_log_entry 1 ''CMD2'', make_log_entry 1 ''CMD3'', make_log_entry 1 ''CMD4''];
     fs \<leftarrow> expect (file_store_log_entries pc (addendum 2 new_entries) fs);
     r \<leftarrow> expect (file_restore_log_entries pc fs);
     log_entries \<leftarrow> r;
     a \<leftarrow> vec_slice log_entries 0 1;
     b \<leftarrow> vec_slice orig_entries 0 1;
     guard (a = b);
     c \<leftarrow> vec_slice log_entries 1 (length log_entries);
     guard (c = new_entries) }"

text \<open>The test appends the index 2 to the file as eight bytes, the beginning of a frame.\<close>

definition partial_frame :: "codec \<Rightarrow> unit option" where
  "partial_frame pc = do {
     let entries = [make_log_entry 1 ''CMD1''];
     fs \<leftarrow> expect (file_store_log_entries pc (addendum 1 entries) Map.empty);
     bs \<leftarrow> fs ''log'';
     let fs = fs(''log'' \<mapsto> bs @ to_be_bytes 8 2);
     let nxt = [make_log_entry 1 ''CMD2''];
     fs \<leftarrow> expect (file_store_log_entries pc (addendum 2 nxt) fs);
     r \<leftarrow> expect (file_restore_log_entries pc fs);
     l \<leftarrow> r;
     a \<leftarrow> vec_slice l 0 1;
     b \<leftarrow> vec_slice entries 0 1;
     guard (a = b);
     c \<leftarrow> vec_slice l 1 (length l);
     guard (c = nxt) }"

definition restore_on_empty_dir :: "codec \<Rightarrow> unit option" where
  "restore_on_empty_dir pc = do {
     m \<leftarrow> expect (file_restore_metadata pc Map.empty);
     guard (m = None);
     l \<leftarrow> expect (file_restore_log_entries pc Map.empty);
     guard (l = None);
     s \<leftarrow> expect (file_restore_snapshot pc Map.empty);
     guard (s = None);
     guard (isl (file_retrieve_snapshot_bytes pc Map.empty)) }"

definition truncate_log_restore :: "codec \<Rightarrow> unit option" where
  "truncate_log_restore pc = do {
     let entries = [make_log_entry 1 ''CMD1''];
     fs \<leftarrow> expect (file_store_log_entries pc (addendum 1 entries) Map.empty);
     fs \<leftarrow> expect (file_truncate_log fs);
     r \<leftarrow> expect (file_restore_log_entries pc fs);
     restored \<leftarrow> r;
     guard (restored = []) }"

definition snapshot_rt :: "codec \<Rightarrow> unit option" where
  "snapshot_rt pc = do {
     let snapshot = \<lparr> sn_last_included_index = 100, sn_last_included_term = 2, sn_data = as_bytes ''SNAPSHOT'' \<rparr>;
     fs \<leftarrow> expect (file_store_snapshot pc snapshot Map.empty);
     r \<leftarrow> expect (file_restore_snapshot pc fs);
     restored \<leftarrow> r;
     guard (sn_last_included_index restored = sn_last_included_index snapshot);
     guard (sn_last_included_term restored = sn_last_included_term snapshot);
     guard (sn_data restored = sn_data snapshot) }"

section \<open>The in-memory storage\<close>

definition test_store_metadata :: "codec \<Rightarrow> unit option" where
  "test_store_metadata pc = do {
     let res = mem_store_metadata pc \<lparr> pm_term = 1, pm_voted_for = Some 1 \<rparr> mem_new;
     guard (\<not> isl res);
     s \<leftarrow> expect res;
     out \<leftarrow> dec_metadata pc (mem_metadata s);
     guard (pm_term out = 1);
     guard (pm_voted_for out = Some 1);
     s \<leftarrow> expect (mem_store_metadata pc \<lparr> pm_term = 2, pm_voted_for = None \<rparr> s);
     out \<leftarrow> dec_metadata pc (mem_metadata s);
     guard (pm_term out = 2);
     guard (pm_voted_for out = None) }"

definition store_and_restore_metadata :: "codec \<Rightarrow> unit option" where
  "store_and_restore_metadata pc = do {
     let m = \<lparr> pm_term = 1, pm_voted_for = Some 2 \<rparr>;
     s \<leftarrow> expect (mem_store_metadata pc m mem_new);
     r \<leftarrow> expect (mem_restore_metadata pc s);
     compare \<leftarrow> r;
     guard (pm_term m = pm_term compare);
     guard (pm_voted_for m = pm_voted_for compare) }"

definition store_and_restore_log :: "codec \<Rightarrow> unit option" where
  "store_and_restore_log pc = do {
     let entries = [make_log_entry 1 ''CMD1'', make_log_entry 1 ''CMD2''];
     s \<leftarrow> expect (mem_store_log_entries pc (addendum 1 entries) mem_new);
     guard (mem_log_entries s \<noteq> []);
     r \<leftarrow> expect (mem_restore_log_entries pc s);
     compare \<leftarrow> r;
     guard (compare = entries) }"

definition test_overwrite_log :: "codec \<Rightarrow> unit option" where
  "test_overwrite_log pc = do {
     let initial_entries = [make_log_entry 1 ''CMD1'', make_log_entry 1 ''CMD2'', make_log_entry 1 ''CMD3''];
     s \<leftarrow> expect (mem_store_log_entries pc (addendum 1 initial_entries) mem_new);
     let overwrite = [make_log_entry 2 ''CMD2_MOD'', make_log_entry 2 ''CMD3_MOD''];
     s \<leftarrow> expect (mem_store_log_entries pc (addendum 2 overwrite) s);
     r \<leftarrow> expect (mem_restore_log_entries pc s);
     out \<leftarrow> r;
     guard (out = [make_log_entry 1 ''CMD1'', make_log_entry 2 ''CMD2_MOD'', make_log_entry 2 ''CMD3_MOD'']) }"

definition snapshot_bytes_of_test :: Snapshot where
  "snapshot_bytes_of_test =
     \<lparr> sn_last_included_index = 100, sn_last_included_term = 2, sn_data = as_bytes ''SNAPSHOT BYTES'' \<rparr>"

definition store_and_restore_snapshot :: "codec \<Rightarrow> unit option" where
  "store_and_restore_snapshot pc = do {
     let snapshot = snapshot_bytes_of_test;
     s \<leftarrow> expect (mem_store_snapshot pc snapshot mem_new);
     guard (mem_snapshot s \<noteq> []);
     r \<leftarrow> expect (mem_restore_snapshot pc s);
     compare \<leftarrow> r;
     guard (sn_last_included_index snapshot = sn_last_included_index compare);
     guard (sn_last_included_term snapshot = sn_last_included_term compare);
     guard (sn_data snapshot = sn_data compare) }"

definition retrieve_snapshot_bytes_test :: "codec \<Rightarrow> unit option" where
  "retrieve_snapshot_bytes_test pc = do {
     s \<leftarrow> expect (mem_store_snapshot pc snapshot_bytes_of_test mem_new);
     b \<leftarrow> expect (mem_retrieve_snapshot_bytes pc s);
     guard (b = as_bytes ''SNAPSHOT BYTES'') }"

definition truncate_log_test :: "codec \<Rightarrow> unit option" where
  "truncate_log_test pc = do {
     let entries = [make_log_entry 1 ''CMD1'', make_log_entry 1 ''CMD2''];
     s \<leftarrow> expect (mem_store_log_entries pc (addendum 1 entries) mem_new);
     guard (mem_log_entries s \<noteq> []);
     s \<leftarrow> expect (mem_truncate_log s);
     guard (mem_log_entries s = []) }"

definition test_on_empty :: "codec \<Rightarrow> unit option" where
  "test_on_empty pc = do {
     m \<leftarrow> expect (mem_restore_metadata pc mem_new);
     guard (m = None);
     l \<leftarrow> expect (mem_restore_log_entries pc mem_new);
     guard (l = None);
     s \<leftarrow> expect (mem_restore_snapshot pc mem_new);
     guard (s = None) }"

section \<open>They pass\<close>

text \<open>The entries of the tests are encoded in less than \<open>2 ^ 32\<close> bytes.\<close>

definition compact :: "codec \<Rightarrow> bool" where
  "compact pc \<longleftrightarrow>
     (\<forall>e b. le_term e \<le> 2 \<longrightarrow> length (le_command e) \<le> 16 \<longrightarrow> enc_entry pc e = Some b \<longrightarrow> length b < 4294967296)"

abbreviation empty_disk :: disk where
  "empty_disk \<equiv> \<lparr> d_metadata = None, d_frames = [], d_snapshot = None \<rparr>"

lemma guard_simps [simp]: "guard True = Some ()"
  by (simp add: guard_def)

lemma as_bytes_sel [simp]:
  "le_term (make_log_entry t c) = t" "length (le_command (make_log_entry t c)) = length c"
  by (simp_all add: make_log_entry_def as_bytes_def)

lemma entry_fits:
  assumes "codec_ok pc" and "compact pc" and "t \<le> 2" and "length c \<le> 16" and "i < u64_bound"
  shows "fits (enc_entry pc) (i, make_log_entry t c)"
proof -
  obtain b where "enc_entry pc (make_log_entry t c) = Some b"
    using assms(1) round_tripD [of "enc_entry pc" "dec_entry pc"] unfolding codec_ok_def by metis
  moreover from this have "length b < 4294967296"
    using assms(2-4) unfolding compact_def by (metis as_bytes_sel)
  ultimately show ?thesis using assms(5) by (simp add: fits_def)
qed

lemma empty_dir: "codec_ok pc \<Longrightarrow> file_holds pc Map.empty empty_disk"
  by (simp add: file_holds_def)

lemma empty_memory: "codec_ok pc \<Longrightarrow> mem_holds pc mem_new empty_disk"
  by (simp add: mem_holds_def mem_new_def)

text \<open>A stored log: what the directory or the buffer holds afterwards.\<close>

lemma store_log_step:
  assumes "file_holds pc fs d" and "list_all (fits (enc_entry pc)) (enumerate start es)"
    and "start + length es < u64_bound"
  obtains fs' where "file_store_log_entries pc (addendum start es) fs = Inr fs'"
    "fs' = fs(''log'' \<mapsto> frames_bytes (enc_entry pc) (store_frames start es (d_frames d)))"
    "file_holds pc fs' (d\<lparr>d_frames := store_frames start es (d_frames d)\<rparr>)"
    "file_restore_log_entries pc fs' = Inr (Some (map snd (store_frames start es (d_frames d))))"
proof -
  from disk_file.store_log_entries [OF assms] obtain fs' where
    s: "file_store_log_entries pc (addendum start es) fs = Inr fs'"
    "file_holds pc fs' (d\<lparr>d_frames := store_frames start es (d_frames d)\<rparr>)" "file_has_log fs'"
    by (auto simp: file_storage_def addendum_def)
  with file_restore_log_entries_ok [OF s(2)] file_store_log_entries_ok [OF assms] that show thesis
    by (simp add: addendum_def)
qed

lemma mem_store_log_step:
  assumes "mem_holds pc s d" and "list_all (fits (enc_entry pc)) (enumerate start es)"
    and "start + length es < u64_bound" and "store_frames start es (d_frames d) \<noteq> []"
  obtains s' where "mem_store_log_entries pc (addendum start es) s = Inr s'"
    "mem_holds pc s' (d\<lparr>d_frames := store_frames start es (d_frames d)\<rparr>)" "mem_log_entries s' \<noteq> []"
    "mem_restore_log_entries pc s' = Inr (Some (map snd (store_frames start es (d_frames d))))"
proof -
  let ?f = "store_frames start es (d_frames d)"
  from memory.store_log_entries [OF assms(1-3)] obtain s' where
    s: "mem_store_log_entries pc (addendum start es) s = Inr s'" "mem_holds pc s' (d\<lparr>d_frames := ?f\<rparr>)"
    by (auto simp: memory_storage_def addendum_def)
  from memory.restore_log_entries [OF s(2)] obtain r where
    r: "mem_restore_log_entries pc s' = Inr r" "entries_or_empty r = map snd ?f"
    by (auto simp: memory_storage_def)
  with assms(4) have "r = Some (map snd ?f)" by (cases r) (simp_all add: entries_or_empty_def)
  moreover from this r(1) have "mem_log_entries s' \<noteq> []" by (auto simp: mem_restore_log_entries_def)
  ultimately show thesis using that s r(1) by simp
qed

text \<open>The beginning of a frame is a torn frame.\<close>

lemma torn_index: "i < u64_bound \<Longrightarrow> torn (to_be_bytes 8 i)"
  unfolding torn_def
  by (rule exI [of _ i], rule exI [of _ "[]"], rule exI [of _ "to_be_bytes 4 0"])
    (simp add: frame_def del: to_be_bytes.simps flip: length_0_conv)

lemma torn_log:
  assumes "file_holds pc fs d" and "fs ''log'' = Some (frames_bytes (enc_entry pc) (d_frames d))" and "i < u64_bound"
  shows "file_holds pc (fs(''log'' \<mapsto> frames_bytes (enc_entry pc) (d_frames d) @ to_be_bytes 8 i)) d"
  using assms torn_index [OF assms(3)] by (auto simp: file_holds_def)

theorem test_atomic_serialization_passes: "codec_ok pc \<Longrightarrow> test_atomic_serialization pc = Some ()"
  by (erule codec_metadata [where m = "\<lparr> pm_term = 1, pm_voted_for = None \<rparr>"])
    (simp add: test_atomic_serialization_def file_store_metadata_def atomic_serialize_ok tmp_name_def
      file_exists_in_dir_def file_does_not_exist_in_dir_def file_restore_metadata_def read_type_def)

theorem restore_on_empty_dir_passes: "restore_on_empty_dir pc = Some ()"
  by (simp add: restore_on_empty_dir_def file_restore_metadata_def file_restore_log_entries_def
      file_restore_snapshot_def file_retrieve_snapshot_bytes_def read_type_def)

theorem snapshot_rt_passes: "codec_ok pc \<Longrightarrow> snapshot_rt pc = Some ()"
  by (erule codec_snapshot [where sn = "\<lparr> sn_last_included_index = 100, sn_last_included_term = 2,
        sn_data = as_bytes ''SNAPSHOT'' \<rparr>"])
    (simp add: snapshot_rt_def file_store_snapshot_def atomic_serialize_ok tmp_name_def Let_def
      file_restore_snapshot_def read_type_def)

theorem test_entries_rt_passes:
  assumes "codec_ok pc" and "compact pc"
  shows "test_entries_rt pc = Some ()"
proof -
  let ?es = "[make_log_entry 1 ''CMD1'', make_log_entry 1 ''CMD2'']"
  have "list_all (fits (enc_entry pc)) (enumerate 1 ?es)" using assms by (simp add: entry_fits)
  from store_log_step [OF empty_dir [OF assms(1)] this] obtain fs where
    fs: "file_store_log_entries pc (addendum 1 ?es) Map.empty = Inr fs"
    "fs = Map.empty(''log'' \<mapsto> frames_bytes (enc_entry pc) (store_frames 1 ?es []))"
    "file_restore_log_entries pc fs = Inr (Some (map snd (store_frames 1 ?es [])))"
    by auto
  have "map snd (store_frames 1 ?es []) = ?es" by (simp add: store_frames_def)
  with fs(1,3) show ?thesis
    by (simp add: test_entries_rt_def file_exists_in_dir_def file_does_not_exist_in_dir_def fs(2) Let_def)
qed

theorem test_overwrite_entries_passes:
  assumes "codec_ok pc" and "compact pc"
  shows "test_overwrite_entries pc = Some ()"
proof -
  let ?old = "[make_log_entry 1 ''CMD1'', make_log_entry 1 ''TMPCMD2'', make_log_entry 1 ''TMPCMD3'']"
  let ?new = "[make_log_entry 1 ''CMD2'', make_log_entry 1 ''CMD3'', make_log_entry 1 ''CMD4'']"
  have "list_all (fits (enc_entry pc)) (enumerate 1 ?old)" using assms by (simp add: entry_fits)
  from store_log_step [OF empty_dir [OF assms(1)] this] obtain fs where
    fs: "file_store_log_entries pc (addendum 1 ?old) Map.empty = Inr fs"
    "file_holds pc fs (empty_disk\<lparr>d_frames := store_frames 1 ?old []\<rparr>)" by auto
  have "list_all (fits (enc_entry pc)) (enumerate 2 ?new)" using assms by (simp add: entry_fits)
  from store_log_step [OF fs(2) this] obtain fs' where
    fs': "file_store_log_entries pc (addendum 2 ?new) fs = Inr fs'"
    "file_restore_log_entries pc fs' = Inr (Some (map snd (store_frames 2 ?new (store_frames 1 ?old []))))"
    by auto
  have "map snd (store_frames 2 ?new (store_frames 1 ?old [])) = hd ?old # ?new"
    by (simp add: store_frames_def numeral_2_eq_2)
  with fs(1) fs' show ?thesis by (simp add: test_overwrite_entries_def vec_slice_def Let_def)
qed

theorem partial_frame_passes:
  assumes "codec_ok pc" and "compact pc"
  shows "partial_frame pc = Some ()"
proof -
  let ?old = "[make_log_entry 1 ''CMD1'']" and ?new = "[make_log_entry 1 ''CMD2'']"
  let ?bs = "frames_bytes (enc_entry pc) (store_frames 1 ?old [])"
  have "list_all (fits (enc_entry pc)) (enumerate 1 ?old)" using assms by (simp add: entry_fits)
  from store_log_step [OF empty_dir [OF assms(1)] this] obtain fs where
    fs: "file_store_log_entries pc (addendum 1 ?old) Map.empty = Inr fs" "fs = Map.empty(''log'' \<mapsto> ?bs)"
    "file_holds pc fs (empty_disk\<lparr>d_frames := store_frames 1 ?old []\<rparr>)" by auto
  let ?torn = "fs(''log'' \<mapsto> ?bs @ to_be_bytes 8 2)"
  have t: "file_holds pc ?torn (empty_disk\<lparr>d_frames := store_frames 1 ?old []\<rparr>)"
    using torn_log [OF fs(3), of 2] by (simp add: fs(2))
  have "list_all (fits (enc_entry pc)) (enumerate 2 ?new)" using assms by (simp add: entry_fits)
  from store_log_step [OF t this] obtain fs' where
    fs': "file_store_log_entries pc (addendum 2 ?new) ?torn = Inr fs'"
    "file_restore_log_entries pc fs' = Inr (Some (map snd (store_frames 2 ?new (store_frames 1 ?old []))))"
    by auto
  have "map snd (store_frames 2 ?new (store_frames 1 ?old [])) = ?old @ ?new"
    by (simp add: store_frames_def numeral_2_eq_2)
  moreover have "fs ''log'' = Some ?bs" by (simp add: fs(2))
  ultimately show ?thesis using fs(1) fs' by (simp add: partial_frame_def vec_slice_def Let_def)
qed

theorem truncate_log_restore_passes:
  assumes "codec_ok pc" and "compact pc"
  shows "truncate_log_restore pc = Some ()"
proof -
  let ?es = "[make_log_entry 1 ''CMD1'']"
  have "list_all (fits (enc_entry pc)) (enumerate 1 ?es)" using assms by (simp add: entry_fits)
  from store_log_step [OF empty_dir [OF assms(1)] this] obtain fs b where
    "file_store_log_entries pc (addendum 1 ?es) Map.empty = Inr fs" "fs = Map.empty(''log'' \<mapsto> b)" by auto
  moreover have "read_frames msg (dec_entry pc) [] = Inr []" for msg
    using read_frames_ok [of "enc_entry pc" "[]" "dec_entry pc" "[]" msg] assms(1) codec_entry by simp
  ultimately show ?thesis
    by (simp add: truncate_log_restore_def file_truncate_log_def file_restore_log_entries_def Let_def)
qed

theorem test_store_metadata_passes:
  assumes "codec_ok pc"
  shows "test_store_metadata pc = Some ()"
proof -
  obtain a b where "enc_metadata pc \<lparr> pm_term = 1, pm_voted_for = Some 1 \<rparr> = Some a"
    "dec_metadata pc a = Some \<lparr> pm_term = 1, pm_voted_for = Some 1 \<rparr>"
    "enc_metadata pc \<lparr> pm_term = 2, pm_voted_for = None \<rparr> = Some b"
    "dec_metadata pc b = Some \<lparr> pm_term = 2, pm_voted_for = None \<rparr>"
    using assms by (metis codec_metadata)
  then show ?thesis by (simp add: test_store_metadata_def mem_store_metadata_def Let_def)
qed

theorem store_and_restore_metadata_passes: "codec_ok pc \<Longrightarrow> store_and_restore_metadata pc = Some ()"
  by (erule codec_metadata [where m = "\<lparr> pm_term = 1, pm_voted_for = Some 2 \<rparr>"])
    (simp add: store_and_restore_metadata_def mem_store_metadata_def mem_restore_metadata_def Let_def)

theorem store_and_restore_log_passes:
  assumes "codec_ok pc" and "compact pc"
  shows "store_and_restore_log pc = Some ()"
proof -
  let ?es = "[make_log_entry 1 ''CMD1'', make_log_entry 1 ''CMD2'']"
  have "list_all (fits (enc_entry pc)) (enumerate 1 ?es)" using assms by (simp add: entry_fits)
  from mem_store_log_step [OF empty_memory [OF assms(1)] this] obtain s where
    s: "mem_store_log_entries pc (addendum 1 ?es) mem_new = Inr s" "mem_log_entries s \<noteq> []"
    "mem_restore_log_entries pc s = Inr (Some (map snd (store_frames 1 ?es [])))"
    by (auto simp: store_frames_def)
  have "map snd (store_frames 1 ?es []) = ?es" by (simp add: store_frames_def)
  with s show ?thesis by (simp add: store_and_restore_log_def Let_def)
qed

theorem test_overwrite_log_passes:
  assumes "codec_ok pc" and "compact pc"
  shows "test_overwrite_log pc = Some ()"
proof -
  let ?old = "[make_log_entry 1 ''CMD1'', make_log_entry 1 ''CMD2'', make_log_entry 1 ''CMD3'']"
  let ?new = "[make_log_entry 2 ''CMD2_MOD'', make_log_entry 2 ''CMD3_MOD'']"
  have "list_all (fits (enc_entry pc)) (enumerate 1 ?old)" using assms by (simp add: entry_fits)
  from mem_store_log_step [OF empty_memory [OF assms(1)] this] obtain s where
    s: "mem_store_log_entries pc (addendum 1 ?old) mem_new = Inr s"
    "mem_holds pc s (empty_disk\<lparr>d_frames := store_frames 1 ?old []\<rparr>)" by (auto simp: store_frames_def)
  have "list_all (fits (enc_entry pc)) (enumerate 2 ?new)" using assms by (simp add: entry_fits)
  from mem_store_log_step [OF s(2) this] obtain s' where
    s': "mem_store_log_entries pc (addendum 2 ?new) s = Inr s'"
    "mem_restore_log_entries pc s' = Inr (Some (map snd (store_frames 2 ?new (store_frames 1 ?old []))))"
    by (auto simp: store_frames_def)
  have "map snd (store_frames 2 ?new (store_frames 1 ?old [])) = hd ?old # ?new"
    by (simp add: store_frames_def numeral_2_eq_2)
  with s(1) s' show ?thesis by (simp add: test_overwrite_log_def Let_def)
qed

theorem store_and_restore_snapshot_passes: "codec_ok pc \<Longrightarrow> store_and_restore_snapshot pc = Some ()"
  by (erule codec_snapshot [where sn = snapshot_bytes_of_test])
    (simp add: store_and_restore_snapshot_def mem_store_snapshot_def mem_restore_snapshot_def get_snapshot_def Let_def)

theorem retrieve_snapshot_bytes_test_passes: "codec_ok pc \<Longrightarrow> retrieve_snapshot_bytes_test pc = Some ()"
  by (erule codec_snapshot [where sn = snapshot_bytes_of_test])
    (simp add: retrieve_snapshot_bytes_test_def mem_store_snapshot_def mem_retrieve_snapshot_bytes_def
      get_snapshot_def, simp add: snapshot_bytes_of_test_def)

theorem truncate_log_test_passes:
  assumes "codec_ok pc" and "compact pc"
  shows "truncate_log_test pc = Some ()"
proof -
  let ?es = "[make_log_entry 1 ''CMD1'', make_log_entry 1 ''CMD2'']"
  have "list_all (fits (enc_entry pc)) (enumerate 1 ?es)" using assms by (simp add: entry_fits)
  from mem_store_log_step [OF empty_memory [OF assms(1)] this] obtain s where
    "mem_store_log_entries pc (addendum 1 ?es) mem_new = Inr s" "mem_log_entries s \<noteq> []"
    by (auto simp: store_frames_def)
  then show ?thesis by (simp add: truncate_log_test_def mem_truncate_log_def Let_def)
qed

theorem test_on_empty_passes: "codec_ok pc \<Longrightarrow> test_on_empty pc = Some ()"
  by (simp add: test_on_empty_def mem_new_def mem_restore_metadata_def mem_restore_log_entries_def
      mem_restore_snapshot_def codec_ok_def round_trip_def)

end
