(* ===== verification/Strings.thy ===== *)
theory Strings
  imports RaftTypes DriverTypes
begin

text \<open>
  The string operations of the Rust standard library that the repository uses (decimal printing,
  \<open>str::parse\<close> for \<open>u64\<close>, \<open>rsplit_once\<close>) and the \<open>Display\<close> implementations of messages and
  proposal errors (\<open>src/crates/raftcore/src/types.rs\<close>,
  \<open>src/crates/raft-event-loop/src/types.rs\<close>).
\<close>

section \<open>Decimal numbers\<close>

definition digit :: "nat \<Rightarrow> char" where
  "digit n = char_of (48 + n)"

fun show_nat :: "nat \<Rightarrow> string" where
  "show_nat n = (if n < 10 then [digit n] else show_nat (n div 10) @ [digit (n mod 10)])"

declare show_nat.simps [simp del]

definition digit_value :: "char \<Rightarrow> nat option" where
  "digit_value c =
     (let n = of_char c :: nat in if 48 \<le> n \<and> n \<le> 57 then Some (n - 48) else None)"

text \<open>The loop of \<open>from_str_radix\<close>: every step is checked for overflow.\<close>

primrec parse_digits :: "u64 \<Rightarrow> string \<Rightarrow> u64 option" where
  "parse_digits acc [] = Some acc"
| "parse_digits acc (c # cs) =
     (case digit_value c of
        None \<Rightarrow> None
      | Some d \<Rightarrow> if acc * 10 + d < u64_bound then parse_digits (acc * 10 + d) cs else None)"

definition parse_u64 :: "string \<Rightarrow> u64 option" where
  "parse_u64 s =
     (if s = [] then None
      else if hd s = CHR ''+'' then (if tl s = [] then None else parse_digits 0 (tl s))
      else parse_digits 0 s)"

definition rsplit_once :: "char \<Rightarrow> string \<Rightarrow> (string \<times> string) option" where
  "rsplit_once c s =
     (if c \<in> set s
      then Some (rev (tl (dropWhile (\<lambda>x. x \<noteq> c) (rev s))), rev (takeWhile (\<lambda>x. x \<noteq> c) (rev s)))
      else None)"

definition show_bool :: "bool \<Rightarrow> string" where
  "show_bool b = (if b then ''true'' else ''false'')"

definition debug_node :: "NodeId option \<Rightarrow> string" where
  "debug_node v = (case v of None \<Rightarrow> ''None'' | Some n \<Rightarrow> ''Some('' @ show_nat n @ '')'')"

section \<open>Display\<close>

primrec display_message :: "Message \<Rightarrow> string" where
  "display_message (RequestVote r) =
     ''RequestVote(candidate='' @ show_nat (rv_candidate_id r) @ '', term='' @ show_nat (rv_term r) @ '')''"
| "display_message (RequestVoteResponse r) =
     ''RequestVoteResponse(id='' @ show_nat (rvr_id r) @ '',term='' @ show_nat (rvr_term r) @
     '',vote='' @ show_bool (rvr_vote_granted r) @ '')''"
| "display_message (AppendEntries r) =
     ''AppendEntries(leader='' @ show_nat (ae_leader_id r) @ '',term='' @ show_nat (ae_term r) @
     '',num_entries='' @ show_nat (length (ae_entries r)) @ '')''"
| "display_message (AppendEntriesResponse r) =
     ''AppendEntriesResponse(id='' @ show_nat (aer_id r) @ '',success='' @ show_bool (aer_success r) @ '')''"
| "display_message (InstallSnapshotMsg r) =
     ''InstallSnapshot(leader_id='' @ show_nat (is_leader_id r) @ '')''"
| "display_message (InstallSnapshotResponse r) =
     ''InstallSnapshotResponse(id='' @ show_nat (isr_id r) @ '')''"

primrec display_proposal_error :: "ProposalError \<Rightarrow> string" where
  "display_proposal_error (FollowerNode leader) =
     ''Node is not the leader and cannot propose commands (leader: '' @ debug_node leader @ '')''"
| "display_proposal_error LostLeadership =
     ''Node lost its status as leader and cannot propose commands anymore''"
| "display_proposal_error OtherError = ''An unknown error occurred''"

section \<open>Printing and parsing\<close>

lemma digit_value_digit [simp]: "d < 10 \<Longrightarrow> digit_value (digit d) = Some d"
  by (simp add: digit_value_def digit_def)

lemma digit_plain: "d < 10 \<Longrightarrow> digit d \<noteq> CHR ''+'' \<and> digit d \<noteq> CHR ''-''"
proof -
  assume "d < 10"
  then have "digit_value (digit d) = Some d" by simp
  moreover have "digit_value (CHR ''+'') = None" "digit_value (CHR ''-'') = None"
    by (simp_all add: digit_value_def)
  ultimately show ?thesis by auto
qed

lemma parse_digits_append:
  "parse_digits acc (xs @ [digit d]) =
     (case parse_digits acc xs of
        None \<Rightarrow> None
      | Some v \<Rightarrow> if v * 10 + d < u64_bound then Some (v * 10 + d) else None)" if "d < 10"
  using that by (induction xs arbitrary: acc) (auto split: option.splits)

lemma parse_show_digits: "n < u64_bound \<Longrightarrow> parse_digits 0 (show_nat n) = Some n"
proof (induction n rule: show_nat.induct)
  case (1 n)
  show ?case
  proof (cases "n < 10")
    case True
    then show ?thesis by (simp add: show_nat.simps)
  next
    case False
    then have "parse_digits 0 (show_nat (n div 10)) = Some (n div 10)" using 1 by simp
    moreover have "n div 10 * 10 + n mod 10 = n" by simp
    moreover have "n mod 10 < 10" by simp
    moreover have "parse_digits 0 (show_nat n) = parse_digits 0 (show_nat (n div 10) @ [digit (n mod 10)])"
      using False by (simp add: show_nat.simps [of n])
    ultimately show ?thesis using 1(2) parse_digits_append [of "n mod 10" 0 "show_nat (n div 10)"] by simp
  qed
qed

lemma show_nat_chars: "c \<in> set (show_nat n) \<Longrightarrow> \<exists>d<10. c = digit d"
proof (induction n rule: show_nat.induct)
  case (1 n)
  show ?case
  proof (cases "n < 10")
    case True
    with 1 show ?thesis by (auto simp: show_nat.simps [of n])
  next
    case False
    with 1(2) consider "c \<in> set (show_nat (n div 10))" | "c = digit (n mod 10)"
      by (auto simp: show_nat.simps [of n])
    then show ?thesis
    proof cases
      case 1
      with "1.IH" False show ?thesis by simp
    next
      case 2
      moreover have "n mod 10 < 10" by simp
      ultimately show ?thesis by blast
    qed
  qed
qed

lemma show_nat_nonempty [simp]: "show_nat n \<noteq> []"
  by (subst show_nat.simps) simp

lemma parse_show_nat: "n < u64_bound \<Longrightarrow> parse_u64 (show_nat n) = Some n"
proof -
  assume n: "n < u64_bound"
  have "hd (show_nat n) \<in> set (show_nat n)" by simp
  from show_nat_chars [OF this] obtain d where "d < 10" "hd (show_nat n) = digit d" by blast
  with digit_plain have "hd (show_nat n) \<noteq> CHR ''+''" by simp
  with n show ?thesis by (simp add: parse_u64_def parse_show_digits)
qed

lemma rsplit_once_append:
  assumes "c \<notin> set t"
  shows "rsplit_once c (s @ c # t) = Some (s, t)"
proof -
  have "takeWhile (\<lambda>x. x \<noteq> c) (rev t @ c # rev s) = rev t"
    using assms by (subst takeWhile_append2) auto
  moreover have "dropWhile (\<lambda>x. x \<noteq> c) (rev t @ c # rev s) = c # rev s"
    using assms by (subst dropWhile_append2) auto
  ultimately show ?thesis by (simp add: rsplit_once_def)
qed

end
