(* ===== verification/KvStore.thy ===== *)
theory KvStore
  imports Strings
begin

text \<open>
  The replicated key-value store, \<open>src/crates/raft-kv/src/main.rs\<close>: the command line, the node's
  identity and configuration, the task that applies committed entries to the map, and the HTTP
  handlers.  Binding sockets, logging, signals and the routing of axum are not modelled.  The
  \<open>postcard\<close> encoding of commands and of the map is a parameter \<open>kvc\<close>; the map behind the
  \<open>RwLock\<close> is a partial function (the lock is never poisoned: no holder panics).  A panic is
  \<open>None\<close>.
\<close>

section \<open>Identity\<close>

record Args =
  arg_nodes :: "string list"
  arg_http_nodes :: "string list option"
  arg_id :: "NodeId option"
  arg_derive_id :: bool
  arg_bind_port :: nat
  arg_addr_port :: nat

definition id_from_hostname :: "string \<Rightarrow> string + NodeId" where
  "id_from_hostname hostname =
     (case rsplit_once (CHR ''-'') hostname of
        None \<Rightarrow> Inl (''Hostname '' @ hostname @ '' has no final ''  @ [char_of (39::nat)] @ ''-'' @
                   [char_of (39::nat)] @ '' with ID number'')
      | Some (_, num) \<Rightarrow>
          (case parse_u64 num of
             None \<Rightarrow> Inl (''Invalid number for hostname: '' @ num)
           | Some i \<Rightarrow>
               (case u64_add i 1 of
                  None \<Rightarrow> Inl (show_nat i @ '' is not a valid number (try using something < 2^64)'')
                | Some n \<Rightarrow> Inr n)))"

text \<open>\<open>None\<close> is the \<open>unreachable!\<close> branch; \<open>hostname\<close> is the environment variable \<open>HOSTNAME\<close>.\<close>

definition resolve_id :: "string option \<Rightarrow> Args \<Rightarrow> (string + NodeId) option" where
  "resolve_id hostname args =
     (case (arg_id args, arg_derive_id args) of
        (Some i, False) \<Rightarrow> Some (Inr i)
      | (None, True) \<Rightarrow>
          Some (case hostname of
             None \<Rightarrow> Inl ''Attempted to derive node ID but HOSTNAME variable not set.''
           | Some h \<Rightarrow> id_from_hostname h)
      | _ \<Rightarrow> None)"

section \<open>Configuration\<close>

definition build_config :: "NodeId \<Rightarrow> Args \<Rightarrow> RaftConfig" where
  "build_config node_id args =
     \<lparr> cfg_id = node_id, cfg_nodes = map (\<lambda>(idx, _). idx + 1) (enumerate 0 (arg_nodes args)),
       cfg_heartbeat_interval = None, cfg_election_range = (15, 31), cfg_snapshot_threshold = 1024 \<rparr>"

text \<open>The HTTP address of every node; \<open>None\<close> is the panic on an address without a port.\<close>

definition http_addrs :: "Args \<Rightarrow> (NodeId \<times> string) list option" where
  "http_addrs args =
     (case arg_http_nodes args of
        Some http_nodes \<Rightarrow> Some (map (\<lambda>(idx, s). (idx + 1, s)) (enumerate 0 http_nodes))
      | None \<Rightarrow>
          map_opt (\<lambda>(idx, s). case rsplit_once (CHR '':'') s of
                       None \<Rightarrow> None
                     | Some (ip, _) \<Rightarrow> Some (idx + 1, ip @ '':'' @ show_nat (arg_addr_port args)))
            (enumerate 0 (arg_nodes args)))"

definition parse_u16 :: "string \<Rightarrow> nat option" where
  "parse_u16 s = (case parse_u64 s of None \<Rightarrow> None | Some n \<Rightarrow> if n < 65536 then Some n else None)"

text \<open>The start of \<open>main\<close> up to the configuration.  Every \<open>None\<close> is a panic.\<close>

definition start_up :: "string option \<Rightarrow> Args \<Rightarrow> ((NodeId \<times> string) list \<times> RaftConfig) option" where
  "start_up hostname args =
     (if (case arg_http_nodes args of None \<Rightarrow> False | Some h \<Rightarrow> length h \<noteq> length (arg_nodes args))
      then None
      else do {
        addrs \<leftarrow> http_addrs args;
        r \<leftarrow> resolve_id hostname args;
        (case r of
           Inl _ \<Rightarrow> None
         | Inr node_id \<Rightarrow>
             if node_id = 0 \<or> length (arg_nodes args) < node_id then None
             else do {
               (_, advertised_port) \<leftarrow> rsplit_once (CHR '':'') (arg_nodes args ! (node_id - 1));
               _ \<leftarrow> parse_u16 advertised_port;
               Some (addrs, build_config node_id args) }) })"

section \<open>Commands\<close>

datatype KvCommand =
    Get string
  | Set string string
  | Delete string

type_synonym store = "string \<rightharpoonup> string"

record kv_codec =
  enc_command :: "KvCommand \<Rightarrow> bytes option"
  dec_command :: "bytes \<Rightarrow> KvCommand option"
  enc_store :: "store \<Rightarrow> bytes option"
  dec_store :: "bytes \<Rightarrow> store option"

text \<open>What \<open>postcard\<close> documents, for the two types.\<close>

definition kv_codec_ok :: "kv_codec \<Rightarrow> bool" where
  "kv_codec_ok kvc \<longleftrightarrow>
     (\<forall>c. \<exists>b. enc_command kvc c = Some b \<and> dec_command kvc b = Some c) \<and>
     (\<forall>m. finite (dom m) \<longrightarrow> (\<exists>b. enc_store kvc m = Some b \<and> dec_store kvc b = Some m))"

section \<open>The task that applies entries\<close>

definition apply_kv_command :: "KvCommand \<Rightarrow> store \<Rightarrow> store" where
  "apply_kv_command c m =
     (case c of Get _ \<Rightarrow> m | Set key v \<Rightarrow> m(key \<mapsto> v) | Delete key \<Rightarrow> m(key := None))"

text \<open>One entry: the new map and, for a snapshot request, the bytes sent back.\<close>

definition apply_entry ::
  "kv_codec \<Rightarrow> AppliedEntry \<Rightarrow> store \<Rightarrow> (store \<times> bytes option) option" where
  "apply_entry kvc entry m =
     (case entry of
        Command cmd \<Rightarrow>
          Some (case dec_command kvc cmd of None \<Rightarrow> m | Some c \<Rightarrow> apply_kv_command c m, None)
      | AppliedSnapshot data \<Rightarrow>
          (case dec_store kvc data of None \<Rightarrow> None | Some new_store \<Rightarrow> Some (new_store, None))
      | SnapshotRequest \<Rightarrow>
          (case enc_store kvc m of None \<Rightarrow> None | Some b \<Rightarrow> Some (m, Some b)))"

primrec apply_task :: "kv_codec \<Rightarrow> AppliedEntry list \<Rightarrow> store \<Rightarrow> store option" where
  "apply_task kvc [] m = Some m"
| "apply_task kvc (e # es) m = do { (m', _) \<leftarrow> apply_entry kvc e m; apply_task kvc es m' }"

section \<open>HTTP\<close>

datatype KvError =
    Redirect string
  | NoLeader
  | Uncertain
  | Internal

record response =
  resp_status :: nat
  resp_headers :: "(string \<times> string) list"

definition into_response :: "KvError \<Rightarrow> response" where
  "into_response e =
     (case e of
        Redirect url \<Rightarrow> \<lparr> resp_status = 307, resp_headers = [(''location'', url)] \<rparr>
      | NoLeader \<Rightarrow> \<lparr> resp_status = 503, resp_headers = [(''retry-after'', ''1'')] \<rparr>
      | Uncertain \<Rightarrow> \<lparr> resp_status = 503, resp_headers = [(''retry-after'', ''1'')] \<rparr>
      | Internal \<Rightarrow> \<lparr> resp_status = 500, resp_headers = [] \<rparr>)"

definition map_proposal_error :: "(NodeId \<times> string) list \<Rightarrow> ProposalError \<Rightarrow> string \<Rightarrow> KvError" where
  "map_proposal_error addrs err path =
     (case err of
        FollowerNode (Some i) \<Rightarrow>
          (case map_of addrs i of
             Some addr \<Rightarrow> Redirect (''http://'' @ addr @ path)
           | None \<Rightarrow> NoLeader)
      | FollowerNode None \<Rightarrow> NoLeader
      | LostLeadership \<Rightarrow> Uncertain
      | OtherError \<Rightarrow> Internal)"

text \<open>The handlers; \<open>outcome\<close> is what \<open>RaftNode::propose\<close> or \<open>read_request\<close> returns (\<open>None\<close> for
  \<open>Ok(())\<close>).\<close>

definition set_handler ::
  "kv_codec \<Rightarrow> (NodeId \<times> string) list \<Rightarrow> (bytes \<Rightarrow> ProposalError option) \<Rightarrow> string \<Rightarrow> string \<Rightarrow> string \<Rightarrow>
   KvError + bool" where
  "set_handler kvc addrs outcome path key v =
     (case enc_command kvc (Set key v) of
        None \<Rightarrow> Inl Internal
      | Some command \<Rightarrow>
          (case outcome command of
             Some e \<Rightarrow> Inl (map_proposal_error addrs e path)
           | None \<Rightarrow> Inr True))"

definition get_handler ::
  "(NodeId \<times> string) list \<Rightarrow> ProposalError option \<Rightarrow> store \<Rightarrow> string \<Rightarrow> string \<Rightarrow> KvError + string option" where
  "get_handler addrs outcome m path key =
     (case outcome of
        Some e \<Rightarrow> Inl (map_proposal_error addrs e path)
      | None \<Rightarrow> Inr (m key))"

definition delete_handler ::
  "kv_codec \<Rightarrow> (NodeId \<times> string) list \<Rightarrow> (bytes \<Rightarrow> ProposalError option) \<Rightarrow> string \<Rightarrow> string \<Rightarrow>
   KvError + bool" where
  "delete_handler kvc addrs outcome path key =
     (case enc_command kvc (Delete key) of
        None \<Rightarrow> Inl Internal
      | Some command \<Rightarrow>
          (case outcome command of
             Some e \<Rightarrow> Inl (map_proposal_error addrs e path)
           | None \<Rightarrow> Inr True))"

definition health :: nat where
  "health = 200"

section \<open>Identity\<close>

text \<open>A hostname ending in \<open>-n\<close> is node \<open>n + 1\<close>.\<close>

lemma id_from_hostname_show:
  assumes "n + 1 < u64_bound"
  shows "id_from_hostname (prefix @ CHR ''-'' # show_nat n) = Inr (n + 1)"
proof -
  have "CHR ''-'' \<notin> set (show_nat n)" using show_nat_chars digit_plain by metis
  with assms show ?thesis by (simp add: id_from_hostname_def rsplit_once_append parse_show_nat)
qed

lemma cfg_nodes_build: "cfg_nodes (build_config n args) = [1..<length (arg_nodes args) + 1]"
  by (rule nth_equalityI) (auto simp: build_config_def nth_enumerate_eq simp del: upt_Suc)

text \<open>What a process that starts has checked.\<close>

lemma start_up_Some:
  assumes "start_up hostname args = Some (addrs, config)"
  obtains n where "config = build_config n args" and "0 < n" and "n \<le> length (arg_nodes args)"
    and "http_addrs args = Some addrs"
    and "\<And>hs. arg_http_nodes args = Some hs \<Longrightarrow> length hs = length (arg_nodes args)"
proof -
  from assms obtain r where r: "resolve_id hostname args = Some r"
    by (auto simp: start_up_def opt_bind split: if_splits)
  with assms obtain n where n: "r = Inr n"
    by (cases r) (auto simp: start_up_def opt_bind split: if_splits)
  with assms r have a: "http_addrs args = Some addrs"
    by (auto simp: start_up_def opt_bind split: if_splits)
  from assms r n have "config = build_config n args" "0 < n" "n \<le> length (arg_nodes args)"
    by (auto simp: start_up_def opt_bind split: if_splits)
  moreover have "length hs = length (arg_nodes args)" if "arg_http_nodes args = Some hs" for hs
    using assms that by (auto simp: start_up_def split: if_splits)
  ultimately show thesis using a that by blast
qed

lemma map_of_numbered:
  "map_of (map (\<lambda>(idx, x). (idx + 1, f x)) (enumerate k xs)) i =
     (if k < i \<and> i \<le> k + length xs then Some (f (xs ! (i - k - 1))) else None)"
proof (induction xs arbitrary: k)
  case (Cons x xs)
  show ?case
  proof (cases "i = k + 1")
    case False
    have "(if Suc k < i \<and> i \<le> Suc k + length xs then Some (f (xs ! (i - Suc k - 1))) else None) =
        (if k < i \<and> i \<le> k + length (x # xs) then Some (f ((x # xs) ! (i - k - 1))) else None)"
      using False by (auto simp: nth_Cons split: nat.splits) (metis Suc_diff_Suc Suc_lessI diff_Suc_Suc diff_zero nat.inject zero_less_diff less_imp_Suc_add add_diff_cancel_left')
    with False Cons.IH [of "Suc k"] show ?thesis by simp
  qed simp
qed simp

text \<open>With explicit HTTP addresses, the redirect goes to the address listed at the leader's position.\<close>

lemma http_addrs_explicit:
  assumes "arg_http_nodes args = Some hs" and "http_addrs args = Some addrs"
  shows "map_of addrs i = (if 0 < i \<and> i \<le> length hs then Some (hs ! (i - 1)) else None)"
  using assms map_of_numbered [of id 0 hs i] by (auto simp: http_addrs_def)

text \<open>Without them, it goes to the node's Raft address with the HTTP port of this node.\<close>

lemma http_addrs_derived:
  assumes "arg_http_nodes args = None" and "http_addrs args = Some addrs" and "0 < i" "i \<le> length (arg_nodes args)"
  shows "\<exists>ip port. rsplit_once (CHR '':'') (arg_nodes args ! (i - 1)) = Some (ip, port) \<and>
     map_of addrs i = Some (ip @ '':'' @ show_nat (arg_addr_port args))"
proof -
  let ?n = "length (arg_nodes args)"
  let ?addr = "\<lambda>s. fst (the (rsplit_once (CHR '':'') s)) @ '':'' @ show_nat (arg_addr_port args)"
  let ?f = "\<lambda>(idx, s). case rsplit_once (CHR '':'') s of
      None \<Rightarrow> None | Some (ip, _) \<Rightarrow> Some (idx + 1, ip @ '':'' @ show_nat (arg_addr_port args))"
  have m: "list_all2 (\<lambda>x y. ?f x = Some y) (enumerate 0 (arg_nodes args)) addrs"
    using assms(1,2) by (simp add: http_addrs_def map_opt_eq_Some)
  then have l: "length addrs = ?n" by (auto dest: list_all2_lengthD)
  have k: "\<exists>ip port. rsplit_once (CHR '':'') (arg_nodes args ! j) = Some (ip, port) \<and>
      addrs ! j = (j + 1, ?addr (arg_nodes args ! j))" if "j < ?n" for j
    using list_all2_nthD [OF m, of j] that by (auto simp: nth_enumerate_eq split: option.splits)
  have "addrs = map (\<lambda>(idx, x). (idx + 1, ?addr x)) (enumerate 0 (arg_nodes args))"
    using l k by (intro nth_equalityI) (fastforce simp: nth_enumerate_eq)+
  with assms(3,4) map_of_numbered [of ?addr 0 "arg_nodes args" i]
  have "map_of addrs i = Some (?addr (arg_nodes args ! (i - 1)))" by simp
  moreover have "i - 1 < ?n" using assms(3,4) by simp
  ultimately show ?thesis using k [of "i - 1"] by force
qed

section \<open>Applying entries\<close>

lemma apply_task_append:
  "apply_task kvc (xs @ ys) m = do { m' \<leftarrow> apply_task kvc xs m; apply_task kvc ys m' }"
proof (induction xs arbitrary: m)
  case (Cons x xs)
  then show ?case by (cases "apply_entry kvc x m") auto
qed simp

lemma apply_entry_finite:
  assumes "apply_entry kvc e m = Some (m', r)" and "finite (dom m)"
    and "\<And>data n. dec_store kvc data = Some n \<Longrightarrow> finite (dom n)"
  shows "finite (dom m')"
  using assms
  by (cases e) (auto simp: apply_entry_def apply_kv_command_def split: option.splits KvCommand.splits)

text \<open>The bytes the task sends for a snapshot request restore the map, whatever another replica holds.\<close>

lemma snapshot_restores:
  assumes "kv_codec_ok kvc" and "finite (dom m)"
  shows "\<exists>b. apply_entry kvc SnapshotRequest m = Some (m, Some b) \<and>
             (\<forall>n. apply_entry kvc (AppliedSnapshot b) n = Some (m, None))"
proof -
  from assms obtain b where "enc_store kvc m = Some b" "dec_store kvc b = Some m"
    by (auto simp: kv_codec_ok_def)
  then show ?thesis by (simp add: apply_entry_def)
qed

text \<open>What a key holds after some commands: what the last command on that key left.\<close>

fun last_write :: "string \<Rightarrow> KvCommand list \<Rightarrow> string option \<Rightarrow> string option" where
  "last_write key [] v = v"
| "last_write key (Get _ # cs) v = last_write key cs v"
| "last_write key (Set k x # cs) v = last_write key cs (if k = key then Some x else v)"
| "last_write key (Delete k # cs) v = last_write key cs (if k = key then None else v)"

lemma apply_commands:
  assumes "list_all2 (\<lambda>c b. dec_command kvc b = Some c) cs bs"
  shows "\<exists>m'. apply_task kvc (map Command bs) m = Some m' \<and> (\<forall>key. m' key = last_write key cs (m key))"
  using assms
proof (induction cs bs arbitrary: m rule: list_all2_induct)
  case (Cons c cs b bs)
  have e: "apply_entry kvc (Command b) m = Some (apply_kv_command c m, None)"
    using Cons(1) by (simp add: apply_entry_def)
  from Cons(3) [of "apply_kv_command c m"] obtain m' where
    "apply_task kvc (map Command bs) (apply_kv_command c m) = Some m'"
    "\<And>key. m' key = last_write key cs (apply_kv_command c m key)" by blast
  with e show ?case by (cases c) (auto simp: apply_kv_command_def)
qed simp

lemma apply_commands_finite:
  assumes "apply_task kvc (map Command bs) m = Some m'" and "finite (dom m)"
  shows "finite (dom m')"
  using assms
  by (induction bs arbitrary: m)
    (auto simp: apply_entry_def apply_kv_command_def split: option.splits KvCommand.splits)

end
