(* ===== verification/Transports.thy ===== *)
theory Transports
  imports DriverTypes "HOL-Library.Sublist" "HOL-Library.AList" "HOL-Library.Multiset"
begin

text \<open>
  The two transports.  \<open>src/crates/raft-tcp-transport/src/lib.rs\<close>: one sender task per peer, which
  reconnects with an exponential backoff and keeps the latest message while it is disconnected, the
  queues in front of the tasks, and the listener with one task per accepted connection.  \<open>src/crates/raft-test-utils/src/lib.rs\<close>: channels between the
  nodes of one process.  The network is a parameter of every step: whether a connection or a send
  succeeds, which branch of a \<open>select!\<close> is taken, and the time.  Times are milliseconds.
\<close>

section \<open>The sender task\<close>

definition MIN_BACKOFF :: nat where
  "MIN_BACKOFF = 10"

definition MAX_BACKOFF :: nat where
  "MAX_BACKOFF = 100"

text \<open>The local variables of the task, and the frames it has written to each connection it has made, in the
  order in which the connections were made.\<close>

record sender =
  stream :: bool
  pending :: "Message option"
  backoff :: nat
  deadline :: "nat option"
  connections :: "bytes list list"
  finished :: bool

definition sender_new :: sender where
  "sender_new =
     \<lparr> stream = False, pending = None, backoff = MIN_BACKOFF, deadline = None, connections = [],
       finished = False \<rparr>"

definition wire :: "sender \<Rightarrow> bytes list" where
  "wire s = concat (connections s)"

text \<open>What the environment decides in one iteration: the branch of the \<open>select!\<close> that is ready (a message
  or the end of the channel, the timer, or the peer closing the connection), the success of connecting,
  of sending the pending message and of sending the received one, and what the clock shows at the top
  of the loop (\<open>env_now\<close>), when the \<open>select!\<close> wakes up (\<open>env_wake\<close>) and when an attempt to connect has
  ended (\<open>env_done\<close>).\<close>

datatype branch =
    FromChannel "Message option"
  | Timer
  | PeerClosed

record environment =
  env_branch :: branch
  env_now :: nat
  env_wake :: nat
  env_done :: nat
  env_connects :: bool
  env_pending_sent :: bool
  env_sent :: bool

text \<open>\<open>s.send(buf).await\<close>: the bytes are on the current connection, or the message is kept and the stream
  dropped.\<close>

definition put_last :: "'a \<Rightarrow> 'a list list \<Rightarrow> 'a list list" where
  "put_last x xss = (if xss = [] then [[x]] else butlast xss @ [last xss @ [x]])"

definition send_on :: "bool \<Rightarrow> bytes \<Rightarrow> Message \<Rightarrow> sender \<Rightarrow> sender" where
  "send_on ok buf msg s =
     (if ok then s\<lparr>connections := put_last buf (connections s)\<rparr>
      else s\<lparr>pending := Some msg, stream := False\<rparr>)"

text \<open>\<open>deadline.get_or_insert_with(|| Instant::now() + backoff)\<close>.\<close>

definition fire :: "environment \<Rightarrow> sender \<Rightarrow> nat" where
  "fire env s = (case deadline s of None \<Rightarrow> env_now env + backoff s | Some t \<Rightarrow> t)"

text \<open>\<open>sleep_until\<close> is ready once the clock has reached the deadline; before that, and for a branch this
  \<open>select!\<close> does not have, the task goes on waiting.\<close>

definition disconnected_step :: "environment \<Rightarrow> sender \<Rightarrow> sender" where
  "disconnected_step env s =
     (let s1 = s\<lparr>deadline := Some (fire env s)\<rparr>
      in case env_branch env of
           FromChannel (Some m) \<Rightarrow> s1\<lparr>pending := Some m\<rparr>
         | FromChannel None \<Rightarrow> s1\<lparr>finished := True\<rparr>
         | PeerClosed \<Rightarrow> s1
         | Timer \<Rightarrow>
             if env_wake env < fire env s then s1
             else if env_connects env
             then s1\<lparr>stream := True, backoff := MIN_BACKOFF, deadline := None,
                     connections := connections s1 @ [[]]\<rparr>
             else let b = min (2 * backoff s1) MAX_BACKOFF
                  in s1\<lparr>backoff := b, deadline := Some (env_done env + b)\<rparr>)"

definition select_connected :: "(Message \<Rightarrow> bytes option) \<Rightarrow> environment \<Rightarrow> sender \<Rightarrow> sender" where
  "select_connected enc env s =
     (case env_branch env of
        FromChannel (Some msg) \<Rightarrow>
          (case enc msg of None \<Rightarrow> s | Some buf \<Rightarrow> send_on (env_sent env) buf msg s)
      | FromChannel None \<Rightarrow> s\<lparr>finished := True\<rparr>
      | Timer \<Rightarrow> s
      | PeerClosed \<Rightarrow> s\<lparr>stream := False\<rparr>)"

text \<open>An encoding error of the pending message, or the loss of the stream while it is sent, goes back to
  the top of the loop.\<close>

definition connected_step :: "(Message \<Rightarrow> bytes option) \<Rightarrow> environment \<Rightarrow> sender \<Rightarrow> sender" where
  "connected_step enc env s =
     (case pending s of
        None \<Rightarrow> select_connected enc env s
      | Some msg \<Rightarrow>
          (let s1 = s\<lparr>pending := None\<rparr>
           in case enc msg of
                None \<Rightarrow> s1
              | Some buf \<Rightarrow>
                  let s2 = send_on (env_pending_sent env) buf msg s1
                  in if stream s2 then select_connected enc env s2 else s2))"

definition sender_step :: "(Message \<Rightarrow> bytes option) \<Rightarrow> environment \<Rightarrow> sender \<Rightarrow> sender" where
  "sender_step enc env s =
     (if finished s then s
      else if stream s then connected_step enc env s else disconnected_step env s)"

definition sender_run :: "(Message \<Rightarrow> bytes option) \<Rightarrow> environment list \<Rightarrow> sender \<Rightarrow> sender" where
  "sender_run enc envs s = fold (sender_step enc) envs s"

section \<open>The backoff\<close>

text \<open>The attempts to connect of a run: when each began and ended, and whether it succeeded.\<close>

record attempt =
  at_start :: nat
  at_end :: nat
  at_ok :: bool

definition attempt_of :: "environment \<Rightarrow> sender \<Rightarrow> attempt list" where
  "attempt_of env s =
     (if \<not> finished s \<and> \<not> stream s \<and> env_branch env = Timer \<and> fire env s \<le> env_wake env
      then [\<lparr> at_start = env_wake env, at_end = env_done env, at_ok = env_connects env \<rparr>] else [])"

primrec attempts :: "(Message \<Rightarrow> bytes option) \<Rightarrow> environment list \<Rightarrow> sender \<Rightarrow> attempt list" where
  "attempts enc [] s = []"
| "attempts enc (e # es) s = attempt_of e s @ attempts enc es (sender_step enc e s)"

text \<open>The number of refusals since the last success, and the delay that belongs to it.\<close>

definition refusals :: "attempt list \<Rightarrow> nat" where
  "refusals as = length (takeWhile (\<lambda>a. \<not> at_ok a) (rev as))"

definition delay :: "attempt list \<Rightarrow> nat" where
  "delay as = min (2 ^ refusals as * 10) 100"

text \<open>A clock that does not go back.\<close>

definition clock :: "environment list \<Rightarrow> nat list" where
  "clock envs = concat (map (\<lambda>e. [env_now e, env_wake e, env_done e]) envs)"

lemma attempts_snoc: "attempts enc (es @ [e]) s = attempts enc es s @ attempt_of e (sender_run enc es s)"
  by (induction es arbitrary: s) (simp_all add: sender_run_def)

lemma refusals_simps [simp]:
  "refusals [] = 0"
  "refusals (as @ [a]) = (if at_ok a then 0 else Suc (refusals as))"
  by (simp_all add: refusals_def)

lemma delay_step: "delay (as @ [a]) = (if at_ok a then 10 else min (2 * delay as) 100)"
  by (simp add: delay_def min_def)

lemma delay_bounds: "10 \<le> delay as" "delay as \<le> 100"
  by (simp_all add: delay_def)

text \<open>Every attempt but the first begins at least the delay after the end of the one before.\<close>

definition spaced :: "attempt list \<Rightarrow> bool" where
  "spaced as \<longleftrightarrow>
     (\<forall>k. Suc k < length as \<longrightarrow> at_end (as ! k) + delay (take (Suc k) as) \<le> at_start (as ! Suc k))"

lemma spaced_snoc:
  assumes "spaced as" and "as \<noteq> [] \<Longrightarrow> at_end (last as) + delay as \<le> at_start a"
  shows "spaced (as @ [a])"
  unfolding spaced_def
proof (intro allI impI)
  fix k assume k: "Suc k < length (as @ [a])"
  show "at_end ((as @ [a]) ! k) + delay (take (Suc k) (as @ [a])) \<le> at_start ((as @ [a]) ! Suc k)"
  proof (cases "Suc k < length as")
    case True
    with assms(1) show ?thesis by (simp add: spaced_def nth_append)
  next
    case False
    with k have "length as = Suc k" by simp
    with assms(2) show ?thesis by (cases as rule: rev_cases) (simp_all add: nth_append)
  qed
qed

text \<open>The variables of the task while it runs: the backoff is the delay of the attempts so far, and while a
  deadline is set it is at least that delay behind the last attempt, exactly so after a refusal.\<close>

definition paced :: "attempt list \<Rightarrow> nat list \<Rightarrow> sender \<Rightarrow> bool" where
  "paced as ts s \<longleftrightarrow>
     backoff s = delay as \<and> (as \<noteq> [] \<longrightarrow> at_end (last as) \<in> set ts) \<and>
     (stream s \<longrightarrow> deadline s = None) \<and>
     (as \<noteq> [] \<and> \<not> at_ok (last as) \<longrightarrow> deadline s = Some (at_end (last as) + delay as) \<and> \<not> stream s) \<and>
     (\<forall>d. deadline s = Some d \<longrightarrow> as \<noteq> [] \<longrightarrow> at_end (last as) + delay as \<le> d)"

lemma send_on_sel [simp]:
  "backoff (send_on ok buf m s) = backoff s" "deadline (send_on ok buf m s) = deadline s"
  "finished (send_on ok buf m s) = finished s"
  by (simp_all add: send_on_def)

lemma connected_step_clock:
  "backoff (connected_step enc env s) = backoff s" "deadline (connected_step enc env s) = deadline s"
  by (auto simp: connected_step_def select_connected_def Let_def split: option.splits branch.splits)

lemma paced_step:
  assumes "paced as ts s" and "\<forall>t\<in>set ts. t \<le> env_now e"
  shows "paced (as @ attempt_of e s) (ts @ [env_now e, env_wake e, env_done e]) (sender_step enc e s)"
proof (cases "finished s \<or> stream s")
  case True
  then have "attempt_of e s = []" by (auto simp: attempt_of_def)
  with True assms(1) show ?thesis
    by (auto simp: paced_def sender_step_def connected_step_clock)
next
  case False
  let ?s = "disconnected_step e s"
  have step: "sender_step enc e s = ?s" using False by (simp add: sender_step_def)
  show ?thesis
  proof (cases "attempt_of e s")
    case Nil
    then have "backoff ?s = backoff s" "deadline ?s = Some (fire e s)" "\<not> stream ?s"
      using False by (auto simp: attempt_of_def disconnected_step_def Let_def
          split: branch.splits option.splits if_splits)
    with Nil assms step show ?thesis by (auto simp: paced_def fire_def split: option.splits)
  next
    case (Cons a as')
    then have e: "env_branch e = Timer" "fire e s \<le> env_wake e" "as' = []"
      "a = \<lparr> at_start = env_wake e, at_end = env_done e, at_ok = env_connects e \<rparr>"
      by (simp_all add: attempt_of_def split: if_splits)
    with Cons assms step False show ?thesis
      by (auto simp: paced_def disconnected_step_def delay_step MIN_BACKOFF_def MAX_BACKOFF_def Let_def)
  qed
qed

lemma attempt_not_early:
  assumes "paced as ts s" and "\<forall>t\<in>set ts. t \<le> env_now e" and "a \<in> set (attempt_of e s)" and "as \<noteq> []"
  shows "at_end (last as) + delay as \<le> at_start a"
  using assms by (auto simp: paced_def attempt_of_def fire_def split: if_splits option.splits)

lemma attempts_spaced:
  assumes "sorted (clock envs)"
  shows "paced (attempts enc envs sender_new) (clock envs) (sender_run enc envs sender_new) \<and>
    spaced (attempts enc envs sender_new)"
  using assms
proof (induction envs rule: rev_induct)
  case Nil
  then show ?case
    by (simp add: paced_def spaced_def sender_new_def sender_run_def clock_def MIN_BACKOFF_def delay_def)
next
  case (snoc e es)
  let ?s = "sender_run enc es sender_new" and ?as = "attempts enc es sender_new"
  have c: "clock (es @ [e]) = clock es @ [env_now e, env_wake e, env_done e]" by (simp add: clock_def)
  with snoc have IH: "paced ?as (clock es) ?s" "spaced ?as" and t: "\<forall>t\<in>set (clock es). t \<le> env_now e"
    by (simp_all add: sorted_append)
  have "spaced (?as @ attempt_of e ?s)"
  proof (cases "attempt_of e ?s")
    case Nil
    with IH(2) show ?thesis by simp
  next
    case (Cons a as')
    then have "as' = []" by (simp add: attempt_of_def split: if_splits)
    with Cons spaced_snoc [OF IH(2)] attempt_not_early [OF IH(1) t, of a] show ?thesis by simp
  qed
  with paced_step [OF IH(1) t, of enc] c show ?case
    by (simp add: attempts_snoc sender_run_def)
qed

section \<open>What reaches the wire\<close>

text \<open>The messages the task takes from its channel.\<close>

definition taken :: "(Message \<Rightarrow> bytes option) \<Rightarrow> environment \<Rightarrow> sender \<Rightarrow> Message list" where
  "taken enc env s =
     (if finished s then []
      else if stream s \<and> pending s \<noteq> None \<and>
              (enc (the (pending s)) = None \<or> \<not> env_pending_sent env) then []
      else (case env_branch env of FromChannel (Some m) \<Rightarrow> [m] | _ \<Rightarrow> []))"

primrec all_taken :: "(Message \<Rightarrow> bytes option) \<Rightarrow> environment list \<Rightarrow> sender \<Rightarrow> Message list" where
  "all_taken enc [] s = []"
| "all_taken enc (e # es) s = taken enc e s @ all_taken enc es (sender_step enc e s)"

definition encodings :: "(Message \<Rightarrow> bytes option) \<Rightarrow> Message list \<Rightarrow> bytes list" where
  "encodings enc ms = map the (filter (\<lambda>b. b \<noteq> None) (map enc ms))"

definition on_the_way :: "(Message \<Rightarrow> bytes option) \<Rightarrow> sender \<Rightarrow> bytes list" where
  "on_the_way enc s = wire s @ encodings enc (case pending s of None \<Rightarrow> [] | Some m \<Rightarrow> [m])"

lemma encodings_simps [simp]:
  "encodings enc [] = []"
  "encodings enc (m # ms) = (case enc m of None \<Rightarrow> [] | Some b \<Rightarrow> [b]) @ encodings enc ms"
  "encodings enc (xs @ ys) = encodings enc xs @ encodings enc ys"
  by (simp_all add: encodings_def split: option.splits)

text \<open>A step puts on the way some of what it had and what it takes, in order.\<close>

lemma subseq_skip: "subseq (xs @ ys) (xs @ zs @ ys)"
  by (metis append_Nil list_emb_Nil list_emb_append_mono subseq_order.order_refl)

lemma concat_put_last [simp]: "concat (put_last x xss) = concat xss @ [x]"
  by (cases xss rule: rev_cases) (simp_all add: put_last_def)

lemma sender_step_subseq:
  "subseq (on_the_way enc (sender_step enc env s)) (on_the_way enc s @ encodings enc (taken enc env s))"
  by (auto simp: sender_step_def disconnected_step_def connected_step_def select_connected_def send_on_def
      on_the_way_def wire_def taken_def Let_def subseq_skip [of _ "[_]" "[_]", simplified]
      split: branch.splits option.splits)

lemma subseq_prefix: "subseq xs (ys @ zs) \<Longrightarrow> subseq ys vs \<Longrightarrow> subseq xs (vs @ zs)"
  by (meson list_emb_append_mono subseq_order.order_trans subseq_order.order_refl)

lemma sender_run_subseq:
  "subseq (on_the_way enc (sender_run enc envs s)) (on_the_way enc s @ encodings enc (all_taken enc envs s))"
proof (induction envs arbitrary: s)
  case (Cons e envs)
  let ?s = "sender_step enc e s"
  from subseq_prefix [OF Cons.IH [of ?s] sender_step_subseq]
  show ?case by (simp add: sender_run_def)
qed (simp add: sender_run_def)

text \<open>The latest message is kept: it has been sent last, or it is pending.\<close>

definition keeps_latest :: "(Message \<Rightarrow> bytes option) \<Rightarrow> Message \<Rightarrow> sender \<Rightarrow> bool" where
  "keeps_latest enc m s \<longleftrightarrow>
     pending s = Some m \<or> (pending s = None \<and> wire s \<noteq> [] \<and> enc m = Some (last (wire s)))"

lemma taken_kept:
  assumes "taken enc env s = [m]" and "enc m \<noteq> None"
  shows "keeps_latest enc m (sender_step enc env s)"
  using assms
  by (auto simp: taken_def keeps_latest_def wire_def sender_step_def disconnected_step_def connected_step_def
      select_connected_def send_on_def Let_def simp del: concat_eq_Nil_conv
      split: branch.splits option.splits if_splits)

lemma kept_without_take:
  assumes "keeps_latest enc m s" and "taken enc env s = []" and "enc m \<noteq> None"
  shows "keeps_latest enc m (sender_step enc env s)"
  using assms
  by (auto simp: taken_def keeps_latest_def wire_def sender_step_def disconnected_step_def connected_step_def
      select_connected_def send_on_def Let_def simp del: concat_eq_Nil_conv
      split: branch.splits option.splits if_splits)

lemma taken_short: "taken enc env s = [] \<or> (\<exists>m. taken enc env s = [m])"
  by (auto simp: taken_def split: branch.splits option.splits)

lemma sender_run_latest:
  assumes "all_taken enc envs s \<noteq> [] \<or> keeps_latest enc m s"
    and "all_taken enc envs s \<noteq> [] \<longrightarrow> last (all_taken enc envs s) = m"
    and "\<forall>x\<in>set (all_taken enc envs s). enc x \<noteq> None" and "enc m \<noteq> None"
  shows "keeps_latest enc m (sender_run enc envs s)"
  using assms
proof (induction envs arbitrary: s)
  case (Cons e envs)
  let ?s = "sender_step enc e s"
  have run: "sender_run enc (e # envs) s = sender_run enc envs ?s" by (simp add: sender_run_def)
  show ?case
  proof (cases "all_taken enc envs ?s = []")
    case False
    with Cons show ?thesis by (simp add: run)
  next
    case True
    from taken_short [of enc e s] have "keeps_latest enc m ?s"
    proof
      assume "taken enc e s = []"
      with True Cons.prems kept_without_take show ?thesis by simp
    next
      assume "\<exists>x. taken enc e s = [x]"
      with True Cons.prems taken_kept [of enc e s m] show ?thesis by auto
    qed
    with True Cons show ?thesis by (simp add: run)
  qed
qed (simp add: sender_run_def)

section \<open>The interface to the event loop\<close>

text \<open>\<open>Transport::send\<close> as a step on the queues of the destinations; \<open>None\<close> is a call that waits for
  room.\<close>

primrec send_all ::
  "(NodeId \<Rightarrow> Message \<Rightarrow> 't \<Rightarrow> 't option) \<Rightarrow> (NodeId \<times> Message) list \<Rightarrow> 't \<Rightarrow> 't option" where
  "send_all snd_op [] t = Some t"
| "send_all snd_op (x # xs) t = do { t1 \<leftarrow> snd_op (fst x) (snd x) t; send_all snd_op xs t1 }"

definition addressed_to :: "NodeId \<Rightarrow> (NodeId \<times> Message) list \<Rightarrow> Message list" where
  "addressed_to n xs = map snd (filter (\<lambda>x. fst x = n) xs)"

locale transport =
  fixes send :: "NodeId \<Rightarrow> Message \<Rightarrow> 't \<Rightarrow> 't option"
    and queue :: "'t \<Rightarrow> NodeId \<Rightarrow> Message list option"
    and has_space :: "nat \<Rightarrow> bool"
  assumes send_known: "queue t n = Some q \<Longrightarrow> has_space (length q) \<Longrightarrow>
      \<exists>t'. send n m t = Some t' \<and> queue t' = (queue t)(n \<mapsto> q @ [m])"
    and send_unknown: "queue t n = None \<Longrightarrow> send n m t = Some t"
    and less_space: "has_space k \<Longrightarrow> j \<le> k \<Longrightarrow> has_space j"
begin

text \<open>Messages arrive in the queue of their destination in the order in which they were sent, and messages
  to unknown nodes are dropped.\<close>

lemma send_all_in_order:
  assumes "\<And>n q. queue t n = Some q \<Longrightarrow> has_space (length q + length xs)"
  shows "\<exists>t'. send_all send xs t = Some t' \<and>
     (\<forall>n. queue t' n = map_option (\<lambda>q. q @ addressed_to n xs) (queue t n))"
  using assms
proof (induction xs arbitrary: t)
  case Nil
  then show ?case by (simp add: addressed_to_def map_option.id [unfolded id_def])
next
  case (Cons x xs)
  obtain n m where x: "x = (n, m)" by (cases x)
  show ?case
  proof (cases "queue t n")
    case None
    then have s: "send n m t = Some t" by (rule send_unknown)
    have sp: "has_space (length q + length xs)" if "queue t k = Some q" for k q
      using Cons.prems [OF that] by (rule less_space) simp
    from Cons.IH [of t] sp obtain t' where "send_all send xs t = Some t'"
      "\<forall>k. queue t' k = map_option (\<lambda>q. q @ addressed_to k xs) (queue t k)" by blast
    with s x None show ?thesis by (auto simp: addressed_to_def)
  next
    case (Some q)
    have sp: "has_space (length q)" using Cons.prems [OF Some] less_space by (metis le_add1)
    from send_known [OF Some sp] obtain t1 where
      t1: "send n m t = Some t1" "queue t1 = (queue t)(n \<mapsto> q @ [m])" by blast
    have sp1: "has_space (length r + length xs)" if "queue t1 k = Some r" for k r
    proof (cases "k = n")
      case True
      with that t1(2) Cons.prems [OF Some] show ?thesis by auto
    next
      case False
      with that t1(2) have "has_space (length r + length (x # xs))" using Cons.prems by simp
      then show ?thesis by (rule less_space) simp
    qed
    from Cons.IH [of t1] sp1 obtain t' where "send_all send xs t1 = Some t'"
      "\<forall>k. queue t' k = map_option (\<lambda>q. q @ addressed_to k xs) (queue t1 k)" by blast
    with t1 x Some show ?thesis by (auto simp: addressed_to_def)
  qed
qed

end

section \<open>TCP\<close>

text \<open>The unbounded channels to the sender tasks and the channel that the listener fills.\<close>

record TcpTransport =
  senders :: "(NodeId \<times> Message list) list"
  receiver_rx :: "Message list"

definition tcp_new :: "NodeId \<Rightarrow> NodeId list \<Rightarrow> TcpTransport" where
  "tcp_new i nodes =
     \<lparr> senders = fold (\<lambda>n al. if n = i then al else AList.update n [] al) nodes [],
       receiver_rx = [] \<rparr>"

text \<open>A connection task of the listener: frames that cannot be decoded are skipped.\<close>

definition decoded :: "(bytes \<Rightarrow> Message option) \<Rightarrow> bytes list \<Rightarrow> Message list" where
  "decoded dec bufs = map the (filter (\<lambda>m. m \<noteq> None) (map dec bufs))"

definition receive_frames :: "(bytes \<Rightarrow> Message option) \<Rightarrow> bytes list \<Rightarrow> TcpTransport \<Rightarrow> TcpTransport" where
  "receive_frames dec bufs t = t\<lparr>receiver_rx := receiver_rx t @ decoded dec bufs\<rparr>"

text \<open>The listener has a task for each connection it has accepted, from whatever peer; all of them write
  into the one channel.  A step is one of the tasks reading one frame, and the order of the steps is up
  to the scheduler.  A connection that breaks is not read again.\<close>

definition listener_step ::
  "(bytes \<Rightarrow> Message option) \<Rightarrow> nat \<Rightarrow> bytes list list \<times> TcpTransport \<Rightarrow> bytes list list \<times> TcpTransport" where
  "listener_step dec i st =
     (let cs = fst st; t = snd st
      in if i < length cs
         then (case cs ! i of [] \<Rightarrow> st | buf # rest \<Rightarrow> (cs[i := rest], receive_frames dec [buf] t))
         else st)"

definition listener_run ::
  "(bytes \<Rightarrow> Message option) \<Rightarrow> nat list \<Rightarrow> bytes list list \<times> TcpTransport \<Rightarrow> bytes list list \<times> TcpTransport" where
  "listener_run dec schedule st = fold (listener_step dec) schedule st"

definition tcp_send :: "NodeId \<Rightarrow> Message \<Rightarrow> TcpTransport \<Rightarrow> TcpTransport option" where
  "tcp_send node message t =
     (case map_of (senders t) node of
        None \<Rightarrow> Some t
      | Some q \<Rightarrow> Some (t\<lparr>senders := AList.update node (q @ [message]) (senders t)\<rparr>))"

text \<open>\<open>None\<close>: the call waits.\<close>

definition tcp_recv :: "TcpTransport \<Rightarrow> (Message \<times> TcpTransport) option" where
  "tcp_recv t = (case receiver_rx t of [] \<Rightarrow> None | m # ms \<Rightarrow> Some (m, t\<lparr>receiver_rx := ms\<rparr>))"

interpretation tcp: transport tcp_send "\<lambda>t. map_of (senders t)" "\<lambda>_. True"
  by unfold_locales (simp_all add: tcp_send_def update_conv')

lemma tcp_new_queue:
  "map_of (senders (tcp_new i nodes)) n = (if n \<in> set nodes \<and> n \<noteq> i then Some [] else None)"
proof -
  have "map_of (fold (\<lambda>n al. if n = i then al else AList.update n [] al) nodes al) n =
      (if n \<in> set nodes \<and> n \<noteq> i then Some [] else map_of al n)" for al :: "(NodeId \<times> Message list) list"
    by (induction nodes arbitrary: al) (auto simp: update_conv')
  then show ?thesis by (simp add: tcp_new_def)
qed

text \<open>What one side puts on the wire arrives at the other, for a codec that decodes what it encodes.\<close>

lemma decoded_simps [simp]:
  "decoded dec [] = []"
  "decoded dec (b # bs) = (case dec b of None \<Rightarrow> [] | Some m \<Rightarrow> [m]) @ decoded dec bs"
  "decoded dec (xs @ ys) = decoded dec xs @ decoded dec ys"
  by (simp_all add: decoded_def split: option.splits)

lemma decoded_concat: "decoded dec (concat bss) = concat (map (decoded dec) bss)"
  by (induction bss) simp_all

lemma decoded_encodings:
  assumes "\<And>m b. enc m = Some b \<Longrightarrow> dec b = Some m"
  shows "decoded dec (encodings enc ms) = filter (\<lambda>m. enc m \<noteq> None) ms"
  by (induction ms) (auto dest: assms split: option.splits)

lemma decoded_subseq: "subseq xs ys \<Longrightarrow> subseq (decoded dec xs) (decoded dec ys)"
  unfolding decoded_def by (simp add: subseq_map subseq_filter)

text \<open>What the tasks of the listener put into the channel under a schedule, each message with the number of
  its connection.\<close>

primrec arrivals ::
  "(bytes \<Rightarrow> Message option) \<Rightarrow> nat list \<Rightarrow> bytes list list \<Rightarrow> (nat \<times> Message) list" where
  "arrivals dec [] cs = []"
| "arrivals dec (i # js) cs =
     (if i < length cs
      then (case cs ! i of
              [] \<Rightarrow> arrivals dec js cs
            | buf # rest \<Rightarrow> map (Pair i) (decoded dec [buf]) @ arrivals dec js (cs[i := rest]))
      else arrivals dec js cs)"

definition from_connection :: "nat \<Rightarrow> (nat \<times> Message) list \<Rightarrow> Message list" where
  "from_connection i ys = map snd (filter (\<lambda>y. fst y = i) ys)"

lemma from_connection_simps [simp]:
  "from_connection i [] = []"
  "from_connection i (xs @ ys) = from_connection i xs @ from_connection i ys"
  "from_connection i (map (Pair j) ms) = (if i = j then ms else [])"
  by (simp_all add: from_connection_def filter_map comp_def)

lemma listener_run_arrivals:
  "receiver_rx (snd (listener_run dec schedule (cs, t))) = receiver_rx t @ map snd (arrivals dec schedule cs)"
proof (induction schedule arbitrary: cs t)
  case (Cons i js)
  then show ?case
    by (auto simp: listener_run_def listener_step_def receive_frames_def Let_def comp_def
        split: list.splits option.splits)
qed (simp add: listener_run_def)

text \<open>Each connection delivers a prefix of what it carries, in order.\<close>

lemma arrivals_prefix:
  "prefix (from_connection i (arrivals dec schedule cs)) (if i < length cs then decoded dec (cs ! i) else [])"
proof (induction schedule arbitrary: cs)
  case (Cons j js)
  show ?case
  proof (cases "j < length cs \<and> cs ! j \<noteq> []")
    case True
    then obtain b bs where c: "cs ! j = b # bs" by (cases "cs ! j") auto
    from Cons.IH [of "cs[j := bs]"] True c show ?thesis
      by (cases "i = j") (auto simp: prefix_def nth_list_update split: option.splits if_splits)
  next
    case False
    with Cons.IH [of cs] show ?thesis by (auto split: list.splits)
  qed
qed simp

text \<open>The messages of some of the connections, counted.\<close>

lemma arrivals_of_connections:
  assumes "distinct js"
  shows "mset (map snd (filter (\<lambda>y. fst y \<in> set js) ys)) = mset (concat (map (\<lambda>j. from_connection j ys) js))"
  using assms
proof (induction ys)
  case (Cons y ys)
  have "mset (concat (map (\<lambda>j. from_connection j (y # ys)) js)) =
      (if fst y \<in> set js then {#snd y#} else {#}) + mset (concat (map (\<lambda>j. from_connection j ys) js))"
    using Cons.prems by (induction js) (auto simp: from_connection_def)
  with Cons show ?case by simp
qed (simp add: from_connection_def concat_eq_Nil_conv)

lemma subseq_mset: "subseq xs ys \<Longrightarrow> mset xs \<subseteq># mset ys"
  by (induction rule: list_emb.induct) (auto intro: subset_mset.order_trans)

lemma concat_prefix_mset:
  assumes "length xs = length ys" and "\<And>k. k < length xs \<Longrightarrow> prefix (xs ! k) (ys ! k)"
  shows "mset (concat xs) \<subseteq># mset (concat ys)"
  using assms
proof (induction xs ys rule: list_induct2)
  case (Cons x xs y ys)
  have "mset x \<subseteq># mset y" using Cons.prems [of 0] by (auto simp: prefix_def)
  moreover have "mset (concat xs) \<subseteq># mset (concat ys)" using Cons.IH Cons.prems [of "Suc _"] by simp
  ultimately show ?case by (simp add: subset_mset.add_mono)
qed simp

section \<open>Channels inside one process\<close>

text \<open>The channels of all nodes; each has room for 1024 messages.\<close>

type_synonym channels = "NodeId \<rightharpoonup> Message list"

definition build_in_memory_transport :: "NodeId list \<Rightarrow> channels" where
  "build_in_memory_transport nodes = (\<lambda>n. if n \<in> set nodes then Some [] else None)"

definition mem_send :: "NodeId \<Rightarrow> Message \<Rightarrow> channels \<Rightarrow> channels option" where
  "mem_send node message net =
     (case net node of
        None \<Rightarrow> Some net
      | Some q \<Rightarrow> if length q < 1024 then Some (net(node \<mapsto> q @ [message])) else None)"

definition mem_recv :: "NodeId \<Rightarrow> channels \<Rightarrow> (Message \<times> channels) option" where
  "mem_recv i net =
     (case net i of Some (m # ms) \<Rightarrow> Some (m, net(i \<mapsto> ms)) | _ \<Rightarrow> None)"

interpretation channel: transport mem_send "\<lambda>net. net" "\<lambda>k. k < 1024"
  by unfold_locales (auto simp: mem_send_def)

end
