(* ===== verification/AppTests.thy ===== *)
theory AppTests
  imports KvStore Transports TestCluster
begin

text \<open>
  The tests of the TCP transport (\<open>src/crates/raft-tcp-transport/src/lib.rs\<close>) and of the key-value store
  (\<open>src/crates/raft-kv/src/main.rs\<close>), in the option monad: \<open>assert!\<close> is \<open>guard\<close>, a \<open>recv\<close> that waits for ever
  is \<open>None\<close>.  The test of the transport is a function of the encoding and of what the network does while
  each message is under way.
\<close>

section \<open>TCP\<close>

definition vote_message :: Message where
  "vote_message = RequestVote
     \<lparr> rv_term = 1, rv_candidate_id = 1, rv_last_log_index = 0, rv_last_log_term = 0 \<rparr>"

text \<open>The sender task of a fresh transport empties its queue, and the listener of the peer reads the wire.\<close>

definition carry ::
  "(Message \<Rightarrow> bytes option) \<Rightarrow> (bytes \<Rightarrow> Message option) \<Rightarrow> environment list \<Rightarrow> Message list \<Rightarrow>
     TcpTransport \<Rightarrow> TcpTransport option" where
  "carry enc dec envs queue t = do {
     guard (all_taken enc envs sender_new = queue);
     Some (receive_frames dec (wire (sender_run enc envs sender_new)) t) }"

definition network_rt ::
  "(Message \<Rightarrow> bytes option) \<Rightarrow> (bytes \<Rightarrow> Message option) \<Rightarrow> environment list \<Rightarrow> unit option" where
  "network_rt enc dec envs = do {
     let desc = [1, 2];
     let node_1_transport = tcp_new 1 desc;
     let node_2_transport = tcp_new 2 desc;
     let m = vote_message;
     node_1_transport \<leftarrow> tcp_send 2 m node_1_transport;
     q \<leftarrow> map_of (senders node_1_transport) 2;
     node_2_transport \<leftarrow> carry enc dec envs q node_2_transport;
     (compare, node_2_transport) \<leftarrow> tcp_recv node_2_transport;
     guard (compare = m);
     node_2_transport \<leftarrow> tcp_send 1 m node_2_transport;
     q \<leftarrow> map_of (senders node_2_transport) 1;
     node_1_transport \<leftarrow> carry enc dec envs q node_1_transport;
     (compare, node_1_transport) \<leftarrow> tcp_recv node_1_transport;
     guard (compare = m) }"

definition failed_send :: "unit option" where
  "failed_send = do {
     let transport = tcp_new 1 [1];
     _ \<leftarrow> tcp_send 2 vote_message transport;
     Some () }"

text \<open>A network in which the peer refuses a number of times, every tenth of a second, and then accepts the
  connection and the message.\<close>

definition at_time :: "nat \<Rightarrow> branch \<Rightarrow> bool \<Rightarrow> environment" where
  "at_time t b ok = \<lparr> env_branch = b, env_now = t, env_wake = t, env_done = t, env_connects = ok,
     env_pending_sent = True, env_sent = True \<rparr>"

definition refusing :: "nat \<Rightarrow> nat \<Rightarrow> environment list" where
  "refusing t k = map (\<lambda>j. at_time (t + j * 100) Timer False) [0..<k]"

definition slow_network :: "nat \<Rightarrow> Message \<Rightarrow> environment list" where
  "slow_network k m =
     at_time 0 (FromChannel (Some m)) False # refusing 100 k @
     [at_time (100 + k * 100) Timer True, at_time (100 + k * 100) PeerClosed False]"

lemma refusing_Suc: "refusing t (Suc k) = at_time t Timer False # refusing (t + 100) k"
  unfolding refusing_def upt_conv_Cons [OF zero_less_Suc] map_Suc_upt [symmetric]
  by (simp add: comp_def ac_simps)

text \<open>A task that waits with a message, and whose deadline has come by a time.\<close>

definition waiting :: "Message \<Rightarrow> nat \<Rightarrow> sender \<Rightarrow> bool" where
  "waiting m t s \<longleftrightarrow>
     \<not> finished s \<and> \<not> stream s \<and> pending s = Some m \<and> wire s = [] \<and> (\<exists>d\<le>t. deadline s = Some d)"

lemma refusing_run:
  assumes "waiting m t s"
  shows "\<exists>s'. fold (sender_step enc) (refusing t k) s = s' \<and> waiting m (t + k * 100) s' \<and>
     all_taken enc (refusing t k @ es) s = all_taken enc es s'"
  using assms
proof (induction k arbitrary: s t)
  case (Suc k)
  let ?s = "sender_step enc (at_time t Timer False) s"
  have "waiting m (t + 100) ?s" "taken enc (at_time t Timer False) s = []"
    using Suc.prems
    by (auto simp: waiting_def wire_def sender_step_def disconnected_step_def at_time_def taken_def fire_def
        MAX_BACKOFF_def Let_def)
  moreover have "t + Suc k * 100 = t + 100 + k * 100" by simp
  ultimately show ?case using Suc.IH [of "t + 100" ?s] by (simp add: refusing_Suc add.assoc)
qed (simp add: refusing_def)

lemma slow_network_run:
  assumes "enc m = Some b"
  shows "all_taken enc (slow_network k m) sender_new = [m]"
    and "wire (sender_run enc (slow_network k m) sender_new) = [b]"
proof -
  let ?e0 = "at_time 0 (FromChannel (Some m)) False"
  let ?es = "[at_time (100 + k * 100) Timer True, at_time (100 + k * 100) PeerClosed False]"
  let ?s = "sender_step enc ?e0 sender_new"
  have "waiting m 100 ?s" and t: "taken enc ?e0 sender_new = [m]"
    by (simp_all add: waiting_def wire_def sender_step_def disconnected_step_def at_time_def sender_new_def
        taken_def fire_def MIN_BACKOFF_def Let_def)
  with refusing_run [of m 100 ?s enc k ?es] obtain s where
    s: "fold (sender_step enc) (refusing 100 k) ?s = s" "waiting m (100 + k * 100) s"
      "all_taken enc (refusing 100 k @ ?es) ?s = all_taken enc ?es s" by blast
  from s(2) obtain d where "d \<le> 100 + k * 100" "deadline s = Some d" by (auto simp: waiting_def)
  then have "all_taken enc ?es s = []" "wire (fold (sender_step enc) ?es s) = [b]"
    using s(2) assms
    by (simp_all add: waiting_def wire_def taken_def sender_step_def disconnected_step_def connected_step_def
        select_connected_def send_on_def at_time_def fire_def Let_def)
  with s(1,3) t show "all_taken enc (slow_network k m) sender_new = [m]"
    "wire (sender_run enc (slow_network k m) sender_new) = [b]"
    by (simp_all add: slow_network_def sender_run_def)
qed

theorem network_rt_passes:
  assumes "enc vote_message = Some b" and "dec b = Some vote_message"
  shows "network_rt enc dec (slow_network k vote_message) = Some ()"
proof -
  note r = slow_network_run [of enc vote_message b k, OF assms(1)]
  have "map_of (senders (tcp_new 1 [1, 2])) 2 = Some []" "map_of (senders (tcp_new 2 [1, 2])) 1 = Some []"
    by (simp_all add: tcp_new_queue)
  then show ?thesis
    using r assms(2)
    by (simp add: network_rt_def carry_def tcp_send_def update_conv' tcp_recv_def receive_frames_def guard_def
        tcp_new_def Let_def)
qed

theorem failed_send_passes: "failed_send = Some ()"
  by (simp add: failed_send_def tcp_send_def tcp_new_def)

section \<open>The identity of a node\<close>

definition test_id_from_hostname :: "unit option" where
  "test_id_from_hostname = do {
     guard (id_from_hostname ''raft-kv-0'' = Inr 1);
     guard (id_from_hostname ''raft-kv-7d9f-x2k302'' = Inl ''Invalid number for hostname: x2k302'');
     guard (id_from_hostname ''localhost'' =
       Inl (''Hostname localhost has no final '' @ [char_of (39::nat)] @ ''-'' @ [char_of (39::nat)] @
            '' with ID number'')) }"

theorem test_id_from_hostname_passes: "test_id_from_hostname = Some ()"
  by (simp add: test_id_from_hostname_def id_from_hostname_def rsplit_once_def parse_u64_def digit_value_def
      guard_def u64_add_def)

end
