(* ===== verification/CoreProperties.thy ===== *)
theory CoreProperties
  imports RaftMachine
begin

text \<open>
  The properties of a single core (\<open>src/crates/raftcore/src/lib.rs\<close>), each with a concrete input at
  which its hypotheses hold, and the behaviours that contradict a comment of the source or the
  protocol.
\<close>

section \<open>Concrete nodes\<close>

text \<open>Node 1 of three: a follower with two entries of term 1 of which the first is committed, the same
  node as leader, and a message from each side.\<close>

definition demo_entry :: "u64 \<Rightarrow> nat \<Rightarrow> LogEntry" where
  "demo_entry t n = \<lparr> le_term = t, le_command = replicate n 7 \<rparr>"

definition demo_follower :: RaftCore where
  "demo_follower =
     \<lparr> node_id = 1, peers = [2, 3], state = Follower, current_term = 1, voted_for = None,
       log = [demo_entry 1 0, demo_entry 1 1], commit_index = 1, last_applied = 1,
       current_leader = Some 2, next_index = [], match_index = [], votes_received = {},
       last_included_index = 0, last_included_term = 0, ticks_since_last_heartbeat = 0,
       election_timeout_range = (15, 31), election_timeout = 15, heartbeat_interval = 5,
       append_entries_count = 0, next_read_barrier_id = 0, read_barriers = [] \<rparr>"

definition demo_leader :: RaftCore where
  "demo_leader =
     demo_follower\<lparr>state := Leader, voted_for := Some 1, votes_received := {1, 2},
       current_leader := Some 1, next_index := [(2, 3), (3, 3)], match_index := [(2, 0), (3, 0)],
       read_barriers := [(1, 0)], next_read_barrier_id := 1\<rparr>"

definition demo_candidate :: RaftCore where
  "demo_candidate =
     demo_follower\<lparr>state := Candidate, current_term := 2, voted_for := Some 1, votes_received := {1}\<rparr>"

definition demo_append :: AppendEntriesRPC where
  "demo_append =
     \<lparr> ae_term = 2, ae_leader_id = 2, ae_prev_log_index = 1, ae_prev_log_term = 1,
       ae_entries = [demo_entry 2 2, demo_entry 2 3], ae_leader_commit = 2 \<rparr>"

definition demo_success :: AppendEntriesResponseRPC where
  "demo_success =
     \<lparr> aer_id = 2, aer_term = 1, aer_match_index = 2, aer_success = True,
       aer_first_conflicting_index = None, aer_first_conflicting_term = None \<rparr>"

definition demo_grant :: RequestVoteResponseRPC where
  "demo_grant = \<lparr> rvr_id = 3, rvr_term = 2, rvr_vote_granted = True \<rparr>"

definition demo_snapshot :: InstallSnapshotRPC where
  "demo_snapshot =
     \<lparr> is_term = 2, is_leader_id = 2, is_last_included_index = 4, is_last_included_term = 2, is_data = [1] \<rparr>"

text \<open>A leader of five nodes with a read barrier.\<close>

definition five_leader :: RaftCore where
  "five_leader =
     demo_leader\<lparr>peers := [2, 3, 4, 5], next_index := [(2, 3), (3, 3), (4, 3), (5, 3)],
       match_index := [(2, 0), (3, 0), (4, 0), (5, 0)]\<rparr>"

text \<open>A follower in term 5, and its refusal of a request of term 1.\<close>

definition ahead_follower :: RaftCore where
  "ahead_follower =
     demo_follower\<lparr>node_id := 2, peers := [1, 3], current_term := 5, current_leader := None,
       log := [demo_entry 1 0, demo_entry 1 1, demo_entry 4 1]\<rparr>"

definition demo_refusal :: AppendEntriesResponseRPC where
  "demo_refusal = base_response ahead_follower 3"

text \<open>A follower whose log up to index 5 is in a snapshot, and a request that starts at index 1.\<close>

definition compacted_follower :: RaftCore where
  "compacted_follower =
     demo_follower\<lparr>last_included_index := 5, last_included_term := 1, commit_index := 5, last_applied := 5\<rparr>"

definition demo_resend :: AppendEntriesRPC where
  "demo_resend =
     \<lparr> ae_term = 1, ae_leader_id = 2, ae_prev_log_index = 0, ae_prev_log_term = 0,
       ae_entries = [demo_entry 1 0], ae_leader_commit = 0 \<rparr>"

definition demo_ballot :: "NodeId \<Rightarrow> input" where
  "demo_ballot n =
     Receive (RequestVote \<lparr> rv_term = 2, rv_candidate_id = n, rv_last_log_index = 2, rv_last_log_term = 1 \<rparr>)"

lemmas demo_nodes [exec] =
  demo_entry_def demo_follower_def demo_leader_def demo_candidate_def demo_append_def demo_success_def
  demo_grant_def demo_ballot_def demo_snapshot_def five_leader_def ahead_follower_def
  demo_refusal_def compacted_follower_def demo_resend_def

lemmas predicates =
  core_inv_def has_room_def log_ok_def keyed_def tracks_def next_bounded_def lli_def read_majority_def
  starts_inside_def respects_commit_def response_inside_def snapshot_agrees_def

section \<open>The core as a whole\<close>



text \<open>C7: over any sequence of operations a node grants its vote to at most one candidate per term.\<close>

theorem one_vote_per_term:
  assumes "run_ops (\<lambda>(rng, i). core_step rng i) steps s = Some (as, s')"
    and "SendMessage c (RequestVoteResponse r) \<in> set as" "rvr_vote_granted r"
    and "SendMessage c' (RequestVoteResponse r') \<in> set as" "rvr_vote_granted r'"
    and "rvr_term r = rvr_term r'"
  shows "c = c'"
  using assms by (rule core.run_one_vote_per_term)

theorem one_vote_per_term_witness:
  "\<exists>as s' c c' r. run_ops (\<lambda>(rng, i). core_step rng i)
       [(demo_rng, demo_ballot 3), (demo_rng, demo_ballot 2), (demo_rng, demo_ballot 3)] demo_follower =
         Some (as, s') \<and>
     SendMessage c (RequestVoteResponse r) \<in> set as \<and> rvr_vote_granted r \<and>
     SendMessage c' (RequestVoteResponse r) \<in> set as \<and> c = c'"
proof -
  obtain as s' where run: "run_ops (\<lambda>(rng, i). core_step rng i)
       [(demo_rng, demo_ballot 3), (demo_rng, demo_ballot 2), (demo_rng, demo_ballot 3)] demo_follower =
         Some (as, s')"
    and m: "SendMessage 3 (RequestVoteResponse \<lparr> rvr_id = 1, rvr_term = 2, rvr_vote_granted = True \<rparr>) \<in> set as"
    by (simp add: exec)
  from one_vote_per_term [OF run m _ m] have "(3::nat) = 3" by simp
  with run m show ?thesis by (metis RequestVoteResponseRPC.select_convs(3))
qed

text \<open>C8: for every operation and every prefix of its actions, the metadata on disk after the prefix lies
  between the old and the new metadata of the node, and is the new one as soon as the prefix contains
  a send: a vote or a term is on disk before anyone hears of it.\<close>

theorem metadata_before_send:
  assumes "core_step rng i s = Some (as, s')"
  shows "meta_le (metadata s) (disk_meta (metadata s) (take k as)) \<and>
     meta_le (disk_meta (metadata s) (take k as)) (metadata s') \<and>
     (list_ex is_send (take k as) \<longrightarrow> disk_meta (metadata s) (take k as) = metadata s')"
  using core_step_contract [OF assms] by (intro durable_sends_prefix) (simp add: op_contract_def)

theorem metadata_before_send_witness:
  "\<exists>as s'. core_step demo_rng (demo_ballot 3) demo_follower = Some (as, s') \<and>
     meta_le (disk_meta (metadata demo_follower) (take 1 as)) (metadata s')"
proof -
  obtain as s' where c: "core_step demo_rng (demo_ballot 3) demo_follower = Some (as, s')"
    by (simp add: exec)
  from metadata_before_send [OF c, of 1] c show ?thesis by blast
qed

section \<open>Replication\<close>

text \<open>C9: an AppendEntries request that starts inside the part of the log that the node has not compacted,
  does not contradict its committed entries and does not overflow its indices never panics on a node
  whose indices are in order, whatever its outcome; it leaves them in order, never lowers the commit
  index, hands to the state machine exactly the entries between the old and the new commit index, in
  order, and keeps the log on disk equal to the log in memory.\<close>

theorem append_entries_effect:
  assumes "rng_ok rng" and "fst (election_timeout_range s) < snd (election_timeout_range s)"
    and "log_ok s" and "starts_inside req s" and "respects_commit req s"
    and "lli s + length (ae_entries req) + 1 < u64_bound"
  shows "\<exists>as s'. handle_append_entries rng req s = Some (as, s') \<and> log_ok s' \<and>
     commit_index s \<le> commit_index s' \<and>
     applied as = map (logged s') [last_applied s + 1..<last_applied s' + 1] \<and>
     disk_replay as (log_frames s) = log_frames s'"
  using handle_append_entries_effect [OF assms] unfolding append_effect_def .

theorem append_entries_effect_witness:
  "\<exists>as s'. handle_append_entries demo_rng demo_append demo_follower = Some (as, s') \<and> log_ok s' \<and>
     commit_index demo_follower \<le> commit_index s' \<and>
     applied as = map (logged s') [last_applied demo_follower + 1..<last_applied s' + 1] \<and>
     disk_replay as (log_frames demo_follower) = log_frames s'"
  by (rule append_entries_effect) (simp_all add: demo_rng_ok predicates demo_nodes)

text \<open>C10: the loop that overwrites and appends entries one by one computes the merge: entries of equal term
  are kept, the first entry of a different term replaces the rest of the log.\<close>

theorem append_loop_merges:
  assumes "last_included_index s < i" and "i \<le> lli s + 1" and "lli s + length es < u64_bound"
  shows "append_loop i es s =
     Some (s\<lparr>log := take (i - last_included_index s - 1) (log s) @
                    merge_entries (drop (i - last_included_index s - 1) (log s)) es\<rparr>)"
  using assms by (rule append_loop_eq)

theorem append_loop_merges_witness:
  "append_loop 2 (ae_entries demo_append) demo_follower =
     Some (demo_follower\<lparr>log := take 1 (log demo_follower) @ ae_entries demo_append\<rparr>)"
  using append_loop_merges [of demo_follower 2 "ae_entries demo_append"]
  by (simp add: demo_nodes lli_def)



section \<open>Elections\<close>

text \<open>C12: a vote is granted exactly when the candidate's term is not behind, the node has not voted for
  someone else in that term, and the candidate's log is at least as up to date; and a granted vote is
  recorded.\<close>

theorem vote_granted_iff:
  assumes "handle_request_vote rng req s = Some (as, s')"
  shows "(\<exists>r. SendMessage (rv_candidate_id req) (RequestVoteResponse r) \<in> set as \<and> rvr_vote_granted r) =
       (current_term s \<le> rv_term req \<and>
        (current_term s < rv_term req \<or> voted_for s = None \<or> voted_for s = Some (rv_candidate_id req)) \<and>
        (\<exists>t. last_log_term s = Some t \<and>
             (t < rv_last_log_term req \<or> rv_last_log_term req = t \<and> lli s \<le> rv_last_log_index req)))"
  using assms
proof (cases rule: handle_request_vote_Some)
  case (rejected pa s1)
  have "last_log_term s1 = last_log_term s" "lli s1 = lli s"
    using check_msg_term_transfer [OF rejected(1)] log_term_at_cong [of s1 s]
    by (auto simp: last_log_term_def last_log_index_def lli_def)
  with rejected(4) check_msg_term_Some [OF rejected(1)] have
    "\<not> (current_term s \<le> rv_term req \<and>
        (current_term s < rv_term req \<or> voted_for s = None \<or> voted_for s = Some (rv_candidate_id req)) \<and>
        (\<exists>t. last_log_term s = Some t \<and>
             (t < rv_last_log_term req \<or> rv_last_log_term req = t \<and> lli s \<le> rv_last_log_index req)))"
    by (auto simp: can_vote_def log_check_def split: option.splits)
  moreover have "\<not> (\<exists>r. SendMessage (rv_candidate_id req) (RequestVoteResponse r) \<in> set as \<and> rvr_vote_granted r)"
    using rejected(3) check_msg_term_Some [OF rejected(1)] by (auto simp: vote_response_def)
  ultimately show ?thesis by blast
next
  case (granted pa s1 tm t)
  have l: "last_log_term s1 = last_log_term s" "lli s1 = lli s"
    using check_msg_term_transfer [OF granted(1)] log_term_at_cong [of s1 s]
    by (auto simp: last_log_term_def last_log_index_def lli_def)
  have "SendMessage (rv_candidate_id req) (RequestVoteResponse
      \<lparr> rvr_id = node_id s1, rvr_term = current_term s1, rvr_vote_granted = True \<rparr>) \<in> set as"
    using granted(7) by (simp add: vote_response_def)
  then have "\<exists>r. SendMessage (rv_candidate_id req) (RequestVoteResponse r) \<in> set as \<and> rvr_vote_granted r"
    by force
  moreover have "current_term s \<le> rv_term req \<and>
        (current_term s < rv_term req \<or> voted_for s = None \<or> voted_for s = Some (rv_candidate_id req))"
    using check_msg_term_Some [OF granted(1)] granted(2,3) by (auto simp: can_vote_def split: option.splits)
  ultimately show ?thesis using granted(4,5) l by (auto simp: log_check_def)
qed

theorem vote_granted_iff_witness:
  "\<exists>as s' r. handle_request_vote demo_rng
       \<lparr> rv_term = 2, rv_candidate_id = 3, rv_last_log_index = 2, rv_last_log_term = 1 \<rparr> demo_follower =
         Some (as, s') \<and>
     SendMessage 3 (RequestVoteResponse r) \<in> set as \<and> rvr_vote_granted r"
proof -
  let ?req = "\<lparr> rv_term = 2, rv_candidate_id = 3, rv_last_log_index = 2, rv_last_log_term = 1 \<rparr>"
  obtain as s' where h: "handle_request_vote demo_rng ?req demo_follower = Some (as, s')"
    by (simp add: exec)
  have "last_log_term demo_follower = Some 1" by (simp add: exec)
  with vote_granted_iff [OF h] h show ?thesis by (simp add: demo_nodes lli_def)
qed

text \<open>C13: a node becomes leader only as a candidate, by a granted vote that gives it more than half of the
  members, in its own term, and its first act is an empty entry of that term at the end of its log.\<close>

theorem elected_by_majority:
  assumes "handle_request_vote_response rng resp s = Some (as, s')"
    and "state s' = Leader" and "state s \<noteq> Leader"
  shows "state s = Candidate \<and> rvr_vote_granted resp \<and> current_term s' = current_term s \<and>
     votes_received s' = insert (rvr_id resp) (votes_received s) \<and>
     length (peers s) + 1 < 2 * card (votes_received s') \<and>
     log s' = log s @ [\<lparr> le_term = current_term s, le_command = [] \<rparr>] \<and>
     (\<exists>msgs. as = PersistLogEntries (lli s + 1) [\<lparr> le_term = current_term s, le_command = [] \<rparr>] # msgs)"
  using assms(1)
proof (cases rule: handle_request_vote_response_Some)
  case (ignored pa s1)
  with check_msg_term_Some [OF ignored(1)] assms(2,3) show ?thesis by auto
next
  case (counted s1)
  with assms(2) show ?thesis by simp
next
  case (elected s1)
  have "lli s1 = lli s" by (simp add: elected(4) lli_def)
  with become_leader_Some [OF elected(6)] elected(2,3,4,5) show ?thesis
    by (auto simp: has_quorum_def)
qed

theorem elected_by_majority_witness:
  "\<exists>as s'. handle_request_vote_response demo_rng demo_grant demo_candidate = Some (as, s') \<and>
     length (peers demo_candidate) + 1 < 2 * card (votes_received s')"
proof -
  obtain as s' where h: "handle_request_vote_response demo_rng demo_grant demo_candidate = Some (as, s')"
    and l: "state s' = Leader"
    by (simp add: exec)
  have "state demo_candidate \<noteq> Leader" by (simp add: demo_nodes)
  with elected_by_majority [OF h l] h show ?thesis by blast
qed

text \<open>A node that is not leader and hears nothing stands for election in the next term when its
  timeout has passed, and asks every peer for its vote.\<close>

lemma election_after_timeout:
  assumes "rng_ok rng" and "fst (election_timeout_range s) < snd (election_timeout_range s)"
    and "state s \<noteq> Leader" and "lli s + 1 < u64_bound" and "current_term s + 1 < u64_bound"
    and "ticks_since_last_heartbeat s + Suc n = election_timeout s" and "election_timeout s < u64_bound"
  shows "\<exists>as s'. run_ops (\<lambda>(rng, i). core_step rng i) (replicate (Suc n) (rng, Tick)) s = Some (as, s') \<and>
     state s' = Candidate \<and> current_term s' = current_term s + 1 \<and>
     (\<forall>p\<in>set (peers s). \<exists>r. SendMessage p (RequestVote r) \<in> set as \<and> rv_term r = current_term s + 1)"
  using assms
proof (induction n arbitrary: s)
  case 0
  then obtain as s' where t: "tick rng s = Some (as, s')"
    using tick_total [of rng s] by auto
  let ?s1 = "s\<lparr>ticks_since_last_heartbeat := ticks_since_last_heartbeat s + 1\<rparr>"
  from tick_cases [OF t] 0(3) have e: "election_timeout_check rng ?s1 = Some (as, s')" by simp
  from election_timeout_check_Some [OF e] 0(6) obtain tm req where
    s': "s' = candidate_of tm ?s1" and r: "rv_term req = current_term s + 1"
    and as: "as = PersistMetadata (current_term s + 1) (Some (node_id s)) #
             map (\<lambda>p. SendMessage p (RequestVote req)) (peers s)"
    by auto
  have "SendMessage p (RequestVote req) \<in> set as" if "p \<in> set (peers s)" for p
    using that by (simp add: as)
  with t s' r show ?case by auto
next
  case (Suc n)
  let ?s1 = "s\<lparr>ticks_since_last_heartbeat := ticks_since_last_heartbeat s + 1\<rparr>"
  have t: "tick rng s = Some ([], ?s1)" using Suc.prems by (intro tick_waits) auto
  have "lli ?s1 = lli s" by (simp add: lli_def)
  with Suc.prems Suc.IH [of ?s1] t show ?case by simp
qed

text \<open>A leader that has not sent anything for the heartbeat interval sends an AppendEntries request
  or a snapshot to every peer and starts counting again.\<close>

lemma heartbeat_sent:
  assumes "state s = Leader" and "heartbeat_interval s \<le> ticks_since_last_heartbeat s + 1"
    and "ticks_since_last_heartbeat s + 1 < u64_bound" and "lli s + 1 < u64_bound" and "next_bounded s"
  shows "\<exists>as s'. tick rng s = Some (as, s') \<and> s' = s\<lparr>ticks_since_last_heartbeat := 0\<rparr> \<and>
     list_all2 (\<lambda>p a. (\<exists>r. a = SendMessage p (AppendEntries r) \<and> ae_term r = current_term s \<and>
                          ae_leader_commit r = commit_index s) \<or>
                     a = install_snapshot_for_peer s p) (peers s) as"
proof -
  let ?s1 = "s\<lparr>ticks_since_last_heartbeat := ticks_since_last_heartbeat s + 1\<rparr>"
  have "lli ?s1 = lli s" "next_bounded ?s1"
    using assms(5) by (simp_all add: lli_def next_bounded_def)
  with append_entries_total [of ?s1] assms(4) obtain as where a: "append_entries ?s1 = Some as" by auto
  have "tick rng s = Some (as, s\<lparr>ticks_since_last_heartbeat := 0\<rparr>)"
    using assms(1,2,3) a by (simp add: tick_def heartbeat_def)
  moreover have "list_all2 (\<lambda>p a. build_append_entries_for_peer ?s1 p = Some a) (peers s) as"
    using a by (simp add: append_entries_def map_opt_eq_Some)
  then have "list_all2 (\<lambda>p a. (\<exists>r. a = SendMessage p (AppendEntries r) \<and> ae_term r = current_term s \<and>
                          ae_leader_commit r = commit_index s) \<or>
                     a = install_snapshot_for_peer s p) (peers s) as"
    by (rule list_all2_mono) (erule build_append_entries_cases; auto simp: install_snapshot_for_peer_def)
  ultimately show ?thesis by blast
qed

section \<open>Snapshots\<close>

text \<open>C20: what a received snapshot does.  On a node whose indices are in order and a snapshot that agrees with
  what the node has committed, the handler does not panic.  A request of an earlier term changes nothing
  and is answered with the node's own snapshot position.  Otherwise the node follows the sender; a
  snapshot that its snapshot covers, or whose last entry its log has, is acknowledged and leaves the log
  and the commit index as they were; any other one replaces the log, is to be installed by the driver
  before it is acknowledged, and becomes the commit and apply position.  The indices stay in order, the
  commit index does not move back, no entry is applied, and the log on disk equals the log in memory.\<close>

theorem install_snapshot_keeps:
  assumes "rng_ok rng" and "fst (election_timeout_range s) < snd (election_timeout_range s)"
    and "log_ok s" and "snapshot_agrees req s"
  shows "\<exists>as s'. handle_install_snapshot rng req s = Some (as, s') \<and> log_ok s' \<and>
     commit_index s \<le> commit_index s' \<and> applied as = [] \<and> disk_replay as (log_frames s) = log_frames s' \<and>
     (is_term req < current_term s \<and> s' = s \<and>
        as = [snapshot_response s (is_leader_id req) (last_included_index s)] \<or>
      current_term s \<le> is_term req \<and> current_term s' = is_term req \<and>
      current_leader s' = Some (is_leader_id req) \<and> ticks_since_last_heartbeat s' = 0 \<and> state s' \<noteq> Candidate \<and>
      (if is_last_included_index req \<le> last_included_index s \<or>
          log_term_at s (is_last_included_index req) = Some (is_last_included_term req)
       then log s' = log s \<and> last_included_index s' = last_included_index s \<and>
         last_included_term s' = last_included_term s \<and> commit_index s' = commit_index s \<and>
         last_applied s' = last_applied s \<and>
         (\<exists>pa. as = pa @ [snapshot_response s' (is_leader_id req)
                 (max (last_included_index s) (is_last_included_index req))] \<and> list_all persists_metadata pa)
       else log s' = [] \<and> last_included_index s' = is_last_included_index req \<and>
         last_included_term s' = is_last_included_term req \<and> commit_index s' = is_last_included_index req \<and>
         last_applied s' = is_last_included_index req \<and>
         (\<exists>pa. as = pa @
            [InstallSnapshot (is_last_included_index req) (is_last_included_term req) (is_data req),
             snapshot_response s' (is_leader_id req) (is_last_included_index req)] \<and>
            list_all persists_metadata pa)))"
proof -
  from handle_install_snapshot_total [OF assms(1,2)] obtain as s' where
    h: "handle_install_snapshot rng req s = Some (as, s')" by blast
  from handle_install_snapshot_effect [OF h assms(3,4)] handle_install_snapshot_outcome [OF h] show ?thesis
    unfolding install_effect_def by (intro exI [of _ as] exI [of _ s'] conjI h) (elim conjE; assumption)+
qed

theorem install_snapshot_keeps_witness:
  "\<exists>as s'. handle_install_snapshot demo_rng demo_snapshot demo_follower = Some (as, s') \<and> log_ok s' \<and>
     log s' = [] \<and> last_included_index s' = 4 \<and> commit_index s' = 4 \<and> InstallSnapshot 4 2 [1] \<in> set as"
proof -
  have "log_ok demo_follower" "snapshot_agrees demo_snapshot demo_follower"
    "log_term_at demo_follower (is_last_included_index demo_snapshot) \<noteq> Some (is_last_included_term demo_snapshot)"
    "\<not> is_last_included_index demo_snapshot \<le> last_included_index demo_follower"
    "\<not> is_term demo_snapshot < current_term demo_follower"
    by (simp_all add: predicates demo_nodes log_term_at_def log_entry_at_def)
  with install_snapshot_keeps [OF demo_rng_ok, of demo_follower demo_snapshot] show ?thesis
    by (auto simp: demo_follower_def demo_snapshot_def)
qed

text \<open>C21: compaction with the metadata that the node prepared keeps the last index, every term from the
  snapshot on and every entry behind it, and the frames behind the snapshot are the frames of the new
  log.\<close>

theorem compaction_keeps_log:
  assumes "core_inv s"
  shows "\<exists>m s'. prepare_snapshot s = Some m \<and> complete_snapshot m s = Some s' \<and>
     last_included_index s' = last_applied s \<and> lli s' = lli s \<and>
     (\<forall>i. last_included_index s' \<le> i \<longrightarrow> log_term_at s' i = log_term_at s i) \<and>
     (\<forall>i. last_included_index s' < i \<longrightarrow> log_entry_at s' i = log_entry_at s i) \<and>
     log_frames s' = filter (\<lambda>f. last_included_index s' < fst f) (log_frames s)"
proof -
  from take_snapshot_keeps [OF assms] obtain s' where t: "core_step demo_rng TakeSnapshot s = Some ([], s')"
    "same_log_behind s s'" "last_included_index s' = last_applied s"
    "log_frames s' = filter (\<lambda>f. last_included_index s' < fst f) (log_frames s)" by metis
  from t(1) obtain m where "prepare_snapshot s = Some m" "complete_snapshot m s = Some s'"
    by (auto simp: opt_bind)
  with t(2-4) show ?thesis unfolding same_log_behind_def by blast
qed

theorem compaction_keeps_log_witness:
  "\<exists>m s'. prepare_snapshot demo_leader = Some m \<and> complete_snapshot m demo_leader = Some s' \<and>
     last_included_index s' = last_applied demo_leader \<and> lli s' = lli demo_leader"
proof -
  have "core_inv demo_leader" by (simp add: predicates demo_nodes)
  from compaction_keeps_log [OF this] show ?thesis by blast
qed

section \<open>Read barriers and the search for a conflict\<close>

text \<open>C29: a response releases exactly the read barriers for which enough successes have been counted since
  they were created, and only when it is a success that does not end the node's leadership.\<close>

theorem read_barrier_released_iff:
  assumes "handle_append_entries_response rng resp s = Some (as, s')"
  shows "ReadBarrierReady b \<in> set as \<longleftrightarrow>
     aer_success resp \<and> aer_term resp \<le> current_term s \<and>
     (\<exists>c. (b, c) \<in> set (read_barriers s) \<and> c + read_majority s \<le> append_entries_count s + 1)"
  using assms
proof (cases rule: handle_append_entries_response_Some)
  case (success pa s1 s2 a s3 r)
  from leader_commit_Some(1) [OF success(4)] obtain k where
    s3: "s3 = s2\<lparr>commit_index := k, last_applied := k\<rparr>" by blast
  have s2: "read_barriers s3 = read_barriers s1" "append_entries_count s3 = append_entries_count s1 + 1"
    "read_majority s3 = read_majority s1"
    using record_success_Some [OF success(3)] by (simp_all add: s3 read_majority_def)
  have no: "ReadBarrierReady b \<notin> set (opt_list pa)" "ReadBarrierReady b \<notin> set a"
    using check_msg_term_Some [OF success(1)] success(4)
    by (auto simp: leader_commit_def opt_bind Let_def apply_actions_def)
  then have "ReadBarrierReady b \<in> set as \<longleftrightarrow>
      (\<exists>c. (b, c) \<in> set (read_barriers s1) \<and> c + read_majority s1 \<le> append_entries_count s1 + 1)"
    using release_barriers_Some(2) [OF success(5)] success(6) s2 by (auto simp: image_iff)
  with check_msg_term_Some [OF success(1)] success(2) show ?thesis by auto
next
  case (failure pa s1 m)
  have "ReadBarrierReady b \<noteq> m"
    using failure(4) by (cases rule: build_append_entries_cases) (auto simp: install_snapshot_for_peer_def)
  with check_msg_term_Some [OF failure(1)] failure(2,5) show ?thesis by auto
qed

theorem read_barrier_released_iff_witness:
  "\<exists>as s'. handle_append_entries_response demo_rng demo_success demo_leader = Some (as, s') \<and>
     ReadBarrierReady 1 \<in> set as"
proof -
  obtain as s' where h: "handle_append_entries_response demo_rng demo_success demo_leader = Some (as, s')"
    by (simp add: exec)
  with read_barrier_released_iff [OF h, of 1] show ?thesis
    by (auto simp: demo_nodes read_majority_def)
qed

section \<open>Behaviours that contradict the protocol\<close>

text \<open>A leader that learns of a higher term by a refused request answers it with a request of that
  higher term, although it is no longer leader; the peer accepts it and takes the sender for the leader
  of the term.\<close>

lemma deposed_leader_is_followed:
  "\<exists>r as1 s1 as2 s2.
     handle_append_entries_response demo_rng demo_refusal demo_leader = Some (as1, s1) \<and>
     state s1 = Follower \<and> SendMessage 2 (AppendEntries r) \<in> set as1 \<and> ae_term r = 5 \<and>
     handle_append_entries demo_rng r ahead_follower = Some (as2, s2) \<and> current_leader s2 = Some 1"
  by (simp add: exec)

text \<open>A request with no entries and no previous index is acknowledged with the last index of the
  receiver, whatever its log holds: the acknowledged entries have not been compared with the sender's.\<close>

lemma empty_request_acknowledges_all:
  assumes "handle_append_entries rng req s = Some (as, s')" and "ae_prev_log_index req = 0"
    and "ae_entries req = []" and "current_term s \<le> ae_term req" and "state s \<noteq> Leader"
  shows "SendMessage (ae_leader_id req) (AppendEntriesResponse
      \<lparr> aer_id = node_id s, aer_term = ae_term req, aer_match_index = lli s, aer_success = True,
        aer_first_conflicting_index = None, aer_first_conflicting_term = None \<rparr>) \<in> set as"
  using assms(1)
proof (cases rule: handle_append_entries_Some)
  case (refused pa s1)
  with check_msg_term_Some [OF refused(1)] assms(4,5) show ?thesis by auto
next
  case (conflict pa s1 tm r)
  with assms(2) show ?thesis by (simp add: ae_valid_def)
next
  case (accepted pa s1 tm more)
  from accept_append_entries_Some [OF accepted(5)] obtain p s2 a where
    p: "append_new_entries req (following (ae_leader_id req) tm s1) = Some (p, s2)"
    and f: "follower_commit (ae_leader_commit req) s2 = Some (a, s')"
    and m: "more = p @ a @ [append_response (ae_leader_id req) (success_response s' (lli s'))]" .
  from p assms(3) have s2: "s2 = following (ae_leader_id req) tm s1"
    by (auto simp: append_new_entries_def opt_bind)
  from follower_commit_frame [OF f] obtain x y where
    s': "s' = s2\<lparr>commit_index := x, last_applied := y\<rparr>" and l: "lli s' = lli s2" by blast
  have "node_id s1 = node_id s" "lli s1 = lli s" using check_msg_term_Some [OF accepted(1)] by auto
  then show ?thesis
    using m accepted(3,6) s' l by (simp add: s2 append_response_def success_response_def)
qed






text \<open>C31: a leader that starts again from the beginning of its log brings down a node that has compacted its
  own.  A request with entries and no previous index passes the check of the previous index; when the
  receiver accepts the sender's term and its snapshot covers more than the first index, looking up the
  term of the first entry panics.\<close>

theorem resend_panics_on_compacted_log:
  assumes "ae_prev_log_index req = 0" and "ae_entries req \<noteq> []" and "1 < last_included_index s"
    and "current_term s < ae_term req \<or> current_term s = ae_term req \<and> state s \<noteq> Leader"
  shows "handle_append_entries rng req s = None"
proof (rule ccontr)
  assume "handle_append_entries rng req s \<noteq> None"
  then obtain as s' where "handle_append_entries rng req s = Some (as, s')" by auto
  then show False
  proof (cases rule: handle_append_entries_Some)
    case (refused pa s1)
    with check_msg_term_Some [OF refused(1)] assms(4) show False by auto
  next
    case (conflict pa s1 tm r)
    with assms(1) show False by (simp add: ae_valid_def)
  next
    case (accepted pa s1 tm more)
    let ?s = "following (ae_leader_id req) tm s1"
    from accept_append_entries_Some [OF accepted(5)] obtain p s2 where
      p: "append_new_entries req ?s = Some (p, s2)" by metis
    obtain e es where e: "ae_entries req = e # es" using assms(2) by (cases "ae_entries req") auto
    have "last_included_index ?s = last_included_index s"
      using check_msg_term_transfer [OF accepted(1)] by simp
    then have "log_term_at ?s 1 = None" "1 \<le> lli ?s"
      using assms(3) by (auto simp: log_term_at_None lli_def)
    with p show False by (auto simp: append_new_entries_def e assms(1) opt_bind checked last_log_index_eq)
  qed
qed

theorem resend_panics_on_compacted_log_witness:
  "handle_append_entries demo_rng demo_resend compacted_follower = None"
  by (rule resend_panics_on_compacted_log) (simp_all add: demo_nodes)

end
