(* ===== verification/NodeHandles.thy ===== *)
theory NodeHandles
  imports EventLoop
begin

text \<open>
  The handle that the application holds, \<open>RaftNode\<close> of \<open>src/crates/raft-event-loop/src/lib.rs\<close>, together
  with the task it spawns.  The two request channels are queues of at most \<open>CHANNEL_BUFFER\<close> elements
  whose receiving end is the loop: a branch of its \<open>select!\<close> takes the oldest element, and is not
  enabled while its queue is empty.  A call of \<open>propose\<close> or \<open>read_request\<close> makes a new one-shot channel;
  since every call makes one, the channel is the position of the call in the history \<open>node_calls\<close>.  A
  sender waits while its queue is full.  The receivers live as long as the task, so both \<open>expect\<close>s of a
  call can fail only after the task has panicked, which is where a run of the model ends.

  The lemmas show where a call is between its start and its answer, and what the answer \<open>Ok(())\<close> means
  for the command that was proposed.
\<close>

section \<open>The handle\<close>

datatype call =
    ProposeCall bytes
  | ReadCall

record 's RaftNode =
  node_calls :: "call list"
  node_proposal :: "Proposal list"
  node_read :: "reply list"
  node_driver :: "'s RaftDriver"

definition CHANNEL_BUFFER :: nat where
  "CHANNEL_BUFFER = 1024"

text \<open>\<open>send\<close> on a bounded channel; \<open>None\<close> while the sender has to wait.\<close>

definition chan_send :: "'a \<Rightarrow> 'a list \<Rightarrow> 'a list option" where
  "chan_send x q = (if length q < CHANNEL_BUFFER then Some (q @ [x]) else None)"

definition node_new :: "rng \<Rightarrow> 's Storage \<Rightarrow> RaftConfig \<Rightarrow> 's \<Rightarrow> 's RaftNode option" where
  "node_new rng st config s = do {
     driver \<leftarrow> driver_new rng st config s;
     Some \<lparr> node_calls = [], node_proposal = [], node_read = [], node_driver = driver \<rparr> }"

text \<open>The first half of a call: the channel for the answer is made and the request is sent.\<close>

definition node_propose :: "bytes \<Rightarrow> 's RaftNode \<Rightarrow> (reply \<times> 's RaftNode) option" where
  "node_propose command n = do {
     let tx = length (node_calls n);
     q \<leftarrow> chan_send \<lparr> pr_command = command, pr_respond = tx \<rparr> (node_proposal n);
     Some (tx, n\<lparr>node_calls := node_calls n @ [ProposeCall command], node_proposal := q\<rparr>) }"

definition node_read_request :: "'s RaftNode \<Rightarrow> (reply \<times> 's RaftNode) option" where
  "node_read_request n = do {
     let tx = length (node_calls n);
     q \<leftarrow> chan_send tx (node_read n);
     Some (tx, n\<lparr>node_calls := node_calls n @ [ReadCall], node_read := q\<rparr>) }"

text \<open>The second half, \<open>rx.await\<close>: \<open>None\<close> while there is no answer, \<open>Some None\<close> for \<open>Ok(())\<close>.\<close>

definition await_reply :: "reply \<Rightarrow> 's RaftNode \<Rightarrow> ProposalError option option" where
  "await_reply rx n = map_of (drv_replies (node_driver n)) rx"

section \<open>Callers and loop\<close>

datatype node_event =
    CallPropose bytes
  | CallRead
  | LoopTick
  | LoopProposal
  | LoopRead
  | LoopMessage Message

text \<open>The branch of the \<open>select!\<close> that is taken, with what it received.\<close>

fun select_branch :: "node_event \<Rightarrow> 's RaftNode \<Rightarrow> (loop_event \<times> 's RaftNode) option" where
  "select_branch LoopTick n = Some (IntervalTick, n)"
| "select_branch LoopProposal n =
     (case node_proposal n of [] \<Rightarrow> None | p # ps \<Rightarrow> Some (ProposalReceived p, n\<lparr>node_proposal := ps\<rparr>))"
| "select_branch LoopRead n =
     (case node_read n of [] \<Rightarrow> None | r # rs \<Rightarrow> Some (ReadReceived r, n\<lparr>node_read := rs\<rparr>))"
| "select_branch (LoopMessage m) n = Some (MessageReceived m, n)"
| "select_branch _ n = None"

definition node_event_step ::
  "'s Storage \<Rightarrow> answer \<Rightarrow> rng \<times> node_event \<Rightarrow> 's RaftNode \<Rightarrow> 's RaftNode option" where
  "node_event_step st answer e n =
     (case snd e of
        CallPropose command \<Rightarrow> map_option snd (node_propose command n)
      | CallRead \<Rightarrow> map_option snd (node_read_request n)
      | ev \<Rightarrow> do {
          (le, n1) \<leftarrow> select_branch ev n;
          d \<leftarrow> event_step st answer (fst e, le) (node_driver n1);
          Some (n1\<lparr>node_driver := d\<rparr>) })"

text \<open>The states that calls and loop reach in any order, when each step satisfies a condition \<open>G\<close> on
  what is received.\<close>

inductive node_reaches ::
  "'s Storage \<Rightarrow> answer \<Rightarrow> (rng \<times> node_event \<Rightarrow> 's RaftNode \<Rightarrow> bool) \<Rightarrow> 's RaftNode \<Rightarrow> 's RaftNode \<Rightarrow> bool"
  for st answer G n where
  node_start: "node_reaches st answer G n n"
| node_more: "node_reaches st answer G n n1 \<Longrightarrow> G e n1 \<Longrightarrow> node_event_step st answer e n1 = Some n2 \<Longrightarrow>
     node_reaches st answer G n n2"

text \<open>Every step is a call, which leaves the driver alone, or an event of the loop.\<close>

lemma select_branch_Some:
  assumes "select_branch ev n = Some (le, n1)"
  shows "node_driver n1 = node_driver n" and "node_calls n1 = node_calls n"
    and "mset (node_read n) + mset (map pr_respond (node_proposal n)) =
       mset (node_read n1) + mset (map pr_respond (node_proposal n1)) + request_of le"
    and "set (node_proposal n1) \<subseteq> set (node_proposal n)" and "set (node_read n1) \<subseteq> set (node_read n)"
    and "length (node_proposal n1) \<le> length (node_proposal n)" and "length (node_read n1) \<le> length (node_read n)"
    and "le = ProposalReceived p \<Longrightarrow> p \<in> set (node_proposal n)"
    and "le = ReadReceived r \<Longrightarrow> r \<in> set (node_read n)"
  using assms by (cases ev; auto split: list.splits)+

lemma select_message: "select_branch ev n = Some (MessageReceived m, n1) \<Longrightarrow> ev = LoopMessage m"
  by (cases ev) (auto split: list.splits)

lemma node_event_step_cases:
  assumes "node_event_step st answer e n = Some n'"
  obtains (proposal) x where "length (node_proposal n) < CHANNEL_BUFFER"
      "n' = n\<lparr>node_calls := node_calls n @ [ProposeCall x],
         node_proposal := node_proposal n @ [\<lparr> pr_command = x, pr_respond = length (node_calls n) \<rparr>]\<rparr>"
    | (reading) "length (node_read n) < CHANNEL_BUFFER"
      "n' = n\<lparr>node_calls := node_calls n @ [ReadCall], node_read := node_read n @ [length (node_calls n)]\<rparr>"
    | (event) le n1 d where "select_branch (snd e) n = Some (le, n1)"
      "event_step st answer (fst e, le) (node_driver n) = Some d" "n' = n1\<lparr>node_driver := d\<rparr>"
proof -
  have loop: thesis if "Option.bind (select_branch (snd e) n) (\<lambda>(le, n1).
      Option.bind (event_step st answer (fst e, le) (node_driver n1)) (\<lambda>d. Some (n1\<lparr>node_driver := d\<rparr>))) = Some n'"
  proof -
    from that obtain le n1 d where b: "select_branch (snd e) n = Some (le, n1)"
      and d: "event_step st answer (fst e, le) (node_driver n1) = Some d" "n' = n1\<lparr>node_driver := d\<rparr>"
      by (auto simp: opt_bind)
    from d(1) have "event_step st answer (fst e, le) (node_driver n) = Some d"
      by (simp add: select_branch_Some(1) [OF b])
    from event [OF b this d(2)] show thesis .
  qed
  show thesis
  proof (cases "snd e")
    case (CallPropose x)
    with assms show thesis
      by (intro proposal [of x])
        (auto simp: node_event_step_def node_propose_def chan_send_def Let_def opt_bind split: if_splits)
  next
    case CallRead
    with assms show thesis
      by (intro reading)
        (auto simp: node_event_step_def node_read_request_def chan_send_def Let_def opt_bind split: if_splits)
  qed (use assms in \<open>auto simp: node_event_step_def intro!: loop\<close>)
qed

section \<open>Where a call is\<close>

text \<open>A call waits in a channel, waits in the driver or has been answered.\<close>

definition places :: "'s RaftNode \<Rightarrow> reply multiset" where
  "places n = requests (node_driver n) + mset (node_read n) + mset (map pr_respond (node_proposal n))"

definition waits :: "'s RaftNode \<Rightarrow> reply multiset" where
  "waits n = mset (map snd (pending_proposals (node_driver n))) + mset (map snd (pending_reads (node_driver n))) +
     mset (node_read n) + mset (map pr_respond (node_proposal n))"

lemma places_waits: "places n = mset (map fst (drv_replies (node_driver n))) + waits n"
  by (simp add: places_def waits_def requests_def ac_simps)

definition calls_ok :: "'s RaftNode \<Rightarrow> bool" where
  "calls_ok n \<longleftrightarrow>
     waiting_ok (node_driver n) \<and> places n = mset [0..<length (node_calls n)] \<and>
     length (node_proposal n) \<le> CHANNEL_BUFFER \<and> length (node_read n) \<le> CHANNEL_BUFFER"

definition rivalless :: "rng \<times> node_event \<Rightarrow> 's RaftNode \<Rightarrow> bool" where
  "rivalless e n \<longleftrightarrow>
     (case snd e of LoopMessage m \<Rightarrow> no_rival m (drv_core (node_driver n)) | _ \<Rightarrow> True)"

lemma node_new_ok: "node_new rng st config s = Some n \<Longrightarrow> calls_ok n \<and> node_calls n = []"
  by (auto simp: node_new_def driver_new_def opt_bind calls_ok_def waiting_ok_def places_def requests_def)

lemma node_event_step_ok:
  assumes "node_event_step st answer e n = Some n'" and "calls_ok n" and "rivalless e n"
  shows "calls_ok n'"
  using assms(1)
proof (cases rule: node_event_step_cases)
  case (proposal x)
  then show ?thesis using assms(2) by (simp add: calls_ok_def places_def del: mset_upt)
next
  case reading
  then show ?thesis using assms(2) by (simp add: calls_ok_def places_def del: mset_upt)
next
  case (event le n1 d)
  note b = select_branch_Some [OF event(1)]
  have "no_rival m (drv_core (node_driver n))" if "le = MessageReceived m" for m
    using that event(1) assms(3) select_message by (fastforce simp: rivalless_def)
  with event_step_waiting [OF event(2)] assms(2) have
    "waiting_ok d" "requests d = requests (node_driver n) + request_of le" by (auto simp: calls_ok_def)
  moreover have "places n = requests (node_driver n) + (mset (node_read n) + mset (map pr_respond (node_proposal n)))"
    by (simp add: places_def)
  ultimately show ?thesis
    using assms(2) b(6,7) unfolding calls_ok_def places_def event(3) b(3) by (simp add: b(2) ac_simps)
qed

lemma node_reaches_ok:
  assumes "node_reaches st answer G n n'" and "calls_ok n" and "\<And>e n. G e n \<Longrightarrow> rivalless e n"
  shows "calls_ok n'"
  using assms by (induction rule: node_reaches.induct) (auto intro: node_event_step_ok)

lemma node_reaches_mono:
  assumes "node_reaches st answer G n n'" and "\<And>e n. G e n \<Longrightarrow> H e n"
  shows "node_reaches st answer H n n'"
  using assms by (induction rule: node_reaches.induct) (auto intro: node_start node_more)

text \<open>An answered call does not wait any more.\<close>

lemma await_or_wait:
  assumes "calls_ok n" and "r < length (node_calls n)"
  shows "await_reply r n = None \<longleftrightarrow> r \<in># waits n"
proof -
  have p: "mset (map fst (drv_replies (node_driver n))) + waits n = mset [0..<length (node_calls n)]"
    using assms(1) by (simp add: calls_ok_def places_waits)
  have "count (mset (map fst (drv_replies (node_driver n))) + waits n) r = 1"
    unfolding p using assms(2) by simp
  then have "count (mset (map fst (drv_replies (node_driver n)))) r + count (waits n) r = 1"
    by simp
  moreover have "await_reply r n = None \<longleftrightarrow> count (mset (map fst (drv_replies (node_driver n)))) r = 0"
    by (simp add: await_reply_def map_of_eq_None_iff count_eq_zero_iff del: mset_map)
  moreover have "r \<in># waits n \<longleftrightarrow> count (waits n) r \<noteq> 0" by (simp add: count_eq_zero_iff)
  ultimately show ?thesis by linarith
qed

section \<open>What the answer Ok means\<close>

text \<open>The command of a call, the commands of the proposals answered with \<open>Ok(())\<close> and the commands given
  to the application.  Empty commands are not handed over.\<close>

definition proposed :: "call list \<Rightarrow> reply \<Rightarrow> bytes option" where
  "proposed calls r =
     (if r < length calls then (case calls ! r of ProposeCall c \<Rightarrow> Some c | ReadCall \<Rightarrow> None) else None)"

definition acked :: "(reply \<Rightarrow> bytes option) \<Rightarrow> (reply \<times> ProposalError option) list \<Rightarrow> bytes multiset" where
  "acked P rs =
     mset (filter (\<lambda>c. c \<noteq> []) (List.map_filter (\<lambda>(r, e). if e = None then P r else None) rs))"

definition delivered :: "AppliedEntry list \<Rightarrow> bytes multiset" where
  "delivered xs = mset (List.map_filter (\<lambda>a. case a of Command c \<Rightarrow> Some c | _ \<Rightarrow> None) xs)"

definition honest :: "(reply \<Rightarrow> bytes option) \<Rightarrow> 's RaftDriver \<Rightarrow> bool" where
  "honest P d \<longleftrightarrow> acked P (drv_replies d) \<subseteq># delivered (drv_applied d)"

lemma acked_append [simp]: "acked P (xs @ ys) = acked P xs + acked P ys"
  by (simp add: acked_def List.map_filter_def)

lemma acked_one [simp]:
  "acked P [] = {#}"
  "acked P ((r, e) # rs) =
     (if e = None \<and> P r \<noteq> None \<and> P r \<noteq> Some [] then {#the (P r)#} else {#}) + acked P rs"
  by (auto simp: acked_def List.map_filter_def)

lemma delivered_append [simp]: "delivered (xs @ ys) = delivered xs + delivered ys"
  by (simp add: delivered_def List.map_filter_def)

lemma delivered_one [simp]:
  "delivered [] = {#}" "delivered (Command c # xs) = add_mset c (delivered xs)"
  "delivered (AppliedSnapshot b # xs) = delivered xs" "delivered (SnapshotRequest # xs) = delivered xs"
  by (simp_all add: delivered_def List.map_filter_def)

lemma acked_errors: "list_all (\<lambda>x. snd x \<noteq> None) rs \<Longrightarrow> acked P rs = {#}"
  by (induction rs) auto

lemma acked_member: "(r, None) \<in> set rs \<Longrightarrow> P r = Some c \<Longrightarrow> c \<noteq> [] \<Longrightarrow> c \<in># acked P rs"
  by (induction rs) auto

lemma delivered_member: "c \<in># delivered xs \<Longrightarrow> Command c \<in> set xs"
proof (induction xs)
  case (Cons a xs)
  then show ?case by (cases a) auto
qed simp

text \<open>What the application is owed: the entry behind every waiting proposal is its own command and has not
  been applied.\<close>

definition owes :: "(reply \<Rightarrow> bytes option) \<Rightarrow> u64 \<Rightarrow> RaftCore \<Rightarrow> 's RaftDriver \<Rightarrow> bool" where
  "owes P l c d \<longleftrightarrow>
     (\<forall>(i, r)\<in>set (pending_proposals d).
        l < i \<and> (\<exists>e. log_entry_at c i = Some e \<and> P r = Some (le_command e))) \<and>
     (\<forall>(i, r)\<in>set (pending_reads d). P r = None)"

text \<open>A snapshot of the driver compacts the core, behind what has been applied.\<close>

definition compacted :: "RaftCore \<Rightarrow> RaftCore \<Rightarrow> bool" where
  "compacted c c' \<longleftrightarrow>
     (core_inv c \<longrightarrow> core_inv c') \<and> last_applied c' = last_applied c \<and>
     (\<forall>i>last_applied c. log_entry_at c' i = log_entry_at c i)"

lemma compacted_refl [simp]: "compacted c c"
  by (simp add: compacted_def)

lemma compacted_trans: "compacted a b \<Longrightarrow> compacted b c \<Longrightarrow> compacted a c"
  by (simp add: compacted_def)

lemma take_snapshot_Some:
  assumes "take_snapshot st answer d = Some d'"
  shows "drv_replies d' = drv_replies d" and "drv_applied d' = drv_applied d @ [SnapshotRequest]"
    and "pending_proposals d' = pending_proposals d" and "pending_reads d' = pending_reads d"
    and "compacted (drv_core d) (drv_core d')"
proof -
  let ?c = "drv_core d"
  from assms obtain m c s where m: "prepare_snapshot ?c = Some m" and c: "complete_snapshot m ?c = Some c"
    and d': "d' = (send_applied SnapshotRequest d)\<lparr>drv_core := c, drv_storage := s, num_entries := 0\<rparr>"
    by (auto simp: take_snapshot_def opt_bind Let_def send_applied_def)
  then show "drv_replies d' = drv_replies d" "drv_applied d' = drv_applied d @ [SnapshotRequest]"
    "pending_proposals d' = pending_proposals d" "pending_reads d' = pending_reads d"
    by (simp_all add: send_applied_def)
  from m have a: "sm_last_applied m = last_applied ?c" "log_term_at ?c (last_applied ?c) = Some (sm_last_applied_term m)"
    by (auto simp: prepare_snapshot_def opt_bind)
  have s: "same_log_behind ?c c" using complete_snapshot_keeps [OF c] a by simp
  have "c = ?c \<or> last_included_index c = last_applied ?c" "last_applied c = last_applied ?c"
    using complete_snapshot_Some [OF c] a(1) by auto
  moreover have "core_inv c" if "core_inv ?c"
    using take_snapshot_keeps [OF that] m c by (auto simp: opt_bind)
  ultimately show "compacted (drv_core d) (drv_core d')"
    using s by (auto simp: compacted_def same_log_behind_def d')
qed

lemma apply_command_Some:
  assumes "apply_command st answer x d = Some d'"
  shows "drv_replies d' = drv_replies d"
    and "delivered (drv_applied d') = (if x = [] then {#} else {#x#}) + delivered (drv_applied d)"
    and "pending_proposals d' = pending_proposals d" and "pending_reads d' = pending_reads d"
    and "compacted (drv_core d) (drv_core d')"
proof -
  let ?d1 = "\<lambda>k. (send_applied (Command x) d)\<lparr>num_entries := k\<rparr>"
  from assms consider "x = []" "d' = d"
    | k where "x \<noteq> []" "d' = ?d1 k" | k where "x \<noteq> []" "take_snapshot st answer (?d1 k) = Some d'"
    by (auto simp: apply_command_def opt_bind Let_def split: if_splits)
  then have "drv_replies d' = drv_replies d \<and> pending_proposals d' = pending_proposals d \<and>
      pending_reads d' = pending_reads d \<and> compacted (drv_core d) (drv_core d') \<and>
      delivered (drv_applied d') = (if x = [] then {#} else {#x#}) + delivered (drv_applied d)"
  proof cases
    case (3 k)
    from 3(1) take_snapshot_Some [OF 3(2)] show ?thesis by (simp add: send_applied_def)
  qed (simp_all add: send_applied_def)
  then show "drv_replies d' = drv_replies d"
    and "delivered (drv_applied d') = (if x = [] then {#} else {#x#}) + delivered (drv_applied d)"
    and "pending_proposals d' = pending_proposals d" and "pending_reads d' = pending_reads d"
    and "compacted (drv_core d) (drv_core d')"
    by blast+
qed

text \<open>One action: an applied entry settles the proposal that waits for its index, and nothing else answers
  a proposal.\<close>

lemma resolve_proposal_Some:
  assumes "\<And>r. (i, r) \<in> set (pending_proposals d) \<Longrightarrow> P r = Some x"
  shows "acked P (drv_replies (resolve_proposal i d)) \<subseteq>#
      (if x = [] then {#} else {#x#}) + acked P (drv_replies d)"
    and "set (pending_proposals (resolve_proposal i d)) = {p \<in> set (pending_proposals d). fst p \<noteq> i}"
    and "pending_reads (resolve_proposal i d) = pending_reads d"
    and "drv_applied (resolve_proposal i d) = drv_applied d" "drv_core (resolve_proposal i d) = drv_core d"
  using assms
  by (auto simp: resolve_proposal_def reply_to_def AList.delete_eq map_of_eq_None_iff image_iff
      split: option.splits dest!: map_of_SomeD)

lemma handle_action_honest:
  assumes "handle_action st answer a d = Some d'" and "honest P d"
    and "\<And>i x r. a = ApplyToStateMachine i x \<Longrightarrow> (i, r) \<in> set (pending_proposals d) \<Longrightarrow> P r = Some x"
    and "\<And>i r. (i, r) \<in> set (pending_reads d) \<Longrightarrow> P r = None"
  shows "honest P d' \<and> set (pending_reads d') \<subseteq> set (pending_reads d) \<and>
     set (pending_proposals d') = {p \<in> set (pending_proposals d). fst p \<notin> fst ` set (applied [a])} \<and>
     compacted (drv_core d) (drv_core d')"
proof (cases a)
  case (ApplyToStateMachine i x)
  note r = resolve_proposal_Some [of i d P x, OF assms(3) [OF ApplyToStateMachine]]
  let ?x = "if x = [] then {#} else {#x#}"
  from assms(1) ApplyToStateMachine have "apply_command st answer x (resolve_proposal i d) = Some d'"
    by (simp add: handle_action_def)
  note f = apply_command_Some [OF this]
  have "acked P (drv_replies d') \<subseteq># ?x + acked P (drv_replies d)" using r(1) f(1) by simp
  also have "\<dots> \<subseteq># ?x + delivered (drv_applied d)" using assms(2) by (simp add: honest_def)
  also have "\<dots> = delivered (drv_applied d')" using f(2) r(4) by simp
  finally show ?thesis using f r ApplyToStateMachine by (auto simp: honest_def)
next
  case (ReadBarrierReady i)
  with assms show ?thesis
    by (auto simp: handle_action_def resolve_read_def reply_to_def honest_def AList.delete_eq
        split: option.splits dest!: map_of_SomeD)
qed (use assms in \<open>auto simp: handle_action_def opt_bind Let_def send_to_def send_applied_def honest_def\<close>)

lemma handle_actions_honest:
  assumes "handle_actions st answer as d = Some d'" and "honest P d"
    and "\<And>i x r. (i, x) \<in> set (applied as) \<Longrightarrow> (i, r) \<in> set (pending_proposals d) \<Longrightarrow> P r = Some x"
    and "\<And>i r. (i, r) \<in> set (pending_reads d) \<Longrightarrow> P r = None"
  shows "honest P d' \<and> set (pending_reads d') \<subseteq> set (pending_reads d) \<and>
     set (pending_proposals d') = {p \<in> set (pending_proposals d). fst p \<notin> fst ` set (applied as)} \<and>
     compacted (drv_core d) (drv_core d')"
  using assms
proof (induction as arbitrary: d)
  case (Cons a as)
  from Cons.prems(1) obtain d1 where d1: "handle_action st answer a d = Some d1" "handle_actions st answer as d1 = Some d'"
    by (auto simp: opt_bind)
  have a: "set (applied (a # as)) = set (applied [a]) \<union> set (applied as)"
    by (simp split: Action.splits)
  have "P r = Some x" if "a = ApplyToStateMachine i x" "(i, r) \<in> set (pending_proposals d)" for i x r
    using that Cons.prems(3) by auto
  with handle_action_honest [OF d1(1) Cons.prems(2)] Cons.prems(4)
  have h: "honest P d1" "set (pending_reads d1) \<subseteq> set (pending_reads d)" "compacted (drv_core d) (drv_core d1)"
    "set (pending_proposals d1) = {p \<in> set (pending_proposals d). fst p \<notin> fst ` set (applied [a])}"
    by blast+
  have "P r = Some x" if "(i, x) \<in> set (applied as)" "(i, r) \<in> set (pending_proposals d1)" for i x r
    using that h(4) a Cons.prems(3) by (metis (no_types, lifting) UnI2 mem_Collect_eq)
  moreover have "P r = None" if "(i, r) \<in> set (pending_reads d1)" for i r
    using that h(2) Cons.prems(4) by blast
  ultimately show ?case
    using Cons.IH [OF d1(2) h(1)] h(2-4) a compacted_trans by blast
qed simp

section \<open>The log of a leader between two events\<close>

text \<open>The entries behind the last applied one stay, and exactly the next ones are applied.\<close>

definition log_grows :: "RaftCore \<Rightarrow> Action list \<Rightarrow> RaftCore \<Rightarrow> bool" where
  "log_grows s as s' \<longleftrightarrow>
     (\<forall>i>last_applied s. i \<le> lli s \<longrightarrow> log_entry_at s' i = log_entry_at s i) \<and>
     applied as = map (logged s') [last_applied s + 1..<last_applied s' + 1]"

lemma log_grows_same:
  assumes "log s' = log s" and "last_included_index s' = last_included_index s"
    and "last_applied s' = last_applied s" and "applied as = []"
  shows "log_grows s as s'"
  using assms by (simp add: log_grows_def log_entry_at_def Let_def)

lemma applied_none: "list_all (\<lambda>a. applied [a] = []) as \<Longrightarrow> applied as = []"
  by (induction as) (auto split: Action.splits)

lemma append_entries_applied: "append_entries s = Some as \<Longrightarrow> applied as = []"
  unfolding append_entries_def
  by (rule applied_none, erule map_opt_all, erule build_append_entries_cases)
    (simp_all add: install_snapshot_for_peer_def)

lemma propose_grows:
  assumes "propose x s = Some (Some as, s')" and "last_included_index s \<le> last_applied s"
  shows "log_grows s as s'"
    and "log_entry_at s' (lli s + 1) = Some \<lparr>le_term = current_term s, le_command = x\<rparr>"
proof -
  note p = propose_Some [OF assms(1)]
  from p(3) have "applied as = []" by (auto dest: append_entries_applied)
  moreover have "log_entry_at s' i = log_entry_at s i" if "last_applied s < i" "i \<le> lli s" for i
    using that assms(2) p(2)
    by (auto simp: log_entry_at_def Let_def lli_def nth_append)
  ultimately show "log_grows s as s'" using p(2) by (simp add: log_grows_def)
  show "log_entry_at s' (lli s + 1) = Some \<lparr>le_term = current_term s, le_command = x\<rparr>"
    using p(2) by (simp add: log_entry_at_Some lli_def)
qed

lemma response_grows:
  assumes "handle_append_entries_response rng r s = Some (as, s')" and "core_inv s" and "rng_ok rng"
    and "has_room s" and "input_ok (Receive (AppendEntriesResponse r)) s"
  shows "log_grows s as s'"
proof -
  have pre: "fst (election_timeout_range s) < snd (election_timeout_range s)" "log_ok s" "tracks s"
    "response_inside r s" "lli s + 1 < u64_bound" "append_entries_count s + read_majority s + 1 < u64_bound"
    using assms by (auto simp: core_inv_def has_room_def)
  from handle_append_entries_response_effect [OF assms(3) pre] assms(1) have e: "append_effect s as s'" by auto
  have l: "log s1 = log s \<and> last_included_index s1 = last_included_index s"
    if "check_msg_term rng t s = Some (pa, s1)" for t pa s1
    using check_msg_term_Some [OF that] by auto
  have "log s' = log s \<and> last_included_index s' = last_included_index s"
    using assms(1)
  proof (cases rule: handle_append_entries_response_Some)
    case (success pa s1 s2 a s3 b)
    from leader_commit_Some(1) [OF success(4)] obtain k where
      "s3 = s2\<lparr>commit_index := k, last_applied := k\<rparr>" by blast
    moreover obtain B where "s' = s3\<lparr>read_barriers := B\<rparr>" using release_barriers_Some(1) [OF success(5)] by blast
    ultimately show ?thesis using l [OF success(1)] by (simp add: record_success_Some [OF success(3)])
  next
    case (failure pa s1 m)
    with l [OF failure(1)] show ?thesis by (simp add: record_failure_def)
  qed
  with e show ?thesis by (simp add: log_grows_def append_effect_def log_entry_at_def Let_def)
qed

text \<open>A leader is not replaced by an \<open>AppendEntries\<close> request of a later term.\<close>

definition no_takeover :: "Message \<Rightarrow> RaftCore \<Rightarrow> bool" where
  "no_takeover m c \<longleftrightarrow>
     (case m of AppendEntries r \<Rightarrow> state c = Leader \<longrightarrow> ae_term r \<le> current_term c | _ \<Rightarrow> True)"

lemma dispatch_grows:
  assumes "dispatch_message rng m s = Some (as, s')" and "state s = Leader" and "core_inv s" and "rng_ok rng"
    and "has_room s" and "input_ok (Receive m) s" and "no_takeover m s"
  shows "log_grows s as s' \<or> state s' \<noteq> Leader \<and> applied as = []"
proof -
  have c: "log s1 = log s \<and> last_included_index s1 = last_included_index s \<and>
      last_applied s1 = last_applied s \<and> applied (opt_list pa) = [] \<and> (state s1 = Leader \<longrightarrow> s1 = s)"
    if "check_msg_term rng t s = Some (pa, s1)" for t pa s1
    using check_msg_term_Some [OF that] by auto
  show ?thesis
  proof (cases m)
    case (RequestVote r)
    with assms(1) have "handle_request_vote rng r s = Some (as, s')" by (simp add: dispatch_message_def)
    then show ?thesis
    proof (cases rule: handle_request_vote_Some)
      case (rejected pa s1)
      with c [OF rejected(1)] show ?thesis by (intro disjI1 log_grows_same) (auto simp: vote_response_def)
    next
      case (granted pa s1 tm t)
      with c [OF granted(1)] show ?thesis by (intro disjI1 log_grows_same) (auto simp: vote_response_def)
    qed
  next
    case (RequestVoteResponse r)
    with assms(1) have "handle_request_vote_response rng r s = Some (as, s')" by (simp add: dispatch_message_def)
    then show ?thesis
    proof (cases rule: handle_request_vote_response_Some)
      case (ignored pa s1)
      with c [OF ignored(1)] show ?thesis by (intro disjI1 log_grows_same) auto
    qed (use assms(2) in simp_all)
  next
    case (AppendEntries r)
    with assms(1) have "handle_append_entries rng r s = Some (as, s')" by (simp add: dispatch_message_def)
    then show ?thesis
    proof (cases rule: handle_append_entries_Some)
      case (refused pa s1)
      with c [OF refused(1)] show ?thesis by (intro disjI1 log_grows_same) (auto simp: append_response_def)
    next
      case (conflict pa s1 tm q)
      with check_msg_term_Some [OF conflict(1)] AppendEntries assms(2,7) show ?thesis
        by (auto simp: no_takeover_def)
    next
      case (accepted pa s1 tm more)
      with check_msg_term_Some [OF accepted(1)] AppendEntries assms(2,7) show ?thesis
        by (auto simp: no_takeover_def)
    qed
  next
    case (AppendEntriesResponse r)
    with assms response_grows [of rng r s as s'] show ?thesis by (simp add: dispatch_message_def)
  next
    case (InstallSnapshotMsg r)
    with assms(1) have "handle_install_snapshot rng r s = Some (as, s')" by (simp add: dispatch_message_def)
    then show ?thesis
    proof (cases rule: handle_install_snapshot_Some)
      case (stale pa s1)
      with c [OF stale(1)] show ?thesis by (intro disjI1 log_grows_same) (auto simp: snapshot_response_def)
    next
      case (known pa s1 st tm i)
      with c [OF known(1)] show ?thesis by (intro disjI1 log_grows_same) (auto simp: snapshot_response_def)
    next
      case (replaced pa s1 st tm)
      with c [OF replaced(1)] assms(2,6) InstallSnapshotMsg have "st \<noteq> Leader" by auto
      with replaced c [OF replaced(1)] show ?thesis
        by (intro disjI2) (auto simp: installed_def snapshot_response_def)
    qed
  next
    case (InstallSnapshotResponse r)
    with assms(1) have "handle_install_snapshot_response rng r s = Some (as, s')" by (simp add: dispatch_message_def)
    then show ?thesis
    proof (cases rule: handle_install_snapshot_response_Some)
      case (1 pa s1)
      with c [OF 1(1)] show ?thesis by (intro disjI1 log_grows_same) auto
    qed
  qed
qed

section \<open>Every event keeps the promise\<close>

definition promise :: "(reply \<Rightarrow> bytes option) \<Rightarrow> 's RaftDriver \<Rightarrow> bool" where
  "promise P d \<longleftrightarrow>
     core_inv (drv_core d) \<and> honest P d \<and> owes P (last_applied (drv_core d)) (drv_core d) d"

lemma actions_promise:
  assumes "handle_actions st answer as d = Some d'" and "honest P d" and "core_inv (drv_core d)"
    and "owes P l (drv_core d) d"
    and "applied as = map (logged (drv_core d)) [l + 1..<last_applied (drv_core d) + 1]"
  shows "promise P d'"
proof -
  let ?c = "drv_core d" and ?c' = "drv_core d'"
  have "P r = Some x" if "(i, x) \<in> set (applied as)" "(i, r) \<in> set (pending_proposals d)" for i x r
    using that assms(4,5) by (fastforce simp: owes_def log_entry_at_Some logged_def)
  moreover have "P r = None" if "(i, r) \<in> set (pending_reads d)" for i r
    using that assms(4) by (fastforce simp: owes_def)
  ultimately have h: "honest P d'" "set (pending_reads d') \<subseteq> set (pending_reads d)" "compacted ?c ?c'"
    "set (pending_proposals d') = {p \<in> set (pending_proposals d). fst p \<notin> fst ` set (applied as)}"
    using handle_actions_honest [OF assms(1,2)] by blast+
  have "fst ` set (applied as) = {l + 1..<last_applied ?c + 1}"
    using assms(5) by (auto simp: logged_def image_iff)
  then have "last_applied ?c < i" "(i, r) \<in> set (pending_proposals d)"
    if "(i, r) \<in> set (pending_proposals d')" for i r
    using that h(4) assms(4) by (force simp: owes_def)+
  then have "owes P (last_applied ?c') ?c' d'"
    using assms(4) h(2,3) unfolding owes_def compacted_def by fastforce
  with h(1,3) assms(3) show ?thesis by (simp add: promise_def compacted_def)
qed

lemma owesI:
  assumes "\<And>i r. (i, r) \<in> set (pending_proposals d) \<Longrightarrow>
      l < i \<and> (\<exists>e. log_entry_at c i = Some e \<and> P r = Some (le_command e))"
    and "\<And>i r. (i, r) \<in> set (pending_reads d) \<Longrightarrow> P r = None"
  shows "owes P l c d"
  using assms unfolding owes_def by blast

lemma owesD:
  assumes "owes P l c d"
  shows "(i, r) \<in> set (pending_proposals d) \<Longrightarrow>
      l < i \<and> (\<exists>e. log_entry_at c i = Some e \<and> P r = Some (le_command e))"
    and "(i, r) \<in> set (pending_reads d) \<Longrightarrow> P r = None"
  using assms unfolding owes_def by blast+

lemma owes_grown:
  assumes "owes P (last_applied s) s d" and "log_grows s as c"
  shows "owes P (last_applied s) c d"
proof (rule owesI)
  fix i r
  assume "(i, r) \<in> set (pending_proposals d)"
  from owesD(1) [OF assms(1) this] obtain e where
    e: "last_applied s < i" "log_entry_at s i = Some e" "P r = Some (le_command e)" by blast
  then have "i \<le> lli s" by (simp add: log_entry_at_Some)
  with e assms(2) have "log_entry_at c i = Some e" by (simp add: log_grows_def)
  with e show "last_applied s < i \<and> (\<exists>e. log_entry_at c i = Some e \<and> P r = Some (le_command e))" by blast
qed (rule owesD(2) [OF assms(1)])

lemma owes_core [simp]: "owes P l c (d\<lparr>drv_core := x\<rparr>) = owes P l c d"
  by (simp add: owes_def)

lemma honest_fields [simp]:
  "honest P (d\<lparr>drv_core := x\<rparr>) = honest P d" "honest P (d\<lparr>pending_proposals := y\<rparr>) = honest P d"
  by (simp_all add: honest_def)

lemma reply_error_promise [simp]: "promise P (reply_to r (Some e) d) = promise P d"
  by (simp add: promise_def reply_to_def honest_def owes_def)

lemma drain_promise:
  assumes "honest P d" and "core_inv (drv_core d)"
  shows "promise P (drain_pending d)"
proof -
  have "acked P (map (\<lambda>(_, r). (r, Some LostLeadership)) xs) = {#}" for xs :: "(u64 \<times> reply) list"
    by (rule acked_errors) (simp add: list_all_iff case_prod_beta)
  with assms show ?thesis by (simp add: promise_def honest_def owes_def drain_pending_def)
qed

lemma idle_promise:
  assumes "handle_actions st answer as (d\<lparr>drv_core := c\<rparr>) = Some d'" and "honest P d" and "core_inv c"
    and "pending_proposals d = []" and "pending_reads d = []"
  shows "promise P d'"
proof -
  have "honest P d' \<and> pending_proposals d' = [] \<and> pending_reads d' = [] \<and> compacted c (drv_core d')"
    using handle_actions_honest [OF assms(1), of P] assms(2,4,5) by (simp add: honest_def)
  with assms(3) show ?thesis by (simp add: promise_def owes_def compacted_def)
qed

lemma grown_promise:
  assumes "handle_actions st answer as (d\<lparr>drv_core := c\<rparr>) = Some d'" and "promise P d" and "core_inv c"
    and "log_grows (drv_core d) as c"
  shows "promise P d'"
proof (rule actions_promise [OF assms(1)])
  show "owes P (last_applied (drv_core d)) (drv_core (d\<lparr>drv_core := c\<rparr>)) (d\<lparr>drv_core := c\<rparr>)"
    using owes_grown [OF _ assms(4), of P d] assms(2) by (simp add: promise_def)
qed (use assms(2-4) in \<open>simp_all add: log_grows_def promise_def\<close>)

lemma on_tick_promise:
  assumes "on_tick rng st answer d = Some d'" and "promise P d" and "waiting_ok d" and "rng_ok rng"
    and "has_room (drv_core d)"
  shows "promise P d'"
proof -
  let ?s = "drv_core d"
  from assms(1) obtain as c where t: "tick rng ?s = Some (as, c)"
    and h: "handle_actions st answer as (d\<lparr>drv_core := c\<rparr>) = Some d'"
    unfolding on_tick_def by (rule bind_pair_SomeE)
  have c: "core_inv c"
    using core_step_keeps [of ?s rng Tick] assms t by (auto simp: promise_def keeps_def)
  show ?thesis
  proof (cases "state ?s = Leader")
    case True
    with tick_cases [OF t] have "log_grows ?s as c"
      by (intro log_grows_same) (auto dest!: heartbeat_Some simp: append_entries_applied)
    with grown_promise [OF h assms(2) c] show ?thesis .
  next
    case False
    then have "pending_proposals d = []" "pending_reads d = []"
      using assms(3) by (simp_all add: waiting_ok_def is_leader_def)
    with assms(2) show ?thesis by (intro idle_promise [OF h _ c]) (simp_all add: promise_def)
  qed
qed

lemma on_proposal_promise:
  assumes "on_proposal st answer p d = Some d'" and "promise P d" and "waiting_ok d" and "has_room (drv_core d)"
    and "P (pr_respond p) = Some (pr_command p)" and "rng_ok rng"
  shows "promise P d'"
proof -
  let ?s = "drv_core d"
  from assms(1) obtain r c where p: "propose (pr_command p) ?s = Some (r, c)"
    unfolding on_proposal_def by (rule bind_pair_SomeE)
  note rest = assms(1) [unfolded on_proposal_def p Let_def, simplified]
  show ?thesis
  proof (cases r)
    case None
    with p have "c = ?s" by (auto simp: propose_def opt_bind Let_def split: if_splits)
    with rest None have "d' = reply_to (pr_respond p) (Some (FollowerNode (current_leader c))) d" by simp
    with assms(2) show ?thesis by simp
  next
    case (Some as)
    let ?i = "lli ?s + 1"
    let ?d1 = "d\<lparr>drv_core := c, pending_proposals := AList.update ?i (pr_respond p) (pending_proposals d)\<rparr>"
    note q = propose_Some [OF p [unfolded Some]]
    have inv: "core_inv ?s" "last_included_index ?s \<le> last_applied ?s" "last_applied ?s \<le> lli ?s"
      using assms(2) by (auto simp: promise_def core_inv_def log_ok_def)
    note g = propose_grows [OF p [unfolded Some] inv(2)]
    have "core_inv c"
      using core_step_keeps [of ?s rng "Propose (pr_command p)"] inv(1) assms(4,6) p Some by (auto simp: keeps_def)
    moreover from q(3) have "first_persist as = Some ?i" by auto
    with rest Some have "handle_actions st answer as ?d1 = Some d'" by simp
    moreover have "?i \<notin> fst ` set (pending_proposals d)" using assms(3) by (auto simp: waiting_ok_def)
    then have "AList.update ?i (pr_respond p) (pending_proposals d) = pending_proposals d @ [(?i, pr_respond p)]"
      by (rule update_new_key)
    then have u: "pending_proposals ?d1 = pending_proposals d @ [(?i, pr_respond p)]" by simp
    have "owes P (last_applied ?s) c d" using assms(2) g(1) by (auto simp: promise_def intro: owes_grown)
    with u g(2) inv(3) assms(5) have "owes P (last_applied ?s) c ?d1" by (auto simp: owes_def)
    moreover have "honest P ?d1" using assms(2) by (simp add: promise_def)
    ultimately show ?thesis using g(1) by (intro actions_promise [of st answer as ?d1]) (auto simp: log_grows_def)
  qed
qed

lemma on_read_promise:
  assumes "on_read q d = Some d'" and "promise P d" and "P q = None" and "rng_ok rng" and "has_room (drv_core d)"
  shows "promise P d'"
proof -
  let ?s = "drv_core d"
  from assms(1) obtain r c where p: "request_read_barrier ?s = Some (r, c)"
    unfolding on_read_def by (rule bind_pair_SomeE)
  note rest = assms(1) [unfolded on_read_def p Let_def, simplified]
  have "core_inv c"
    using core_step_keeps [of ?s rng ReadBarrier] assms(2,4,5) p by (auto simp: promise_def keeps_def)
  moreover have "log_grows ?s [] c" "last_applied c = last_applied ?s"
    using request_read_barrier_Some [OF p] by (auto intro: log_grows_same)
  ultimately have d: "promise P (d\<lparr>drv_core := c\<rparr>)"
    using assms(2) owes_grown [of P ?s d "[]" c] by (simp add: promise_def)
  show ?thesis
  proof (cases r)
    case None
    with rest d show ?thesis by auto
  next
    case (Some i)
    have "set (AList.update i q (pending_reads d)) \<subseteq> insert (i, q) (set (pending_reads d))"
      by (rule set_update_subset)
    with rest Some d assms(3) show ?thesis by (auto simp: promise_def honest_def owes_def)
  qed
qed

lemma on_message_promise:
  assumes "on_message rng st answer m d = Some d'" and "promise P d" and "waiting_ok d" and "rng_ok rng"
    and "has_room (drv_core d)" and "input_ok (Receive m) (drv_core d)" and "no_takeover m (drv_core d)"
  shows "promise P d'"
proof -
  let ?s = "drv_core d"
  from assms(1) obtain d1 where h: "handle_message rng st answer m d = Some d1"
    and d': "d' = (if is_leader ?s \<and> \<not> is_leader (drv_core d1) then drain_pending d1 else d1)"
    by (auto simp: on_message_def opt_bind Let_def)
  from h obtain as c where t: "dispatch_message rng m ?s = Some (as, c)"
    and a: "handle_actions st answer as (d\<lparr>drv_core := c\<rparr>) = Some d1"
    unfolding handle_message_def by (rule bind_pair_SomeE)
  have inv: "core_inv ?s" "core_inv c"
    using core_step_keeps [of ?s rng "Receive m"] assms t by (auto simp: promise_def keeps_def)
  have l: "is_leader (drv_core d1) = is_leader c"
    using handle_actions_kept [OF a] by (auto simp: driver_kept_def core_kept_def is_leader_def)
  show ?thesis
  proof (cases "state ?s = Leader")
    case False
    then have "pending_proposals d = []" "pending_reads d = []"
      using assms(3) by (simp_all add: waiting_ok_def is_leader_def)
    with assms(2) have "promise P d1" by (intro idle_promise [OF a _ inv(2)]) (simp_all add: promise_def)
    with False d' show ?thesis by (simp add: is_leader_def)
  next
    case True
    from dispatch_grows [OF t True inv(1) assms(4-7)] show ?thesis
    proof
      assume "log_grows ?s as c"
      from grown_promise [OF a assms(2) inv(2) this] d' drain_promise [of P d1] show ?thesis
        by (simp add: promise_def)
    next
      assume n: "state c \<noteq> Leader \<and> applied as = []"
      have "honest P d1 \<and> compacted c (drv_core d1)"
        using handle_actions_honest [OF a, of P] owesD(2) [of P _ ?s d] assms(2) n by (auto simp: promise_def)
      with n True l d' inv(2) drain_promise [of P d1] show ?thesis by (simp add: is_leader_def compacted_def)
    qed
  qed
qed

lemma event_step_promise:
  assumes "event_step st answer e d = Some d'" and "promise P d" and "waiting_ok d" and "rng_ok (fst e)"
    and "has_room (drv_core d)"
    and "\<And>m. snd e = MessageReceived m \<Longrightarrow> input_ok (Receive m) (drv_core d) \<and> no_takeover m (drv_core d)"
    and "\<And>p. snd e = ProposalReceived p \<Longrightarrow> P (pr_respond p) = Some (pr_command p)"
    and "\<And>r. snd e = ReadReceived r \<Longrightarrow> P r = None"
  shows "promise P d'"
proof (cases "snd e")
  case IntervalTick
  with assms show ?thesis by (auto simp: event_step_def intro: on_tick_promise)
next
  case (ProposalReceived p)
  with assms show ?thesis by (auto simp: event_step_def intro: on_proposal_promise)
next
  case (ReadReceived r)
  with assms show ?thesis by (auto simp: event_step_def intro: on_read_promise)
next
  case (MessageReceived m)
  with assms show ?thesis by (auto simp: event_step_def intro: on_message_promise)
qed

section \<open>Answers of a node\<close>

text \<open>A step whose counters do not overflow and whose message is one that the core may assume, and a step
  that does not replace the leader by a request of a later term.\<close>

definition sound_event :: "rng \<times> node_event \<Rightarrow> 's RaftNode \<Rightarrow> bool" where
  "sound_event e n \<longleftrightarrow>
     rng_ok (fst e) \<and> has_room (drv_core (node_driver n)) \<and>
     (case snd e of LoopMessage m \<Rightarrow> input_ok (Receive m) (drv_core (node_driver n)) | _ \<Rightarrow> True)"

definition undisturbed :: "rng \<times> node_event \<Rightarrow> 's RaftNode \<Rightarrow> bool" where
  "undisturbed e n \<longleftrightarrow>
     sound_event e n \<and>
     (case snd e of LoopMessage m \<Rightarrow> no_takeover m (drv_core (node_driver n)) | _ \<Rightarrow> True)"

lemma sound_rivalless: "sound_event e n \<Longrightarrow> rivalless e n"
  by (cases "snd e") (auto simp: sound_event_def rivalless_def no_rival_def split: Message.splits)

definition node_promise :: "'s RaftNode \<Rightarrow> bool" where
  "node_promise n \<longleftrightarrow>
     calls_ok n \<and> promise (proposed (node_calls n)) (node_driver n) \<and>
     (\<forall>p\<in>set (node_proposal n). proposed (node_calls n) (pr_respond p) = Some (pr_command p)) \<and>
     (\<forall>r\<in>set (node_read n). proposed (node_calls n) r = None)"

lemma proposed_older: "r < length calls \<Longrightarrow> proposed (calls @ [c]) r = proposed calls r"
  by (simp add: proposed_def nth_append)

lemma proposed_last:
  "proposed (calls @ [ProposeCall x]) (length calls) = Some x"
  "proposed (calls @ [ReadCall]) (length calls) = None"
  by (simp_all add: proposed_def)

lemma places_bound: "calls_ok n \<Longrightarrow> r \<in># places n \<Longrightarrow> r < length (node_calls n)"
  by (simp add: calls_ok_def)

lemma acked_cong: "\<forall>x\<in>set rs. P' (fst x) = P (fst x) \<Longrightarrow> acked P' rs = acked P rs"
  by (induction rs) auto

lemma promise_cong:
  assumes "promise P d" and "\<And>r. r \<in># requests d \<Longrightarrow> P' r = P r"
  shows "promise P' d"
proof -
  have "acked P' (drv_replies d) = acked P (drv_replies d)"
    using assms(2) by (intro acked_cong) (force simp: requests_def)
  moreover have "owes P' l c d" if o: "owes P l c d" for l c
  proof (rule owesI)
    fix i r
    assume i: "(i, r) \<in> set (pending_proposals d)"
    then have "P' r = P r" using assms(2) by (force simp: requests_def)
    with owesD(1) [OF o i] show "l < i \<and> (\<exists>e. log_entry_at c i = Some e \<and> P' r = Some (le_command e))" by simp
  next
    fix i r
    assume i: "(i, r) \<in> set (pending_reads d)"
    then have "P' r = P r" using assms(2) by (force simp: requests_def)
    with owesD(2) [OF o i] show "P' r = None" by simp
  qed
  ultimately show ?thesis using assms(1) by (simp add: promise_def honest_def)
qed

text \<open>A further call changes nothing for the earlier ones.\<close>

lemma call_promise:
  assumes "node_promise n"
  shows "promise (proposed (node_calls n @ [c])) (node_driver n)"
    and "p \<in> set (node_proposal n) \<Longrightarrow> proposed (node_calls n @ [c]) (pr_respond p) = Some (pr_command p)"
    and "r \<in> set (node_read n) \<Longrightarrow> proposed (node_calls n @ [c]) r = None"
proof -
  have ok: "calls_ok n" using assms by (simp add: node_promise_def)
  have old: "proposed (node_calls n @ [c]) q = proposed (node_calls n) q" if "q \<in># places n" for q
    using proposed_older places_bound [OF ok that] by simp
  have "promise (proposed (node_calls n)) (node_driver n)" using assms by (simp add: node_promise_def)
  then show "promise (proposed (node_calls n @ [c])) (node_driver n)"
    by (rule promise_cong) (rule old, simp add: places_def)
  show "p \<in> set (node_proposal n) \<Longrightarrow> proposed (node_calls n @ [c]) (pr_respond p) = Some (pr_command p)"
    using assms by (subst old) (auto simp: places_def node_promise_def)
  show "r \<in> set (node_read n) \<Longrightarrow> proposed (node_calls n @ [c]) r = None"
    using assms by (subst old) (auto simp: places_def node_promise_def)
qed

lemma node_event_step_promise:
  assumes "node_event_step st answer e n = Some n'" and "node_promise n" and "undisturbed e n"
  shows "node_promise n'"
proof -
  have s: "sound_event e n" using assms(3) by (simp add: undisturbed_def)
  have ok: "calls_ok n'"
    using node_event_step_ok [OF assms(1)] sound_rivalless [OF s] assms(2) by (simp add: node_promise_def)
  note calls = call_promise [OF assms(2)]
  show ?thesis
    using assms(1)
  proof (cases rule: node_event_step_cases)
    case (proposal x)
    with ok calls show ?thesis by (auto simp: node_promise_def proposed_last)
  next
    case reading
    with ok calls show ?thesis by (auto simp: node_promise_def proposed_last)
  next
    case (event le n1 d)
    note b = select_branch_Some [OF event(1)]
    let ?P = "proposed (node_calls n)"
    have "input_ok (Receive m) (drv_core (node_driver n)) \<and> no_takeover m (drv_core (node_driver n))"
      if "le = MessageReceived m" for m
      using select_message [of "snd e" n m] event(1) that assms(3) by (simp add: undisturbed_def sound_event_def)
    moreover have "?P (pr_respond p) = Some (pr_command p)" if "le = ProposalReceived p" for p
      using b(8) [OF that] assms(2) by (simp add: node_promise_def)
    moreover have "?P r = None" if "le = ReadReceived r" for r
      using b(9) [OF that] assms(2) by (simp add: node_promise_def)
    ultimately have "promise ?P d"
      using assms(2) s
      by (intro event_step_promise [OF event(2)]) (auto simp: node_promise_def calls_ok_def sound_event_def)
    with ok b(2,4,5) assms(2) show ?thesis by (auto simp: node_promise_def event(3))
  qed
qed

lemma restore_core_inv:
  assumes "restore_core rng st config s = Some c"
    and "fst (cfg_election_range config) < snd (cfg_election_range config)"
  shows "core_inv c"
  using assms
  by (auto simp: restore_core_def restore_with_snapshot_def restore_def new_def opt_bind core_inv_def log_ok_def
      keyed_def lli_def split: option.splits)

lemma node_new_promise:
  assumes "node_new rng st config s = Some n"
    and "fst (cfg_election_range config) < snd (cfg_election_range config)"
  shows "node_promise n"
proof -
  have "core_inv (drv_core (node_driver n))" "drv_replies (node_driver n) = []" "drv_applied (node_driver n) = []"
    "pending_proposals (node_driver n) = []" "pending_reads (node_driver n) = []"
    "node_proposal n = []" "node_read n = []"
    using assms restore_core_inv [of rng st config s] by (auto simp: node_new_def driver_new_def opt_bind)
  then show ?thesis
    using node_new_ok [OF assms(1)] by (simp add: node_promise_def promise_def honest_def owes_def)
qed

lemma node_reaches_promise:
  assumes "node_reaches st answer undisturbed n n'" and "node_promise n"
  shows "node_promise n'"
  using assms by (induction rule: node_reaches.induct) (auto intro: node_event_step_promise)

text \<open>A confirmed command has been sent to the application.\<close>

lemma promised_command:
  assumes "node_promise n" and "await_reply r n = Some None" and "proposed (node_calls n) r = Some c" and "c \<noteq> []"
  shows "Command c \<in> set (drv_applied (node_driver n))"
proof -
  have "acked (proposed (node_calls n)) (drv_replies (node_driver n)) \<subseteq># delivered (drv_applied (node_driver n))"
    using assms(1) by (simp add: node_promise_def promise_def honest_def)
  moreover have "(r, None) \<in> set (drv_replies (node_driver n))"
    using assms(2) by (auto simp: await_reply_def dest: map_of_SomeD)
  ultimately show ?thesis
    using acked_member [of r "drv_replies (node_driver n)" "proposed (node_calls n)" c] assms(3,4)
    by (blast dest: mset_subset_eqD intro: delivered_member)
qed

text \<open>A run given by its events.\<close>

primrec node_run ::
  "'s Storage \<Rightarrow> answer \<Rightarrow> (rng \<times> node_event \<Rightarrow> 's RaftNode \<Rightarrow> bool) \<Rightarrow> (rng \<times> node_event) list \<Rightarrow>
     's RaftNode \<Rightarrow> 's RaftNode option" where
  "node_run st answer G [] n = Some n"
| "node_run st answer G (e # es) n =
     (if G e n then Option.bind (node_event_step st answer e n) (node_run st answer G es) else None)"

lemma node_run_reaches:
  assumes "node_run st answer G es n = Some n'" and "node_reaches st answer G n0 n"
  shows "node_reaches st answer G n0 n'"
  using assms by (induction es arbitrary: n) (auto simp: opt_bind split: if_splits intro: node_more)

end
