(* ===== verification/DemoCodecs.thy ===== *)
theory DemoCodecs
  imports DriverTypes KvStore "HOL-Library.Countable" "HOL-Library.List_Lexorder" "HOL-Library.Char_ord"
begin

text \<open>
  Codecs that satisfy what the development assumes of the \<open>postcard\<close> crate, to show that the
  assumptions \<open>codec_ok\<close> and \<open>kv_codec_ok\<close> can hold.  A number is written in unary.
\<close>

definition enc_nat :: "nat \<Rightarrow> bytes" where
  "enc_nat n = replicate n 1 @ [0]"

definition dec_nat :: "bytes \<Rightarrow> (nat \<times> bytes) option" where
  "dec_nat bs =
     (if 0 \<in> set bs
      then Some (length (takeWhile (\<lambda>b. b \<noteq> 0) bs), tl (dropWhile (\<lambda>b. b \<noteq> 0) bs)) else None)"

definition unary_codec :: codec where
  "unary_codec =
     \<lparr> enc_metadata = (\<lambda>m. Some (enc_nat (pm_term m) @
         (case pm_voted_for m of None \<Rightarrow> [0] | Some v \<Rightarrow> 1 # enc_nat v))),
       dec_metadata = (\<lambda>b. do {
         (t, r) \<leftarrow> dec_nat b;
         (if r = [] then None
          else if hd r = 0 then Some \<lparr> pm_term = t, pm_voted_for = None \<rparr>
          else do { (v, _) \<leftarrow> dec_nat (tl r); Some \<lparr> pm_term = t, pm_voted_for = Some v \<rparr> }) }),
       enc_entry = (\<lambda>e. Some (enc_nat (le_term e) @ le_command e)),
       dec_entry = (\<lambda>b. do { (t, r) \<leftarrow> dec_nat b; Some \<lparr> le_term = t, le_command = r \<rparr> }),
       enc_snapshot = (\<lambda>s. Some (enc_nat (sn_last_included_index s) @
         enc_nat (sn_last_included_term s) @ sn_data s)),
       dec_snapshot = (\<lambda>b. do {
         (i, r1) \<leftarrow> dec_nat b;
         (t, r2) \<leftarrow> dec_nat r1;
         Some \<lparr> sn_last_included_index = i, sn_last_included_term = t, sn_data = r2 \<rparr> }) \<rparr>"

lemma dec_enc_nat [simp]: "dec_nat (enc_nat n @ r) = Some (n, r)"
proof -
  have "takeWhile (\<lambda>b. b \<noteq> 0) (replicate n 1 @ 0 # r) = (replicate n 1 :: bytes)"
    by (subst takeWhile_append2) auto
  moreover have "dropWhile (\<lambda>b. b \<noteq> 0) (replicate n 1 @ 0 # r) = (0 # r :: bytes)"
    by (subst dropWhile_append2) auto
  ultimately show ?thesis by (simp add: dec_nat_def enc_nat_def)
qed

lemma dec_nat_Nil [simp]: "dec_nat [] = None"
  by (simp add: dec_nat_def)

lemma dec_enc_nat_all [simp]: "dec_nat (enc_nat n) = Some (n, [])"
  using dec_enc_nat [of n "[]"] by simp

lemma unary_codec_ok: "codec_ok unary_codec"
proof -
  have "round_trip (enc_metadata unary_codec) (dec_metadata unary_codec)"
    by (auto simp: round_trip_def unary_codec_def split: option.splits)
  moreover have "round_trip (enc_entry unary_codec) (dec_entry unary_codec)"
    by (auto simp: round_trip_def unary_codec_def)
  moreover have "round_trip (enc_snapshot unary_codec) (dec_snapshot unary_codec)"
    by (auto simp: round_trip_def unary_codec_def)
  ultimately show ?thesis by (simp add: codec_ok_def)
qed

text \<open>Commands and maps by their position in an enumeration.\<close>

fun command_key :: "KvCommand \<Rightarrow> nat \<times> string \<times> string" where
  "command_key (Get k) = (0, k, [])"
| "command_key (Set k v) = (1, k, v)"
| "command_key (Delete k) = (2, k, [])"

definition key_command :: "nat \<times> string \<times> string \<Rightarrow> KvCommand" where
  "key_command x = (case x of (n, k, v) \<Rightarrow> if n = 0 then Get k else if n = 1 then Set k v else Delete k)"

definition store_list :: "store \<Rightarrow> (string \<times> string) list" where
  "store_list m = map (\<lambda>k. (k, the (m k))) (sorted_list_of_set (dom m))"

definition counting_codec :: kv_codec where
  "counting_codec =
     \<lparr> enc_command = (\<lambda>c. Some (enc_nat (to_nat (command_key c)))),
       dec_command = (\<lambda>b. map_option (\<lambda>x. key_command (from_nat (fst x))) (dec_nat b)),
       enc_store = (\<lambda>m. Some (enc_nat (to_nat (store_list m)))),
       dec_store = (\<lambda>b. map_option (\<lambda>x. map_of (from_nat (fst x))) (dec_nat b)) \<rparr>"

lemma map_of_store_list: "finite (dom m) \<Longrightarrow> map_of (store_list m) = m"
proof
  fix k assume f: "finite (dom m)"
  have "map_of (map (\<lambda>k. (k, the (m k))) ks) k = (if k \<in> set ks then Some (the (m k)) else None)" for ks
    by (induction ks) auto
  with f show "map_of (store_list m) k = m k"
    by (auto simp: store_list_def dom_def)
qed

lemma counting_codec_ok: "kv_codec_ok counting_codec"
proof -
  have "key_command (command_key c) = c" for c by (cases c) (simp_all add: key_command_def)
  then show ?thesis by (auto simp: kv_codec_ok_def counting_codec_def map_of_store_list)
qed

text \<open>Commands in a form that can be computed with: a tag, the length of the key, the characters.\<close>

definition enc_string :: "string \<Rightarrow> bytes" where
  "enc_string s = map (\<lambda>c. of_nat (of_char c)) s"

definition dec_string :: "bytes \<Rightarrow> string" where
  "dec_string b = map (\<lambda>x. char_of (unat x)) b"

fun plain_enc :: "KvCommand \<Rightarrow> bytes" where
  "plain_enc (Get k) = 0 # enc_string k"
| "plain_enc (Set k v) = 1 # enc_nat (length k) @ enc_string k @ enc_string v"
| "plain_enc (Delete k) = 2 # enc_string k"

fun plain_dec :: "bytes \<Rightarrow> KvCommand option" where
  "plain_dec [] = None"
| "plain_dec (b # r) =
     (if b = 0 then Some (Get (dec_string r))
      else if b = 2 then Some (Delete (dec_string r))
      else map_option (\<lambda>(n, q). Set (dec_string (take n q)) (dec_string (drop n q))) (dec_nat r))"

definition plain_codec :: kv_codec where
  "plain_codec = counting_codec\<lparr>enc_command := \<lambda>c. Some (plain_enc c), dec_command := plain_dec\<rparr>"

lemma dec_enc_string [simp]: "dec_string (enc_string s) = s"
proof -
  have "char_of (unat (of_nat (of_char c) :: u8)) = c" for c
    by (simp add: unat_of_nat)
  then show ?thesis by (simp add: dec_string_def enc_string_def comp_def)
qed

lemma length_enc_string [simp]: "length (enc_string s) = length s"
  by (simp add: enc_string_def)

lemma plain_codec_ok: "kv_codec_ok plain_codec"
proof -
  have "plain_dec (plain_enc c) = Some c" for c by (cases c) simp_all
  with counting_codec_ok show ?thesis by (simp add: kv_codec_ok_def plain_codec_def)
qed

end
