(* ===== verification/NodeProperties.thy ===== *)
theory NodeProperties
  imports NodeHandles FileStorage MemoryStorage DemoCodecs CoreProperties
begin

text \<open>
  The properties of a node as a whole: the driver of \<open>src/crates/raft-event-loop/src/lib.rs\<close> over the
  core and over the two storages, and the storages on their own.  Each property has a concrete input
  at which its hypotheses hold.
\<close>

section \<open>A concrete node\<close>

text \<open>A directory that holds a given disk.\<close>

definition disk_files :: "codec \<Rightarrow> disk \<Rightarrow> files" where
  "disk_files pc D =
     [''metadata'' \<mapsto> [], ''log'' \<mapsto> frames_bytes (enc_entry pc) (d_frames D)]
       (''metadata'' := Option.bind (d_metadata D) (enc_metadata pc),
        ''snapshot'' := Option.bind (d_snapshot D) (enc_snapshot pc))"

lemma disk_files_log [simp]: "disk_files pc D ''log'' = Some (frames_bytes (enc_entry pc) (d_frames D))"
  by (simp add: disk_files_def)

lemma disk_files_has_log: "file_has_log (disk_files pc D)"
  by (simp add: file_has_log_def)

lemma disk_files_hold:
  assumes "codec_ok pc" and "list_all (fits (enc_entry pc)) (d_frames D)"
  shows "file_holds pc (disk_files pc D) D"
  using assms torn_Nil by (auto simp: file_holds_def disk_files_def)

definition core_disk :: "RaftCore \<Rightarrow> disk" where
  "core_disk c =
     \<lparr> d_metadata = Some \<lparr> pm_term = current_term c, pm_voted_for = voted_for c \<rparr>,
       d_frames = log_frames c, d_snapshot = None \<rparr>"

lemma core_disk_mirrors: "base c = (0, 0) \<Longrightarrow> mirrors (core_disk c) c"
  by (simp add: mirrors_def meta_of_def snap_of_def core_disk_def metadata_def)

definition demo_config :: RaftConfig where
  "demo_config =
     \<lparr> cfg_id = 1, cfg_nodes = [1, 2, 3], cfg_heartbeat_interval = None,
       cfg_election_range = (15, 31), cfg_snapshot_threshold = 100 \<rparr>"

definition demo_driver :: "RaftCore \<Rightarrow> 's \<Rightarrow> 's RaftDriver" where
  "demo_driver c s =
     \<lparr> drv_id = 1, drv_core = c, pending_proposals = [], pending_reads = [], num_entries = 0,
       snapshot_threshold = 100, drv_storage = s, drv_sent = [], drv_replies = [], drv_applied = [] \<rparr>"

definition demo_files :: files where
  "demo_files = disk_files unary_codec (core_disk demo_follower)"

lemma unary_fits:
  "fits (enc_entry unary_codec) (i, e) \<longleftrightarrow>
     i < u64_bound \<and> le_term e + 1 + length (le_command e) < 4294967296"
  by (simp add: fits_def unary_codec_def enc_nat_def add.commute)

lemma demo_files_hold: "file_holds unary_codec demo_files (core_disk demo_follower)"
  unfolding demo_files_def
  by (rule disk_files_hold [OF unary_codec_ok])
    (simp add: core_disk_def log_frames_def unary_fits demo_nodes)

lemma demo_files_has_log: "file_has_log demo_files"
  by (simp add: demo_files_def disk_files_has_log)

lemma demo_mirrors: "mirrors (core_disk demo_follower) demo_follower"
  by (rule core_disk_mirrors) (simp add: base_def demo_nodes)

section \<open>The driver and its storage\<close>



text \<open>C15: recovery.  A process starts on a directory that holds the persistent part of a core that has been
  in an election (its term is not 0).  When the directory has no snapshot, or has a log file beside its
  snapshot, the process comes back as a follower with the same term, vote, log and snapshot position,
  and with everything up to the snapshot committed and applied.  A snapshot without a log file makes
  the start panic.\<close>

theorem recovery_after_crash:
  assumes "file_holds pc fs D" and "mirrors D c" and "0 < current_term c"
    and "rng (cfg_election_range config) = Some tm"
  shows "if d_snapshot D = None \<or> fs ''log'' \<noteq> None
     then \<exists>c'. restore_core rng (file_storage pc) config fs = Some c' \<and> metadata c' = metadata c \<and>
       log c' = log c \<and> base c' = base c \<and> commit_index c' = last_included_index c \<and>
       last_applied c' = last_included_index c \<and> state c' = Follower
     else restore_core rng (file_storage pc) config fs = None"
proof (cases "d_snapshot D = None \<or> fs ''log'' \<noteq> None")
  case True
  then have "d_snapshot D \<noteq> None \<longrightarrow> st_restore_log_entries (file_storage pc) fs \<noteq> Inr None"
    using file_restore_log_entries_ok [OF assms(1)] by (auto simp: file_storage_def file_has_log_def)
  with disk_file.restore_mirrored [OF assms(1-3), where rng = rng and config = config and tm = tm] assms(4) True
  show ?thesis by simp
next
  case False
  then show ?thesis
    using file_restore_log_entries_ok [OF assms(1)] disk_file.restore_snapshot [OF assms(1)]
    by (auto simp: restore_core_def file_storage_def file_has_log_def expect_def bind_eq_None_conv
        split: sum.splits)
qed

theorem recovery_after_crash_witness:
  "\<exists>c'. restore_core demo_rng (file_storage unary_codec) demo_config demo_files = Some c' \<and>
     metadata c' = metadata demo_follower \<and> log c' = log demo_follower \<and> base c' = base demo_follower \<and>
     commit_index c' = last_included_index demo_follower \<and>
     last_applied c' = last_included_index demo_follower \<and> state c' = Follower"
proof -
  have "0 < current_term demo_follower" by (simp add: demo_nodes)
  moreover have "demo_rng (cfg_election_range demo_config) = Some 15" by (simp add: demo_rng_def demo_config_def)
  ultimately show ?thesis
    using recovery_after_crash [OF demo_files_hold demo_mirrors, where rng = demo_rng and config = demo_config]
    by (simp add: core_disk_def)
qed

text \<open>C26: the snapshot a driver takes when its threshold is reached is the application's answer under the
  index and term of the last applied entry, and the truncated log still matches the core exactly when
  every entry of the log had been applied.\<close>

theorem snapshot_covers_applied:
  assumes "file_holds pc (drv_storage d) D" and "file_has_log (drv_storage d)"
    and "mirrors D (drv_core d)" and "log_ok (drv_core d)"
  shows "\<exists>d' D' sn. take_snapshot (file_storage pc) answer d = Some d' \<and> file_holds pc (drv_storage d') D' \<and>
     d_snapshot D' = Some sn \<and> sn_last_included_index sn = last_applied (drv_core d) \<and>
     log_term_at (drv_core d) (last_applied (drv_core d)) = Some (sn_last_included_term sn) \<and>
     sn_data sn = answer (drv_applied d @ [SnapshotRequest]) \<and>
     (mirrors D' (drv_core d') \<longleftrightarrow> lli (drv_core d) = last_applied (drv_core d))"
  using assms by (rule disk_file.take_snapshot_effect)

theorem snapshot_covers_applied_witness:
  "\<exists>d' D' sn. take_snapshot (file_storage unary_codec) (\<lambda>_. [5]) (demo_driver demo_follower demo_files) = Some d' \<and>
     file_holds unary_codec (drv_storage d') D' \<and> d_snapshot D' = Some sn \<and>
     sn_last_included_index sn = 1 \<and> sn_last_included_term sn = 1 \<and> sn_data sn = [5] \<and> \<not> mirrors D' (drv_core d')"
proof -
  let ?d = "demo_driver demo_follower demo_files"
  have c: "drv_core ?d = demo_follower" "drv_storage ?d = demo_files" by (simp_all add: demo_driver_def)
  have "log_ok demo_follower" "lli demo_follower = 2" "last_applied demo_follower = 1"
    "log_term_at demo_follower 1 = Some 1"
    by (simp_all add: predicates demo_nodes numeral_2_eq_2 log_term_at_def log_entry_at_def)
  with snapshot_covers_applied [of unary_codec ?d "core_disk demo_follower" "\<lambda>_. [5]"] show ?thesis
    unfolding c by (simp add: demo_files_hold demo_mirrors demo_files_has_log eq_commute [of "Suc 0"])
qed

text \<open>C32: installing a received snapshot over the file storage panics exactly on a node that has not
  written a log yet, since the log is opened for truncation without creating it.\<close>

theorem install_needs_log_file:
  assumes "codec_ok pc"
  shows "handle_action (file_storage pc) answer (InstallSnapshot i t x) d = None \<longleftrightarrow>
     drv_storage d ''log'' = None"
proof -
  obtain b where "enc_snapshot pc \<lparr> sn_last_included_index = i, sn_last_included_term = t, sn_data = x \<rparr> = Some b"
    using assms by (rule codec_snapshot)
  then show ?thesis
    by (simp add: handle_action_def file_storage_def file_store_snapshot_def atomic_serialize_ok
        file_truncate_log_def tmp_name_other [symmetric] split: option.splits)
qed

theorem install_needs_log_file_witness:
  "handle_action (file_storage unary_codec) (\<lambda>_. []) (InstallSnapshot 4 2 [1])
     (demo_driver demo_follower Map.empty) = None"
  by (subst install_needs_log_file [OF unary_codec_ok]) (simp add: demo_driver_def)

text \<open>C33: a crash between \<open>store_snapshot\<close> and \<open>truncate_log\<close>, with which the driver both takes and
  installs a snapshot.  The next start finds the new snapshot beside the old log and numbers the old
  entries from the snapshot on: every entry comes back moved up by the distance of the two positions.\<close>

theorem snapshot_crash_moves_log:
  assumes "file_holds pc fs D" and "mirrors D c" and "0 < current_term c" and "log c \<noteq> []"
    and "rng (cfg_election_range config) = Some tm" and "file_store_snapshot pc sn fs = Inr fs'"
    and "last_included_index c < i" and "last_included_index c \<le> sn_last_included_index sn"
  shows "\<exists>c'. restore_core rng (file_storage pc) config fs' = Some c' \<and>
     log_entry_at c' (i + (sn_last_included_index sn - last_included_index c)) = log_entry_at c i"
proof -
  have "st_store_snapshot (file_storage pc) sn fs = Inr fs'" using assms(6) by (simp add: file_storage_def)
  from disk_file.restore_untruncated [where config = config and rng = rng, OF assms(1-5) this] obtain c' where
    c': "restore_core rng (file_storage pc) config fs' = Some c'" "log c' = log c"
    "last_included_index c' = sn_last_included_index sn" by (auto simp: base_def)
  with log_entry_at_moved [of c' c i] assms(7,8) show ?thesis by simp
qed

theorem snapshot_crash_moves_log_witness:
  "\<exists>fs' c'. file_store_snapshot unary_codec \<lparr> sn_last_included_index = 2, sn_last_included_term = 1, sn_data = [] \<rparr>
       demo_files = Inr fs' \<and>
     restore_core demo_rng (file_storage unary_codec) demo_config fs' = Some c' \<and>
     log_entry_at demo_follower 1 = Some (demo_entry 1 0) \<and> log_entry_at c' 3 = Some (demo_entry 1 0)"
proof -
  let ?sn = "\<lparr> sn_last_included_index = 2, sn_last_included_term = 1, sn_data = [] \<rparr> :: Snapshot"
  obtain fs' where fs': "file_store_snapshot unary_codec ?sn demo_files = Inr fs'"
    using disk_file.store_snapshot [OF demo_files_hold, of ?sn] by (auto simp: file_storage_def)
  have "\<exists>c'. restore_core demo_rng (file_storage unary_codec) demo_config fs' = Some c' \<and>
      log_entry_at c' (1 + (sn_last_included_index ?sn - last_included_index demo_follower)) =
      log_entry_at demo_follower 1"
    by (rule snapshot_crash_moves_log [OF demo_files_hold demo_mirrors _ _ _ fs', where tm = 15])
      (simp_all add: demo_nodes demo_rng_def demo_config_def)
  moreover have "log_entry_at demo_follower 1 = Some (demo_entry 1 0)"
    "1 + (sn_last_included_index ?sn - last_included_index demo_follower) = 3"
    by (simp_all add: log_entry_at_def demo_nodes)
  ultimately show ?thesis using fs' by auto
qed

section \<open>The storages\<close>

text \<open>C22: the file log.  Storing the tail of a new log over the file of an older log that agrees with it
  below the start index, and whose last frame may be torn, makes the next start restore the new log.\<close>

theorem file_log_round_trip:
  assumes "file_holds pc fs d" and "d_frames d = enumerate n xs" and "k \<le> length ys"
    and "take k xs = take k ys" and "list_all (fits (enc_entry pc)) (enumerate (n + k) (drop k ys))"
    and "n + length ys < u64_bound"
  shows "\<exists>fs' r.
     file_store_log_entries pc \<lparr> pla_start_index = n + k, pla_entries = drop k ys \<rparr> fs = Inr fs' \<and>
     file_restore_log_entries pc fs' = Inr r \<and> entries_or_empty r = ys"
  using disk_file.log_round_trip [OF assms] by (simp add: file_storage_def)

theorem file_log_round_trip_witness:
  "\<exists>fs' r.
     file_store_log_entries unary_codec \<lparr> pla_start_index = 2, pla_entries = [demo_entry 2 3] \<rparr> demo_files =
       Inr fs' \<and>
     file_restore_log_entries unary_codec fs' = Inr r \<and> entries_or_empty r = [demo_entry 1 0, demo_entry 2 3]"
  using file_log_round_trip [OF demo_files_hold, of 1 "log demo_follower" 1 "[demo_entry 1 0, demo_entry 2 3]"]
  by (simp add: core_disk_def log_frames_def unary_fits demo_nodes numeral_2_eq_2)

text \<open>C23: a crash while the log is written.  Whatever part of the write reached the disk, the directory
  holds the old log, or the entries below the start index followed by the first few of the new ones; the
  metadata and the snapshot are untouched.\<close>

theorem log_crash_safe:
  assumes "file_holds pc fs d" and "list_all (fits (enc_entry pc)) (enumerate start es)"
    and "start + length es < u64_bound"
    and "fs' \<in> set (log_steps pc \<lparr> pla_start_index = start, pla_entries = es \<rparr> fs)"
  shows "file_holds pc fs' d \<or>
         (\<exists>j\<le>length es. file_holds pc fs' (d\<lparr>d_frames := store_frames start (take j es) (d_frames d)\<rparr>))"
  using assms by (rule log_steps_hold)

theorem log_crash_safe_witness:
  "\<exists>fs' j. fs' \<in> set (log_steps unary_codec \<lparr> pla_start_index = 2, pla_entries = [demo_entry 2 3] \<rparr> demo_files) \<and>
     fs' \<noteq> demo_files \<and>
     (file_holds unary_codec fs' (core_disk demo_follower) \<or>
      file_holds unary_codec fs' ((core_disk demo_follower)\<lparr>d_frames :=
        store_frames 2 (take j [demo_entry 2 3]) (log_frames demo_follower)\<rparr>))"
proof -
  let ?a = "\<lparr> pla_start_index = 2, pla_entries = [demo_entry 2 3] \<rparr>"
  have fit: "list_all (fits (enc_entry unary_codec)) (enumerate 2 [demo_entry 2 3])"
    by (simp add: unary_fits demo_nodes)
  have k: "set_len (scan_log 2 0 (open_create ''log'' demo_files)) (open_create ''log'' demo_files) =
      frames_bytes (enc_entry unary_codec) [(1, demo_entry 1 0)]"
    using kept_log [OF demo_files_hold, of 2]
    by (simp add: core_disk_def log_frames_def demo_nodes)
  let ?fs = "demo_files(''log'' \<mapsto> frames_bytes (enc_entry unary_codec) [(1, demo_entry 1 0)])"
  have m: "?fs \<in> set (log_steps unary_codec ?a demo_files)"
    using k write_frames_ok [OF fit]
    by (auto simp: log_steps_def Let_def image_iff simp del: upt_Suc intro!: bexI [of _ 0])
  have n: "?fs \<noteq> demo_files"
    by (auto simp: demo_files_def core_disk_def log_frames_def demo_nodes fun_eq_iff
        simp flip: length_0_conv)
  show ?thesis
    using log_crash_safe [OF demo_files_hold fit _ m] m n by (auto simp: core_disk_def)
qed

text \<open>C24: a crash while the metadata file is replaced.  In every directory that the steps of
  \<open>store_metadata\<close> can leave behind the metadata are the old or the new ones, never a mixture, and the log
  and the snapshot are as before; when the steps run to their end the metadata are the new ones.\<close>

theorem metadata_replaced_atomically:
  assumes "file_holds pc fs d" and "fs' \<in> set (atomic_steps (enc_metadata pc) ''metadata'' m fs)"
  shows "(file_holds pc fs' d \<and> file_restore_metadata pc fs' = Inr (d_metadata d) \<or>
          file_holds pc fs' (d\<lparr>d_metadata := Some m\<rparr>) \<and> file_restore_metadata pc fs' = Inr (Some m)) \<and>
         file_store_metadata pc m fs = Inr (last (atomic_steps (enc_metadata pc) ''metadata'' m fs))"
proof -
  have ok: "codec_ok pc" using assms(1) by (simp add: file_holds_def)
  then obtain b where b: "enc_metadata pc m = Some b" by (rule codec_metadata)
  have "fs' ''log'' = fs ''log''" "fs' ''snapshot'' = fs ''snapshot''"
    using assms(2) b tmp_name_other [of "''metadata''"]
    by (auto simp: atomic_steps_def rename_file_def simp del: upt_Suc)
  moreover have "fs' ''metadata'' = fs ''metadata'' \<or> fs' ''metadata'' = enc_metadata pc m"
    using assms(2) by (rule atomic_steps_read)
  ultimately have h: "file_holds pc fs' d \<or> file_holds pc fs' (d\<lparr>d_metadata := Some m\<rparr>)"
    using assms(1) by (cases "fs ''log''") (auto simp: file_holds_def)
  have r: "file_restore_metadata pc fs' = Inr (d_metadata D)" if "file_holds pc fs' D" for D
    using disk_file.restore_metadata [OF that] by (simp add: file_storage_def)
  have "file_store_metadata pc m fs = Inr (last (atomic_steps (enc_metadata pc) ''metadata'' m fs))"
    unfolding file_store_metadata_def using b by (rule atomic_steps_last)
  with h r [of d] r [of "d\<lparr>d_metadata := Some m\<rparr>"] show ?thesis by auto
qed

theorem metadata_replaced_atomically_witness:
  "file_restore_metadata unary_codec (demo_files(tmp_name ''metadata'' \<mapsto> [])) =
       Inr (d_metadata (core_disk demo_follower)) \<or>
   file_restore_metadata unary_codec (demo_files(tmp_name ''metadata'' \<mapsto> [])) =
       Inr (Some \<lparr> pm_term = 2, pm_voted_for = Some 1 \<rparr>)"
proof -
  let ?m = "\<lparr> pm_term = 2, pm_voted_for = Some 1 \<rparr> :: PersistedMetadata"
  have "demo_files(tmp_name ''metadata'' \<mapsto> []) \<in> set (atomic_steps (enc_metadata unary_codec) ''metadata'' ?m demo_files)"
    by (auto simp: atomic_steps_def image_iff simp del: upt_Suc split: option.splits intro!: bexI [of _ 0])
  from metadata_replaced_atomically [OF demo_files_hold this] show ?thesis by blast
qed

text \<open>C25: the two storages are interchangeable but for an empty log.  A file storage and an in-memory
  storage hold the same data, and a list of actions is carried out over both: entries fit their frames,
  the directory has a log file if a snapshot is installed, there is a snapshot to send if one is sent,
  and the actions stay below the snapshot threshold.  Then both runs succeed and restore to the same
  metadata and snapshot; and with the same entries, which the file storage gives exactly when its log
  file exists and the in-memory storage exactly when there are any.  So a start over the in-memory
  storage with a snapshot and no entries behind it panics.\<close>

theorem storages_agree:
  assumes "file_holds pc (drv_storage d) D" and "mem_holds pc (drv_storage d2) D"
    and "list_all (storable (fits (enc_entry pc))) as"
    and "list_ex installs as \<longrightarrow> file_has_log (drv_storage d)"
    and "list_ex sends_snapshot as \<longrightarrow> d_snapshot D \<noteq> None"
    and "below_threshold as d" and "below_threshold as d2"
  shows "\<exists>d' d2' sn es.
     handle_actions (file_storage pc) answer as d = Some d' \<and>
     handle_actions (memory_storage pc) answer as d2 = Some d2' \<and>
     file_restore_metadata pc (drv_storage d') = mem_restore_metadata pc (drv_storage d2') \<and>
     file_restore_snapshot pc (drv_storage d') = Inr sn \<and> mem_restore_snapshot pc (drv_storage d2') = Inr sn \<and>
     file_restore_log_entries pc (drv_storage d') =
       Inr (if drv_storage d' ''log'' = None then None else Some es) \<and>
     mem_restore_log_entries pc (drv_storage d2') = Inr (if es = [] then None else Some es) \<and>
     (drv_storage d' ''log'' = None \<longrightarrow> es = []) \<and>
     (sn \<noteq> None \<and> es = [] \<longrightarrow> restore_core rng (memory_storage pc) config (drv_storage d2') = None)"
proof -
  let ?D = "fold disk_after as D"
  from disk_file.handle_actions_disk [OF assms(1,3-6)] obtain d' where
    d': "handle_actions (file_storage pc) answer as d = Some d'" "file_holds pc (drv_storage d') ?D" by blast
  from memory.handle_actions_disk [OF assms(2,3) _ assms(5,7)] obtain d2' where
    d2': "handle_actions (memory_storage pc) answer as d2 = Some d2'" "mem_holds pc (drv_storage d2') ?D" by blast
  note f = disk_file.restore_metadata [OF d'(2)] disk_file.restore_snapshot [OF d'(2)]
    file_restore_log_entries_ok [OF d'(2)]
  note m = memory.restore_metadata [OF d2'(2)] memory.restore_snapshot [OF d2'(2)]
    mem_restore_log_entries_ok [OF d2'(2)]
  have e: "drv_storage d' ''log'' = None \<longrightarrow> d_frames ?D = []" using d'(2)
    by (auto simp: file_holds_def)
  have "d_snapshot ?D \<noteq> None \<and> d_frames ?D = [] \<longrightarrow>
      restore_core rng (memory_storage pc) config (drv_storage d2') = None"
    using m by (auto simp: restore_core_def memory_storage_def expect_def bind_eq_None_conv split: sum.splits)
  with f m e d'(1) d2'(1) show ?thesis
    by (intro exI [of _ d'] exI [of _ d2'] exI [of _ "d_snapshot ?D"] exI [of _ "map snd (d_frames ?D)"])
      (simp add: file_storage_def memory_storage_def file_has_log_def)
qed

theorem storages_agree_witness:
  "\<exists>d' d2' sn es.
     handle_actions (file_storage unary_codec) (\<lambda>_. []) [PersistLogEntries 1 [demo_entry 1 0], InstallSnapshot 4 2 [1]]
       (demo_driver demo_follower (Map.empty(''log'' \<mapsto> []))) = Some d' \<and>
     handle_actions (memory_storage unary_codec) (\<lambda>_. []) [PersistLogEntries 1 [demo_entry 1 0], InstallSnapshot 4 2 [1]]
       (demo_driver demo_follower mem_new) = Some d2' \<and>
     file_restore_metadata unary_codec (drv_storage d') = mem_restore_metadata unary_codec (drv_storage d2') \<and>
     file_restore_snapshot unary_codec (drv_storage d') = Inr sn \<and>
     mem_restore_snapshot unary_codec (drv_storage d2') = Inr sn \<and>
     file_restore_log_entries unary_codec (drv_storage d') =
       Inr (if drv_storage d' ''log'' = None then None else Some es) \<and>
     mem_restore_log_entries unary_codec (drv_storage d2') = Inr (if es = [] then None else Some es) \<and>
     (drv_storage d' ''log'' = None \<longrightarrow> es = []) \<and>
     (sn \<noteq> None \<and> es = [] \<longrightarrow>
        restore_core demo_rng (memory_storage unary_codec) demo_config (drv_storage d2') = None)"
  by (rule storages_agree [where D = "\<lparr> d_metadata = None, d_frames = [], d_snapshot = None \<rparr>"])
    (simp_all add: demo_driver_def file_holds_def mem_holds_def unary_codec_ok mem_new_def storable_def
      unary_fits demo_nodes file_has_log_def below_threshold_def)

end
