(* ===== verification/HandleProperties.thy ===== *)
theory HandleProperties
  imports NodeProperties StateMachineSafety
begin

text \<open>
  The properties of the handle that an application holds (\<open>RaftNode\<close>, modelled in \<open>NodeHandles\<close>): every
  call is answered once, a confirmed command has been applied, and the event in which this fails.  The
  concrete runs are those of a node of three over the in-memory storage.
\<close>

section \<open>A concrete node and its calls\<close>

definition handle_config :: RaftConfig where
  "handle_config = demo_config\<lparr>cfg_election_range := (1, 2)\<rparr>"

definition handle_node :: "InMemoryStorage RaftNode" where
  "handle_node = the (node_new demo_rng (memory_storage unary_codec) handle_config mem_new)"

text \<open>The node is elected in term 1 by its own vote and that of node 2 and gets a proposal.\<close>

definition election_events :: "(rng \<times> node_event) list" where
  "election_events = map (Pair demo_rng)
     [LoopTick,
      LoopMessage (RequestVoteResponse \<lparr> rvr_id = 2, rvr_term = 1, rvr_vote_granted = True \<rparr>),
      CallPropose [7], LoopProposal]"

definition demo_ack :: Message where
  "demo_ack = AppendEntriesResponse
     \<lparr> aer_id = 2, aer_term = 1, aer_match_index = 2, aer_success = True,
       aer_first_conflicting_index = None, aer_first_conflicting_term = None \<rparr>"

text \<open>The leader of term 2, which has not got the proposal, replaces it by its own entries.\<close>

definition demo_takeover :: Message where
  "demo_takeover = AppendEntries
     \<lparr> ae_term = 2, ae_leader_id = 2, ae_prev_log_index = 1, ae_prev_log_term = 1,
       ae_entries = [\<lparr> le_term = 2, le_command = [] \<rparr>, \<lparr> le_term = 2, le_command = [9] \<rparr>],
       ae_leader_commit = 3 \<rparr>"

lemmas handle_exec [exec] =
  handle_config_def election_events_def demo_ack_def demo_takeover_def demo_config_def
  node_new_def driver_new_def restore_core_def event_step_def on_tick_def on_proposal_def on_read_def
  on_message_def handle_message_def handle_action_def send_to_def reply_to_def send_applied_def
  resolve_proposal_def resolve_read_def apply_command_def drain_pending_def
  node_event_step_def node_propose_def node_read_request_def chan_send_def CHANNEL_BUFFER_def await_reply_def

text \<open>The scan of the in-memory log, frame by frame.\<close>

lemma mem_scan_Nil: "mem_scan start pos [] = Inr None"
  by (subst mem_scan.simps) (simp add: read_u64_def read_exact_def)

lemma mem_scan_frame:
  assumes "i < u64_bound" and "length b < 4294967296"
  shows "mem_scan start pos (frame i b @ r) =
     (if i = start then Inr (Some pos) else mem_scan start (pos + (12 + length b)) r)"
  using assms by (subst mem_scan.simps) (simp add: frame_def read_u64_frame read_u32_frame)

lemma mem_scan_last_frame:
  "i < u64_bound \<Longrightarrow> length b < 4294967296 \<Longrightarrow>
     mem_scan start pos (frame i b) = (if i = start then Inr (Some pos) else Inr None)"
  using mem_scan_frame [of i b start pos "[]"] by (simp add: mem_scan_Nil)

lemma length_enc_nat: "length (enc_nat n) = n + 1"
  by (simp add: enc_nat_def)

lemmas handle_memory =
  memory_storage_def mem_new_def mem_restore_snapshot_def mem_restore_metadata_def mem_restore_log_entries_def
  mem_store_metadata_def mem_store_log_entries_def unary_codec_def
  mem_scan_Nil mem_scan_frame mem_scan_last_frame length_enc_nat

lemmas handle_guards =
  undisturbed_def sound_event_def no_takeover_def demo_rng_ok predicates

lemma handle_node_new: "node_new demo_rng (memory_storage unary_codec) handle_config mem_new = Some handle_node"
  by (simp add: handle_node_def exec handle_memory)

lemma handle_confirmed:
  "\<exists>n. node_run (memory_storage unary_codec) (\<lambda>_. []) undisturbed
       (election_events @ [(demo_rng, LoopMessage demo_ack)]) handle_node = Some n \<and>
     node_calls n = [ProposeCall [7]] \<and> await_reply 0 n = Some None \<and>
     drv_applied (node_driver n) = [Command [7]]"
  by (simp add: handle_node_def exec handle_memory handle_guards)

lemma handle_takeover:
  "\<exists>n. node_run (memory_storage unary_codec) (\<lambda>_. []) sound_event
       (election_events @ [(demo_rng, LoopMessage demo_takeover)]) handle_node = Some n \<and>
     node_calls n = [ProposeCall [7]] \<and> await_reply 0 n = Some None \<and>
     drv_applied (node_driver n) = [Command [9]] \<and>
     map le_command (log (drv_core (node_driver n))) = [[], [], [9]]"
  by (simp add: handle_node_def exec handle_memory handle_guards)

section \<open>Answers\<close>

text \<open>C16: every call of a node is settled once.  From the start of a node, whatever callers and loop do in
  whatever order, as long as no snapshot of a second leader of its own term reaches a node while it
  leads, the answers given and the calls that wait in a channel or in the driver are together exactly the
  calls that were made, each once: a call has an answer or waits, and never gets a second answer.  The
  channels do not hold more than their capacity, and a node that does not lead keeps no call waiting in
  the driver.\<close>

theorem calls_settled_once:
  assumes "node_new rng st config s = Some n0" and "node_reaches st answer rivalless n0 n"
  shows "mset (map fst (drv_replies (node_driver n))) + waits n = mset [0..<length (node_calls n)] \<and>
     (\<forall>r<length (node_calls n). await_reply r n = None \<longleftrightarrow> r \<in># waits n) \<and>
     length (node_proposal n) \<le> CHANNEL_BUFFER \<and> length (node_read n) \<le> CHANNEL_BUFFER \<and>
     (\<not> is_leader (drv_core (node_driver n)) \<longrightarrow>
        pending_proposals (node_driver n) = [] \<and> pending_reads (node_driver n) = [])"
proof -
  have ok: "calls_ok n" using node_reaches_ok [OF assms(2)] node_new_ok [OF assms(1)] by blast
  then show ?thesis
    using await_or_wait [OF ok] by (simp add: calls_ok_def places_waits waiting_ok_def del: mset_map mset_upt)
qed

theorem calls_settled_once_witness:
  "\<exists>n. node_reaches (memory_storage unary_codec) (\<lambda>_. []) rivalless handle_node n \<and>
     node_calls n = [ProposeCall [7]] \<and> await_reply 0 n = Some None \<and> waits n = {#}"
proof -
  from handle_confirmed obtain n where
    n: "node_run (memory_storage unary_codec) (\<lambda>_. []) undisturbed
       (election_events @ [(demo_rng, LoopMessage demo_ack)]) handle_node = Some n"
    "node_calls n = [ProposeCall [7]]" "await_reply 0 n = Some None" by blast
  from node_reaches_mono [OF node_run_reaches [OF n(1) node_start], of rivalless]
  have r: "node_reaches (memory_storage unary_codec) (\<lambda>_. []) rivalless handle_node n"
    by (auto simp: undisturbed_def intro: sound_rivalless)
  from calls_settled_once [OF handle_node_new r] n(2,3)
  have "mset (map fst (drv_replies (node_driver n))) + waits n = {#0#}" "0 \<notin># waits n" by auto
  moreover from this(1) have "waits n \<subseteq># {#0#}" by (metis mset_subset_eq_add_right)
  ultimately have "waits n = {#}" by (metis mset_subset_eqD multiset_nonemptyE singletonD set_mset_single)
  with r n(2,3) show ?thesis by blast
qed

text \<open>C17: what \<open>Ok(())\<close> of \<open>propose\<close> means for a command that is not empty.  As long as the counters of the
  core are not about to overflow, the messages are those that honest nodes send (as in C6) and no
  \<open>AppendEntries\<close> request of a later term reaches a node while it leads, the non-empty commands of the
  proposals that were answered with \<open>Ok(())\<close> have been given to the application of the node, each as often
  as it was confirmed.  An empty command is confirmed but never given to the application.\<close>

theorem confirmed_commands_applied:
  assumes "node_new rng st config s = Some n0" and "node_reaches st answer undisturbed n0 n"
    and "fst (cfg_election_range config) < snd (cfg_election_range config)"
  shows "acked (proposed (node_calls n)) (drv_replies (node_driver n)) \<subseteq># delivered (drv_applied (node_driver n)) \<and>
     (\<forall>r c. await_reply r n = Some None \<longrightarrow> proposed (node_calls n) r = Some c \<longrightarrow> c \<noteq> [] \<longrightarrow>
        Command c \<in> set (drv_applied (node_driver n)))"
proof -
  let ?d = "node_driver n" and ?P = "proposed (node_calls n)"
  have p: "node_promise n" using node_reaches_promise [OF assms(2) node_new_promise [OF assms(1,3)]] .
  then have a: "acked ?P (drv_replies ?d) \<subseteq># delivered (drv_applied ?d)"
    by (simp add: node_promise_def promise_def honest_def)
  with promised_command [OF p] show ?thesis by blast
qed

theorem confirmed_commands_applied_witness:
  "\<exists>n. node_reaches (memory_storage unary_codec) (\<lambda>_. []) undisturbed handle_node n \<and>
     await_reply 0 n = Some None \<and> Command [7] \<in> set (drv_applied (node_driver n))"
proof -
  from handle_confirmed obtain n where
    n: "node_run (memory_storage unary_codec) (\<lambda>_. []) undisturbed
       (election_events @ [(demo_rng, LoopMessage demo_ack)]) handle_node = Some n"
    "node_calls n = [ProposeCall [7]]" "await_reply 0 n = Some None" by blast
  note r = node_run_reaches [OF n(1) node_start]
  have "fst (cfg_election_range handle_config) < snd (cfg_election_range handle_config)"
    by (simp add: handle_config_def)
  from confirmed_commands_applied [OF handle_node_new r this] n(2,3) r show ?thesis
    by (auto simp: proposed_def)
qed

text \<open>C28: a leader that an \<open>AppendEntries\<close> request replaces confirms a command that is lost.  The driver
  looks up the waiting proposals by index while it carries out the actions of the request, and drains
  them only afterwards.  A node that leads term 1 gets the command 7 at index 2; the leader of term 2
  overwrites the index by its own entries and commits them in the same request.  The caller is told
  \<open>Ok(())\<close>, and the command is neither in the log of the node nor has it been applied.\<close>

theorem takeover_confirms_lost_command:
  "\<exists>n. node_reaches (memory_storage unary_codec) (\<lambda>_. []) sound_event handle_node n \<and>
     node_calls n = [ProposeCall [7]] \<and> await_reply 0 n = Some None \<and>
     [7] \<notin> set (map le_command (log (drv_core (node_driver n)))) \<and>
     Command [7] \<notin> set (drv_applied (node_driver n))"
proof -
  from handle_takeover obtain n where
    n: "node_run (memory_storage unary_codec) (\<lambda>_. []) sound_event
       (election_events @ [(demo_rng, LoopMessage demo_takeover)]) handle_node = Some n"
    "node_calls n = [ProposeCall [7]]" "await_reply 0 n = Some None"
    "drv_applied (node_driver n) = [Command [9]]"
    "map le_command (log (drv_core (node_driver n))) = [[], [], [9]]" by (elim exE conjE) (rule that)
  have "[7] \<notin> set (map le_command (log (drv_core (node_driver n))))" unfolding n(5) by simp
  moreover have "Command [7] \<notin> set (drv_applied (node_driver n))" unfolding n(4) by simp
  ultimately show ?thesis using node_run_reaches [OF n(1) node_start] n(2,3) by blast
qed

end
