(* ===== verification/KvNode.thy ===== *)
theory KvNode
  imports NodeHandles KvStore
begin

text \<open>
  A process of the key-value store as a whole (\<open>src/crates/raft-kv/src/main.rs\<close>): the handlers, the
  handle of the Raft node they share in \<open>AppState\<close>, the loop behind it and the task that applies what the
  loop sends.  A handler that waits for Raft is cut into its two halves, the call and the answer, so that
  requests, loop and applying task interleave.  The channel to the applying task is what the driver has
  sent and the task has not yet taken.
\<close>

section \<open>State\<close>

record 's AppState =
  app_node :: "'s RaftNode"
  app_store :: store
  app_http_addrs :: "(NodeId \<times> string) list"
  app_taken :: nat

definition app_new :: "'s RaftNode \<Rightarrow> (NodeId \<times> string) list \<Rightarrow> 's AppState" where
  "app_new n addrs = \<lparr> app_node = n, app_store = Map.empty, app_http_addrs = addrs, app_taken = 0 \<rparr>"

abbreviation app_entries :: "'s AppState \<Rightarrow> AppliedEntry list" where
  "app_entries a \<equiv> drv_applied (node_driver (app_node a))"

section \<open>Handlers\<close>

text \<open>The first half of \<open>set_handler\<close> and \<open>delete_handler\<close>: \<open>None\<close> while the channel to the loop is full.\<close>

definition send_command ::
  "bytes option \<Rightarrow> 's AppState \<Rightarrow> (KvError + reply \<times> 's AppState) option" where
  "send_command encoded a =
     (case encoded of
        None \<Rightarrow> Some (Inl Internal)
      | Some command \<Rightarrow> do {
          (rx, n) \<leftarrow> node_propose command (app_node a);
          Some (Inr (rx, a\<lparr>app_node := n\<rparr>)) })"

definition set_request ::
  "kv_codec \<Rightarrow> string \<Rightarrow> string \<Rightarrow> 's AppState \<Rightarrow> (KvError + reply \<times> 's AppState) option" where
  "set_request kvc key v a = send_command (enc_command kvc (Set key v)) a"

definition delete_request ::
  "kv_codec \<Rightarrow> string \<Rightarrow> 's AppState \<Rightarrow> (KvError + reply \<times> 's AppState) option" where
  "delete_request kvc key a = send_command (enc_command kvc (Delete key)) a"

definition get_request :: "'s AppState \<Rightarrow> (KvError + reply \<times> 's AppState) option" where
  "get_request a = do {
     (rx, n) \<leftarrow> node_read_request (app_node a);
     Some (Inr (rx, a\<lparr>app_node := n\<rparr>)) }"

text \<open>The second half: \<open>None\<close> while there is no answer.\<close>

definition write_response :: "string \<Rightarrow> reply \<Rightarrow> 's AppState \<Rightarrow> (KvError + bool) option" where
  "write_response path rx a = do {
     outcome \<leftarrow> await_reply rx (app_node a);
     Some (case outcome of
        Some e \<Rightarrow> Inl (map_proposal_error (app_http_addrs a) e path)
      | None \<Rightarrow> Inr True) }"

definition get_response :: "string \<Rightarrow> string \<Rightarrow> reply \<Rightarrow> 's AppState \<Rightarrow> (KvError + string option) option" where
  "get_response path key rx a = do {
     outcome \<leftarrow> await_reply rx (app_node a);
     Some (case outcome of
        Some e \<Rightarrow> Inl (map_proposal_error (app_http_addrs a) e path)
      | None \<Rightarrow> Inr (app_store a key)) }"

text \<open>The applying task takes the next entry; \<open>None\<close> while there is none, or when it panics.\<close>

definition apply_next :: "kv_codec \<Rightarrow> 's AppState \<Rightarrow> 's AppState option" where
  "apply_next kvc a =
     (case drop (app_taken a) (app_entries a) of
        [] \<Rightarrow> None
      | entry # _ \<Rightarrow> do {
          (m, _) \<leftarrow> apply_entry kvc entry (app_store a);
          Some (a\<lparr>app_store := m, app_taken := app_taken a + 1\<rparr>) })"

text \<open>The halves are those of the handlers: with the answer that came, the handler returns the response.\<close>

lemma set_handler_halves:
  assumes "set_request kvc key v a = Some (Inr (rx, a1))" and "await_reply rx (app_node a2) = Some r"
  shows "write_response path rx a2 = Some (set_handler kvc (app_http_addrs a2) (\<lambda>_. r) path key v)"
  using assms
  by (auto simp: set_request_def send_command_def set_handler_def write_response_def split: option.splits)

lemma set_handler_internal:
  "set_request kvc key v a = Some (Inl e) \<Longrightarrow> set_handler kvc addrs outcome path key v = Inl e"
  by (auto simp: set_request_def send_command_def set_handler_def opt_bind split: option.splits)

lemma delete_handler_halves:
  assumes "delete_request kvc key a = Some (Inr (rx, a1))" and "await_reply rx (app_node a2) = Some r"
  shows "write_response path rx a2 = Some (delete_handler kvc (app_http_addrs a2) (\<lambda>_. r) path key)"
  using assms
  by (auto simp: delete_request_def send_command_def delete_handler_def write_response_def split: option.splits)

lemma get_handler_halves:
  assumes "await_reply rx (app_node a) = Some r"
  shows "get_response path key rx a = Some (get_handler (app_http_addrs a) r (app_store a) path key)"
  using assms by (simp add: get_response_def get_handler_def)

section \<open>Steps of the process\<close>

datatype app_event =
    SetRequest string string
  | DeleteRequest string
  | GetRequest
  | ApplyNext
  | LoopEvent node_event

fun calls_node :: "node_event \<Rightarrow> bool" where
  "calls_node (CallPropose _) = True"
| "calls_node CallRead = True"
| "calls_node _ = False"

definition after_request :: "'s AppState \<Rightarrow> KvError + reply \<times> 's AppState \<Rightarrow> 's AppState" where
  "after_request a r = (case r of Inl _ \<Rightarrow> a | Inr (_, a1) \<Rightarrow> a1)"

definition app_step ::
  "kv_codec \<Rightarrow> 's Storage \<Rightarrow> answer \<Rightarrow> rng \<times> app_event \<Rightarrow> 's AppState \<Rightarrow> 's AppState option" where
  "app_step kvc st answer e a =
     (case snd e of
        SetRequest key v \<Rightarrow> map_option (after_request a) (set_request kvc key v a)
      | DeleteRequest key \<Rightarrow> map_option (after_request a) (delete_request kvc key a)
      | GetRequest \<Rightarrow> map_option (after_request a) (get_request a)
      | ApplyNext \<Rightarrow> apply_next kvc a
      | LoopEvent ev \<Rightarrow>
          if calls_node ev then None
          else map_option (\<lambda>n. a\<lparr>app_node := n\<rparr>) (node_event_step st answer (fst e, ev) (app_node a)))"

text \<open>The condition under which an \<open>Ok(())\<close> of Raft can be trusted, on the steps that touch the node.\<close>

definition app_undisturbed :: "rng \<times> app_event \<Rightarrow> 's AppState \<Rightarrow> bool" where
  "app_undisturbed e a \<longleftrightarrow>
     (case snd e of
        LoopEvent ev \<Rightarrow> undisturbed (fst e, ev) (app_node a)
      | ApplyNext \<Rightarrow> True
      | _ \<Rightarrow> undisturbed (fst e, CallRead) (app_node a))"

inductive app_reaches ::
  "kv_codec \<Rightarrow> 's Storage \<Rightarrow> answer \<Rightarrow> 's AppState \<Rightarrow> 's AppState \<Rightarrow> bool"
  for kvc st answer a where
  app_start: "app_reaches kvc st answer a a"
| app_more: "app_reaches kvc st answer a a1 \<Longrightarrow> app_undisturbed e a1 \<Longrightarrow>
     app_step kvc st answer e a1 = Some a2 \<Longrightarrow> app_reaches kvc st answer a a2"

primrec app_run ::
  "kv_codec \<Rightarrow> 's Storage \<Rightarrow> answer \<Rightarrow> (rng \<times> app_event) list \<Rightarrow> 's AppState \<Rightarrow> 's AppState option" where
  "app_run kvc st answer [] a = Some a"
| "app_run kvc st answer (e # es) a =
     (if app_undisturbed e a then Option.bind (app_step kvc st answer e a) (app_run kvc st answer es) else None)"

lemma app_run_reaches:
  assumes "app_run kvc st answer es a = Some a'" and "app_reaches kvc st answer a0 a"
  shows "app_reaches kvc st answer a0 a'"
  using assms by (induction es arbitrary: a) (auto simp: opt_bind split: if_splits intro: app_more)

text \<open>A step is one of the node or takes an entry.\<close>

lemma app_step_cases:
  assumes "app_step kvc st answer e a = Some a'" and "app_undisturbed e a"
  obtains (node) ev n where "node_event_step st answer (fst e, ev) (app_node a) = Some n"
      "undisturbed (fst e, ev) (app_node a)" "a' = a\<lparr>app_node := n\<rparr>"
    | (entry) "apply_next kvc a = Some a'"
    | (none) "a' = a"
proof -
  have call: "undisturbed (fst e, CallPropose c) (app_node a)" if "undisturbed (fst e, CallRead) (app_node a)" for c
    using that by (simp add: undisturbed_def sound_event_def)
  have send: thesis
    if "map_option (after_request a) (send_command x a) = Some a'" "undisturbed (fst e, CallRead) (app_node a)" for x
  proof (cases x)
    case None
    with that(1) none show thesis by (simp add: send_command_def after_request_def)
  next
    case (Some c)
    with that(1) obtain rx n where "node_propose c (app_node a) = Some (rx, n)" "a' = a\<lparr>app_node := n\<rparr>"
      by (auto simp: send_command_def after_request_def opt_bind)
    with call [OF that(2), of c] show thesis by (intro node [of "CallPropose c" n]) (simp_all add: node_event_step_def)
  qed
  show thesis
  proof (cases "snd e")
    case GetRequest
    with assms obtain rx n where "node_read_request (app_node a) = Some (rx, n)" "a' = a\<lparr>app_node := n\<rparr>"
      by (auto simp: app_step_def get_request_def after_request_def opt_bind)
    with assms(2) GetRequest show thesis
      by (intro node [of CallRead n]) (simp_all add: node_event_step_def app_undisturbed_def)
  next
    case (LoopEvent ev)
    with assms show thesis by (auto simp: app_step_def app_undisturbed_def split: if_splits intro: node)
  qed (use assms send entry in \<open>auto simp: app_step_def set_request_def delete_request_def app_undisturbed_def\<close>)
qed

section \<open>The channel to the applying task\<close>

text \<open>What the driver has sent stays: every event only adds entries.\<close>

definition sends_more :: "'s RaftDriver \<Rightarrow> 's RaftDriver \<Rightarrow> bool" where
  "sends_more d d' \<longleftrightarrow> (\<exists>zs. drv_applied d' = drv_applied d @ zs)"

lemma sends_more_same [simp]: "drv_applied d' = drv_applied d \<Longrightarrow> sends_more d d'"
  by (simp add: sends_more_def)

lemma sends_more_trans: "sends_more a b \<Longrightarrow> sends_more b c \<Longrightarrow> sends_more a c"
  by (auto simp: sends_more_def)

lemma apply_command_more: "apply_command st answer x d = Some d' \<Longrightarrow> sends_more d d'"
  by (auto simp: apply_command_def opt_bind Let_def send_applied_def sends_more_def split: if_splits
      dest!: take_snapshot_Some(2))

lemma handle_action_more:
  assumes "handle_action st answer a d = Some d'"
  shows "sends_more d d'"
proof (cases a)
  case (ApplyToStateMachine i x)
  with assms have "apply_command st answer x (resolve_proposal i d) = Some d'" by (simp add: handle_action_def)
  from apply_command_more [OF this] show ?thesis
    by (auto simp: sends_more_def resolve_proposal_def reply_to_def split: option.splits)
next
  case (ReadBarrierReady i)
  with assms show ?thesis
    by (auto simp: handle_action_def resolve_read_def reply_to_def sends_more_def split: option.splits)
qed (use assms in \<open>auto simp: handle_action_def opt_bind Let_def send_to_def send_applied_def sends_more_def\<close>)

lemma handle_actions_more: "handle_actions st answer as d = Some d' \<Longrightarrow> sends_more d d'"
proof (induction as arbitrary: d)
  case (Cons a as)
  then obtain d1 where "handle_action st answer a d = Some d1" "handle_actions st answer as d1 = Some d'"
    by (auto simp: opt_bind)
  with Cons.IH handle_action_more show ?case by (blast intro: sends_more_trans)
qed simp

lemma event_step_more:
  assumes "event_step st answer e d = Some d'"
  shows "sends_more d d'"
proof -
  have core: "sends_more d d'" if "handle_actions st answer as (d\<lparr>drv_core := c, pending_proposals := p\<rparr>) = Some d'"
    for as c p d'
    using handle_actions_more [OF that] by (simp add: sends_more_def)
  show ?thesis
  proof (cases "snd e")
    case IntervalTick
    with assms core [where p = "pending_proposals d"] show ?thesis
      by (auto simp: event_step_def on_tick_def opt_bind)
  next
    case (ProposalReceived p)
    with assms have o: "on_proposal st answer p d = Some d'" by (simp add: event_step_def)
    then obtain r c where q: "propose (pr_command p) (drv_core d) = Some (r, c)"
      unfolding on_proposal_def by (rule bind_pair_SomeE)
    show ?thesis
    proof (cases r)
      case None
      with o q show ?thesis by (auto simp: on_proposal_def reply_to_def)
    next
      case (Some as)
      with o q core [where p = "pending_proposals d"] core show ?thesis
        by (cases "first_persist as") (auto simp: on_proposal_def)
    qed
  next
    case (ReadReceived r)
    with assms show ?thesis
      by (auto simp: event_step_def on_read_def opt_bind Let_def reply_to_def split: option.splits)
  next
    case (MessageReceived m)
    with assms core [where p = "pending_proposals d"] show ?thesis
      by (auto simp: event_step_def on_message_def handle_message_def opt_bind Let_def drain_pending_def
          sends_more_def split: if_splits)
  qed
qed

lemma node_event_step_more:
  assumes "node_event_step st answer e n = Some n'"
  shows "sends_more (node_driver n) (node_driver n')"
  using assms
proof (cases rule: node_event_step_cases)
  case (event le n1 d)
  with event_step_more [OF event(2)] show ?thesis by simp
qed simp_all

section \<open>The store follows the node\<close>

definition app_ok :: "kv_codec \<Rightarrow> 's AppState \<Rightarrow> bool" where
  "app_ok kvc a \<longleftrightarrow>
     node_promise (app_node a) \<and> app_taken a \<le> length (app_entries a) \<and>
     apply_task kvc (take (app_taken a) (app_entries a)) Map.empty = Some (app_store a)"

lemma apply_next_ok:
  assumes "apply_next kvc a = Some a'" and "app_ok kvc a"
  shows "app_ok kvc a'"
proof -
  let ?k = "app_taken a" and ?es = "app_entries a"
  from assms(1) obtain entry rest m r where
    e: "drop ?k ?es = entry # rest" "apply_entry kvc entry (app_store a) = Some (m, r)"
    and a': "a' = a\<lparr>app_store := m, app_taken := ?k + 1\<rparr>"
    by (auto simp: apply_next_def opt_bind split: list.splits)
  have k: "?k < length ?es" using e(1) by (metis drop_eq_Nil list.distinct(1) not_le)
  with e(1) have "take (?k + 1) ?es = take ?k ?es @ [entry]"
    by (metis Cons_nth_drop_Suc Suc_eq_plus1 list.inject take_Suc_conv_app_nth)
  with e(2) k assms(2) show ?thesis by (simp add: app_ok_def a' apply_task_append)
qed

lemma app_step_ok:
  assumes "app_step kvc st answer e a = Some a'" and "app_undisturbed e a" and "app_ok kvc a"
  shows "app_ok kvc a'"
  using assms(1,2)
proof (cases rule: app_step_cases)
  case (node ev n)
  have "node_promise n" using node_event_step_promise [OF node(1) _ node(2)] assms(3) by (simp add: app_ok_def)
  with node_event_step_more [OF node(1)] assms(3) show ?thesis
    by (auto simp: app_ok_def node(3) sends_more_def)
qed (use assms(3) apply_next_ok in blast)+

lemma app_reaches_ok:
  assumes "app_reaches kvc st answer a a'" and "app_ok kvc a"
  shows "app_ok kvc a'"
  using assms by (induction rule: app_reaches.induct) (auto intro: app_step_ok)

lemma app_new_ok:
  assumes "node_new rng st config s = Some n"
    and "fst (cfg_election_range config) < snd (cfg_election_range config)"
  shows "app_ok kvc (app_new n addrs)"
  using node_new_promise [OF assms] by (simp add: app_ok_def app_new_def)

section \<open>A key until it is written again\<close>

text \<open>An entry that leaves a key alone.\<close>

definition leaves_key :: "kv_codec \<Rightarrow> string \<Rightarrow> AppliedEntry \<Rightarrow> bool" where
  "leaves_key kvc key entry \<longleftrightarrow>
     (case entry of
        Command b \<Rightarrow>
          (case dec_command kvc b of
             Some (Set k _) \<Rightarrow> k \<noteq> key
           | Some (Delete k) \<Rightarrow> k \<noteq> key
           | _ \<Rightarrow> True)
      | AppliedSnapshot _ \<Rightarrow> False
      | SnapshotRequest \<Rightarrow> True)"

lemma apply_entry_leaves:
  "apply_entry kvc entry m = Some (m', r) \<Longrightarrow> leaves_key kvc key entry \<Longrightarrow> m' key = m key"
  by (auto simp: apply_entry_def leaves_key_def apply_kv_command_def
      split: AppliedEntry.splits option.splits KvCommand.splits)

lemma apply_task_leaves:
  "apply_task kvc es m = Some m' \<Longrightarrow> list_all (leaves_key kvc key) es \<Longrightarrow> m' key = m key"
proof (induction es arbitrary: m)
  case (Cons e es)
  then obtain m1 r where m1: "apply_entry kvc e m = Some (m1, r)" "apply_task kvc es m1 = Some m'"
    by (auto simp: opt_bind)
  with Cons.IH [OF m1(2)] Cons.prems(2) apply_entry_leaves [OF m1(1)] show ?case by simp
qed simp

text \<open>Once the task has taken a write of a key, the key has the value until another entry writes it.\<close>

lemma written_key:
  assumes "app_ok kvc a" and "app_entries a = xs @ Command c # ys" and "dec_command kvc c = Some (Set key v)"
    and "length xs < app_taken a" and "list_all (leaves_key kvc key) (take (app_taken a - length xs - 1) ys)"
  shows "app_store a key = Some v"
proof -
  let ?zs = "take (app_taken a - length xs - 1) ys"
  have "take (app_taken a) (app_entries a) = xs @ Command c # ?zs"
    using assms(4) by (simp add: assms(2) take_Cons' Suc_diff_Suc)
  then obtain m where "apply_task kvc (Command c # ?zs) m = Some (app_store a)"
    using assms(1) by (auto simp: app_ok_def apply_task_append opt_bind)
  then have "apply_task kvc ?zs (m(key \<mapsto> v)) = Some (app_store a)"
    using assms(3) by (simp add: apply_entry_def apply_kv_command_def)
  from apply_task_leaves [OF this assms(5)] show ?thesis by simp
qed

end
