(* ===== verification/AppProperties.thy ===== *)
theory AppProperties
  imports HandleProperties KvNode Transports
begin

text \<open>
  The properties of what surrounds a node: the transports
  (\<open>src/crates/raft-tcp-transport/src/lib.rs\<close>) and the key-value store
  (\<open>src/crates/raft-kv/src/main.rs\<close>), alone and over the driver.
\<close>

section \<open>The transports\<close>

text \<open>A trivial encoding and decoding of messages for the witnesses, and a run of the sender task: the
  connection is refused, then made, lost and made again; the second message comes in while the task is
  disconnected, the third and the fourth go over one connection each.\<close>

definition demo_env :: "nat \<Rightarrow> branch \<Rightarrow> bool \<Rightarrow> environment" where
  "demo_env t b ok =
     \<lparr> env_branch = b, env_now = t, env_wake = t, env_done = t + 5, env_connects = ok,
       env_pending_sent = ok, env_sent = ok \<rparr>"

definition wire_vote :: "nat \<Rightarrow> Message" where
  "wire_vote n = RequestVoteResponse \<lparr> rvr_id = n, rvr_term = 1, rvr_vote_granted = True \<rparr>"

definition enc_vote :: "Message \<Rightarrow> bytes option" where
  "enc_vote m =
     (case m of RequestVoteResponse r \<Rightarrow>
        if r = \<lparr> rvr_id = rvr_id r, rvr_term = 1, rvr_vote_granted = True \<rparr>
        then Some (replicate (rvr_id r) 0) else None
      | _ \<Rightarrow> None)"

definition dec_vote :: "bytes \<Rightarrow> Message option" where
  "dec_vote b = Some (wire_vote (length b))"

definition demo_net :: "environment list" where
  "demo_net =
     [demo_env 0 (FromChannel (Some (wire_vote 1))) False, demo_env 10 Timer False,
      demo_env 20 (FromChannel (Some (wire_vote 2))) False, demo_env 40 Timer True,
      demo_env 50 (FromChannel (Some (wire_vote 3))) True, demo_env 60 PeerClosed True,
      demo_env 70 (FromChannel (Some (wire_vote 4))) False, demo_env 80 Timer True,
      demo_env 90 PeerClosed True]"

lemma dec_enc_vote: "enc_vote m = Some b \<Longrightarrow> dec_vote b = Some m"
  by (cases m) (auto simp: enc_vote_def dec_vote_def wire_vote_def split: if_splits)

lemmas demo_traffic =
  demo_net_def demo_env_def wire_vote_def enc_vote_def taken_def sender_new_def sender_step_def
  disconnected_step_def connected_step_def select_connected_def send_on_def put_last_def fire_def
  MIN_BACKOFF_def MAX_BACKOFF_def

text \<open>The TCP sender task keeps the order.  Whatever the network does, the frames it puts on the wire
  are a subsequence of the encodings of the messages it took from its queue: nothing is reordered,
  duplicated or invented.\<close>

lemma wire_new: "wire sender_new = []"
  and pending_new: "pending sender_new = None"
  by (simp_all add: wire_def sender_new_def)

lemma sender_keeps_order:
  "subseq (wire (sender_run enc envs sender_new)) (encodings enc (all_taken enc envs sender_new))"
  using sender_run_subseq [of enc envs sender_new] wire_new
  by (auto simp: on_the_way_def pending_new intro: subseq_order.order_trans [OF subseq_rev_drop_many])

text \<open>C34: the latest message is never lost by the task.  After any run, the last message it took from its
  queue has been sent last or waits for the connection.\<close>

theorem sender_keeps_latest:
  assumes "all_taken enc envs sender_new \<noteq> []" and "\<forall>m\<in>set (all_taken enc envs sender_new). enc m \<noteq> None"
  shows "keeps_latest enc (last (all_taken enc envs sender_new)) (sender_run enc envs sender_new)"
  using assms by (intro sender_run_latest) auto

theorem sender_keeps_latest_witness:
  "keeps_latest enc_vote (wire_vote 2) (sender_run enc_vote (take 3 demo_net) sender_new)"
  using sender_keeps_latest [of enc_vote "take 3 demo_net"] by (simp add: demo_traffic)

text \<open>C35: the time between two attempts to connect.  In every run of the sender task under a clock that
  does not go back, an attempt begins no earlier than 10 milliseconds after the end of the one before
  if that succeeded, and after \<open>n\<close> refusals in a row no earlier than \<open>2 ^ n * 10\<close> milliseconds, at most
  100, after the last of them ended.  After a refusal the deadline is exactly that moment, and a task
  that has not been shut down attempts again whenever its timer wakes it at that moment or later.\<close>

theorem backoff_doubles:
  assumes "sorted (clock envs)"
  shows "(\<forall>k. Suc k < length (attempts enc envs sender_new) \<longrightarrow>
        at_end (attempts enc envs sender_new ! k) +
          min (2 ^ refusals (take (Suc k) (attempts enc envs sender_new)) * 10) 100
        \<le> at_start (attempts enc envs sender_new ! Suc k)) \<and>
     (attempts enc envs sender_new \<noteq> [] \<and> \<not> at_ok (last (attempts enc envs sender_new)) \<longrightarrow>
        deadline (sender_run enc envs sender_new) =
          Some (at_end (last (attempts enc envs sender_new)) +
            min (2 ^ refusals (attempts enc envs sender_new) * 10) 100) \<and>
        (\<forall>e. \<not> finished (sender_run enc envs sender_new) \<and> env_branch e = Timer \<and>
           at_end (last (attempts enc envs sender_new)) +
             min (2 ^ refusals (attempts enc envs sender_new) * 10) 100 \<le> env_wake e \<longrightarrow>
           attempts enc (envs @ [e]) sender_new = attempts enc envs sender_new @
             [\<lparr> at_start = env_wake e, at_end = env_done e, at_ok = env_connects e \<rparr>]))"
proof -
  from attempts_spaced [OF assms]
  have "paced (attempts enc envs sender_new) (clock envs) (sender_run enc envs sender_new)"
    and "spaced (attempts enc envs sender_new)" by blast+
  then show ?thesis
    by (simp add: spaced_def paced_def delay_def attempts_snoc attempt_of_def fire_def)
qed

theorem backoff_doubles_witness:
  "deadline (sender_run enc_vote [demo_env 10 Timer False, demo_env 20 Timer False, demo_env 50 Timer False]
     sender_new) = Some 95"
proof -
  let ?envs = "[demo_env 10 Timer False, demo_env 20 Timer False, demo_env 50 Timer False]"
  have as: "attempts enc_vote ?envs sender_new =
      [\<lparr> at_start = 20, at_end = 25, at_ok = False \<rparr>, \<lparr> at_start = 50, at_end = 55, at_ok = False \<rparr>]"
    by (simp add: attempt_of_def demo_traffic)
  have c: "sorted (clock ?envs)" by (simp add: clock_def demo_env_def)
  from backoff_doubles [OF c, of enc_vote] show ?thesis unfolding as by (simp add: refusals_def)
qed

text \<open>C36: from one node to another over TCP.  The sender task of the node makes connections one after the
  other; the listener of the peer has one task for each, among those of its other connections, and
  the tasks write into the channel of the peer in any order.  For a codec that decodes what it
  encodes, the peer gets from each connection a prefix of the messages the connection carries, in
  their order; the connections carry together, in the order in which they were made, a subsequence of
  the messages sent to the peer; and so the peer gets each message at most as often as it was sent,
  and over a single connection in the order of sending.  Across connections the order is not kept.\<close>

theorem peer_receives_in_order:
  assumes "send_all tcp_send xs (tcp_new i nodes) = Some t" and "map_of (senders t) n = Some q"
    and "prefix (all_taken enc envs sender_new) q" and "\<And>m b. enc m = Some b \<Longrightarrow> dec b = Some m"
    and "distinct js" and "set js \<subseteq> {..<length cs}"
    and "map ((!) cs) js = connections (sender_run enc envs sender_new)"
  shows "receiver_rx (snd (listener_run dec schedule (cs, tcp_new n nodes))) =
      map snd (arrivals dec schedule cs) \<and>
    (\<forall>k<length js. prefix (from_connection (js ! k) (arrivals dec schedule cs))
      (decoded dec (connections (sender_run enc envs sender_new) ! k))) \<and>
    subseq (concat (map (decoded dec) (connections (sender_run enc envs sender_new)))) (addressed_to n xs) \<and>
    mset (map snd (filter (\<lambda>y. fst y \<in> set js) (arrivals dec schedule cs))) \<subseteq># mset (addressed_to n xs) \<and>
    (length js = 1 \<longrightarrow> subseq (from_connection (hd js) (arrivals dec schedule cs)) (addressed_to n xs))"
proof -
  let ?cs = "connections (sender_run enc envs sender_new)" and ?ys = "arrivals dec schedule cs"
  let ?taken = "all_taken enc envs sender_new"
  have rx: "receiver_rx (snd (listener_run dec schedule (cs, tcp_new n nodes))) = map snd ?ys"
    by (simp add: listener_run_arrivals tcp_new_def)
  have len: "length ?cs = length js" using assms(7) [symmetric] by simp
  have nth: "?cs ! k = cs ! (js ! k)" "js ! k < length cs" if "k < length js" for k
    using that assms(6) nth_mem [OF that] by (simp_all add: assms(7) [symmetric] subset_eq)
  have pre: "\<forall>k<length js. prefix (from_connection (js ! k) ?ys) (decoded dec (?cs ! k))"
    using arrivals_prefix [of "js ! _" dec schedule cs] nth by (metis (full_types))
  have "q = addressed_to n xs"
    using tcp.send_all_in_order [of "tcp_new i nodes" xs] assms(1,2)
    by (auto simp: tcp_new_queue split: if_splits)
  with assms(3) have q: "subseq (filter (\<lambda>m. enc m \<noteq> None) ?taken) (addressed_to n xs)"
    by (meson prefix_imp_subseq subseq_filter_left subseq_order.order_trans)
  have "concat (map (decoded dec) ?cs) = decoded dec (wire (sender_run enc envs sender_new))"
    by (simp add: decoded_concat wire_def)
  also have "subseq \<dots> (filter (\<lambda>m. enc m \<noteq> None) ?taken)"
    using decoded_subseq [OF sender_keeps_order, of dec enc envs] decoded_encodings [OF assms(4)] by simp
  finally have sub: "subseq (concat (map (decoded dec) ?cs)) (addressed_to n xs)"
    using q subseq_order.order_trans by blast
  have "mset (concat (map (\<lambda>j. from_connection j ?ys) js)) \<subseteq># mset (concat (map (decoded dec) ?cs))"
    using pre len by (intro concat_prefix_mset) simp_all
  also have "\<dots> \<subseteq># mset (addressed_to n xs)" using sub by (rule subseq_mset)
  finally have count: "mset (map snd (filter (\<lambda>y. fst y \<in> set js) ?ys)) \<subseteq># mset (addressed_to n xs)"
    unfolding arrivals_of_connections [OF assms(5)] .
  have "length js = 1 \<longrightarrow> subseq (from_connection (hd js) ?ys) (addressed_to n xs)"
  proof
    assume "length js = 1"
    with len obtain j c where "js = [j]" "?cs = [c]" by (auto simp: length_Suc_conv)
    with pre sub show "subseq (from_connection (hd js) ?ys) (addressed_to n xs)"
      by (auto dest: prefix_imp_subseq intro: subseq_order.order_trans)
  qed
  with rx pre sub count show ?thesis by blast
qed

text \<open>The second connection is read first, and the fourth message overtakes the second and the third.\<close>

theorem peer_receives_in_order_witness:
  "receiver_rx (snd (listener_run dec_vote [2, 0, 0]
       ([replicate 2 0, replicate 3 0] # [[]] @ [[replicate 4 0]], tcp_new 2 [1, 2, 3]))) =
     map wire_vote [4, 2, 3] \<and>
   mset (map wire_vote [4, 2, 3]) \<subseteq>#
     mset (addressed_to 2 ((3, wire_vote 9) # map (Pair 2) (map wire_vote [1, 2, 3, 4])))"
proof -
  let ?xs = "(3, wire_vote 9) # map (Pair 2) (map wire_vote [1, 2, 3, 4])"
  let ?t = "\<lparr> senders = [(2, map wire_vote [1, 2, 3, 4]), (3, [wire_vote 9])], receiver_rx = [] \<rparr>"
  let ?cs = "[[replicate 2 0, replicate 3 0], [], [replicate 4 0]] :: bytes list list"
  have "send_all tcp_send ?xs (tcp_new 1 [1, 2, 3]) = Some ?t" "map_of (senders ?t) 2 = Some (map wire_vote [1, 2, 3, 4])"
    "prefix (all_taken enc_vote demo_net sender_new) (map wire_vote [1, 2, 3, 4])"
    "distinct [0, 2 :: nat]" "set [0, 2] \<subseteq> {..<length ?cs}"
    "map ((!) ?cs) [0, 2] = connections (sender_run enc_vote demo_net sender_new)"
    by (simp_all add: tcp_send_def tcp_new_def demo_traffic sender_run_def Let_def)
  from peer_receives_in_order [where enc = enc_vote and dec = dec_vote and schedule = "[2, 0, 0]",
      OF this(1-3) dec_enc_vote this(4-6)] show ?thesis
    by (simp add: dec_vote_def)
qed

section \<open>The key-value store\<close>

text \<open>C18: a confirmed write is stored.  A process of the key-value store runs from its start, with its
  handlers, its Raft node and its applying task in any order, while the counters of the core are not about
  to overflow, the messages are those that honest nodes send (as in C6) and no \<open>AppendEntries\<close> request of
  a later term reaches the node while it leads; the codec decodes what it encodes and no command is
  encoded by nothing.  When the handler of a set request has answered with success, the encoded command has
  been sent to the applying task, and from the moment the task has taken it the key has the value, until
  an entry that writes the key again or replaces the whole map is taken.\<close>

theorem confirmed_write_stored:
  assumes "node_new rng st config s = Some n0" and "app_reaches kvc st answer (app_new n0 addrs) a"
    and "fst (cfg_election_range config) < snd (cfg_election_range config)"
    and "kv_codec_ok kvc" and "dec_command kvc [] = None" and "enc_command kvc (Set key v) = Some c"
    and "proposed (node_calls (app_node a)) rx = Some c" and "write_response uri rx a = Some (Inr True)"
  shows "\<exists>xs ys. app_entries a = xs @ Command c # ys \<and>
     (length xs < app_taken a \<longrightarrow> list_all (leaves_key kvc key) (take (app_taken a - length xs - 1) ys) \<longrightarrow>
        app_store a key = Some v)"
proof -
  have ok: "app_ok kvc a" using app_reaches_ok [OF assms(2) app_new_ok [OF assms(1,3)]] .
  have d: "dec_command kvc c = Some (Set key v)"
    using assms(4,6) unfolding kv_codec_ok_def by (metis option.inject)
  with assms(5) have "c \<noteq> []" by auto
  moreover have "await_reply rx (app_node a) = Some None"
    using assms(8) by (auto simp: write_response_def opt_bind split: option.splits)
  ultimately have "Command c \<in> set (app_entries a)"
    using promised_command [of "app_node a" rx c] ok assms(7) by (simp add: app_ok_def)
  then obtain xs ys where e: "app_entries a = xs @ Command c # ys" by (auto simp: in_set_conv_decomp)
  with written_key [OF ok e d] show ?thesis by blast
qed

text \<open>A process that is elected, gets a set request, and applies it when node 2 acknowledges the entry.\<close>

definition write_events :: "(rng \<times> app_event) list" where
  "write_events = map (Pair demo_rng)
     [LoopEvent LoopTick,
      LoopEvent (LoopMessage (RequestVoteResponse \<lparr> rvr_id = 2, rvr_term = 1, rvr_vote_granted = True \<rparr>)),
      SetRequest ''k'' ''v'', LoopEvent LoopProposal, LoopEvent (LoopMessage demo_ack), ApplyNext]"

lemma write_run:
  "\<exists>a. app_run plain_codec (memory_storage unary_codec) (\<lambda>_. []) write_events (app_new handle_node []) = Some a \<and>
     proposed (node_calls (app_node a)) 0 = Some (plain_enc (Set ''k'' ''v'')) \<and>
     write_response ''/key'' 0 a = Some (Inr True) \<and>
     app_entries a = [Command (plain_enc (Set ''k'' ''v''))] \<and> app_taken a = 1"
  by (simp add: write_events_def handle_node_def app_new_def app_step_def app_undisturbed_def set_request_def
      send_command_def after_request_def apply_next_def apply_entry_def proposed_def write_response_def
      plain_codec_def length_enc_nat exec handle_memory handle_guards del: plain_dec.simps)

theorem confirmed_write_stored_witness:
  "\<exists>a. app_reaches plain_codec (memory_storage unary_codec) (\<lambda>_. []) (app_new handle_node []) a \<and>
     write_response ''/key'' 0 a = Some (Inr True) \<and> app_store a ''k'' = Some ''v''"
proof -
  let ?c = "plain_enc (Set ''k'' ''v'')"
  from write_run obtain a where
    a: "app_run plain_codec (memory_storage unary_codec) (\<lambda>_. []) write_events (app_new handle_node []) = Some a"
      "proposed (node_calls (app_node a)) 0 = Some ?c" "write_response ''/key'' 0 a = Some (Inr True)"
      "app_entries a = [Command ?c]" "app_taken a = 1" by (elim exE conjE) (rule that)
  note r = app_run_reaches [OF a(1) app_start]
  have "\<exists>xs ys. app_entries a = xs @ Command ?c # ys \<and>
     (length xs < app_taken a \<longrightarrow> list_all (leaves_key plain_codec ''k'') (take (app_taken a - length xs - 1) ys) \<longrightarrow>
        app_store a ''k'' = Some ''v'')"
    by (rule confirmed_write_stored [OF handle_node_new r _ plain_codec_ok _ _ a(2,3)])
      (simp_all add: handle_config_def plain_codec_def)
  then have "app_store a ''k'' = Some ''v''" by (auto simp: a(4,5) Cons_eq_append_conv)
  with r a(3) show ?thesis by blast
qed

text \<open>The application as the driver sees it: the bytes that the task of the key-value store sends back for
  a snapshot request, after everything it was sent since it started with an empty map.\<close>

definition kv_answer :: "kv_codec \<Rightarrow> answer" where
  "kv_answer kvc entries =
     (case apply_task kvc (butlast entries) Map.empty of
        None \<Rightarrow> []
      | Some m \<Rightarrow>
          (case apply_entry kvc (last entries) m of Some (_, Some b) \<Rightarrow> b | _ \<Rightarrow> []))"

text \<open>C37: a snapshot carries the state of the store.  When the storage mirrors the core and has a log file,
  the driver of a key-value node takes a snapshot without a panic, and the snapshot it writes to its
  disk, installed on any other replica, gives that replica the map that results from all entries this
  driver has sent to its application so far.  The snapshot is filed under the index and term of the
  last applied entry of the core, which in the middle of the actions of one event can be ahead of the
  entries sent.\<close>

theorem snapshot_carries_store:
  assumes "file_holds pc (drv_storage d) D" and "file_has_log (drv_storage d)"
    and "mirrors D (drv_core d)" and "log_ok (drv_core d)"
    and "kv_codec_ok kvc" and "apply_task kvc (drv_applied d) Map.empty = Some m" and "finite (dom m)"
  shows "\<exists>d' sn. take_snapshot (file_storage pc) (kv_answer kvc) d = Some d' \<and>
     file_restore_snapshot pc (drv_storage d') = Inr (Some sn) \<and>
     sn_last_included_index sn = last_applied (drv_core d) \<and>
     log_term_at (drv_core d) (last_applied (drv_core d)) = Some (sn_last_included_term sn) \<and>
     (\<forall>n. apply_entry kvc (AppliedSnapshot (sn_data sn)) n = Some (m, None))"
proof -
  from disk_file.take_snapshot_effect [OF assms(1-4), of "kv_answer kvc"] obtain d' D' sn where
    d': "take_snapshot (file_storage pc) (kv_answer kvc) d = Some d'" "file_holds pc (drv_storage d') D'"
      "d_snapshot D' = Some sn" "sn_last_included_index sn = last_applied (drv_core d)"
      "sn_data sn = kv_answer kvc (drv_applied d @ [SnapshotRequest])"
      "log_term_at (drv_core d) (last_applied (drv_core d)) = Some (sn_last_included_term sn)"
    by blast
  from snapshot_restores [OF assms(5,7)] obtain b where
    b: "apply_entry kvc SnapshotRequest m = Some (m, Some b)"
      "\<forall>n. apply_entry kvc (AppliedSnapshot b) n = Some (m, None)" by blast
  have "sn_data sn = b" using d'(5) assms(6) b(1) by (simp add: kv_answer_def)
  moreover have "file_restore_snapshot pc (drv_storage d') = Inr (Some sn)"
    using disk_file.restore_snapshot [OF d'(2)] d'(3) by (simp add: file_storage_def)
  ultimately show ?thesis using d'(1,4,6) b(2) by blast
qed

theorem snapshot_carries_store_witness:
  "\<exists>d' sn. take_snapshot (file_storage unary_codec) (kv_answer plain_codec)
        ((demo_driver demo_follower demo_files)\<lparr>drv_applied := [Command (plain_enc (Set ''a'' ''b''))]\<rparr>) = Some d' \<and>
     file_restore_snapshot unary_codec (drv_storage d') = Inr (Some sn) \<and> sn_last_included_index sn = 1 \<and>
     (\<forall>n. apply_entry plain_codec (AppliedSnapshot (sn_data sn)) n = Some ([''a'' \<mapsto> ''b''], None))"
proof -
  let ?d = "(demo_driver demo_follower demo_files)\<lparr>drv_applied := [Command (plain_enc (Set ''a'' ''b''))]\<rparr>"
  have c: "drv_core ?d = demo_follower" "drv_storage ?d = demo_files"
    "drv_applied ?d = [Command (plain_enc (Set ''a'' ''b''))]"
    by (simp_all add: demo_driver_def)
  have "apply_task plain_codec [Command (plain_enc (Set ''a'' ''b''))] Map.empty = Some [''a'' \<mapsto> ''b'']"
    using plain_codec_ok by (simp add: kv_codec_ok_def apply_entry_def apply_kv_command_def plain_codec_def)
  moreover have "log_ok demo_follower" "last_applied demo_follower = 1" by (simp_all add: predicates demo_nodes)
  moreover have "mirrors (core_disk demo_follower) (drv_core ?d)" "file_has_log (drv_storage ?d)"
    "file_holds unary_codec (drv_storage ?d) (core_disk demo_follower)" "finite (dom [''a'' \<mapsto> ''b''])"
    unfolding c by (simp_all add: demo_files_hold demo_mirrors demo_files_has_log)
  ultimately obtain d' sn where
    "take_snapshot (file_storage unary_codec) (kv_answer plain_codec) ?d = Some d'"
    "file_restore_snapshot unary_codec (drv_storage d') = Inr (Some sn)" "sn_last_included_index sn = 1"
    "\<forall>n. apply_entry plain_codec (AppliedSnapshot (sn_data sn)) n = Some ([''a'' \<mapsto> ''b''], None)"
    using snapshot_carries_store [of unary_codec ?d "core_disk demo_follower" plain_codec "[''a'' \<mapsto> ''b'']"]
    unfolding c using plain_codec_ok by metis
  then show ?thesis by blast
qed

text \<open>C38: a process that starts has an identity among the configured nodes, which are the numbers from 1
  to the number of addresses, and an election range that is not empty.\<close>

theorem start_up_in_cluster:
  assumes "start_up hostname args = Some (addrs, config)"
  shows "cfg_id config \<in> set (cfg_nodes config) \<and> cfg_nodes config = [1..<length (arg_nodes args) + 1] \<and>
     fst (cfg_election_range config) < snd (cfg_election_range config)"
proof -
  from start_up_Some [OF assms] obtain n where
    n: "config = build_config n args" "0 < n" "n \<le> length (arg_nodes args)" by blast
  have "cfg_id config \<in> set [1..<length (arg_nodes args) + 1]" using n by (auto simp: build_config_def)
  moreover have "cfg_nodes config = [1..<length (arg_nodes args) + 1]" using n(1) by (simp only: cfg_nodes_build)
  moreover have "fst (cfg_election_range config) < snd (cfg_election_range config)"
    using n(1) by (simp add: build_config_def)
  ultimately show ?thesis by metis
qed

definition demo_args :: Args where
  "demo_args =
     \<lparr> arg_nodes = [''h1:70'', ''h2:71'', ''h3:72''], arg_http_nodes = None, arg_id = Some 2,
       arg_derive_id = False, arg_bind_port = 71, arg_addr_port = 8 \<rparr>"

lemma demo_start_up:
  "start_up None demo_args =
     Some ([(1, ''h1:8''), (2, ''h2:8''), (3, ''h3:8'')], build_config 2 demo_args)"
  by (simp add: start_up_def demo_args_def http_addrs_def resolve_id_def rsplit_once_def parse_u16_def
      parse_u64_def digit_value_def show_nat.simps [of 8] digit_def char_of_def bit_0)

theorem start_up_in_cluster_witness:
  "cfg_id (build_config 2 demo_args) \<in> set (cfg_nodes (build_config 2 demo_args)) \<and>
   cfg_nodes (build_config 2 demo_args) = [1, 2, 3]"
proof -
  have "[1..<length (arg_nodes demo_args) + 1] = [1, 2, 3]" by (simp add: demo_args_def upt_rec numeral_eq_Suc)
  with start_up_in_cluster [OF demo_start_up] show ?thesis by metis
qed

text \<open>C39: a request that reaches a follower is redirected to the HTTP address of the leader the node knows:
  the one configured for it, or its Raft host with the HTTP port of this node.\<close>

theorem redirect_to_leader:
  assumes "start_up hostname args = Some (addrs, config)" and "i \<in> set (cfg_nodes config)"
  shows "\<exists>addr. into_response (map_proposal_error addrs (FollowerNode (Some i)) uri) =
       \<lparr> resp_status = 307, resp_headers = [(''location'', ''http://'' @ addr @ uri)] \<rparr> \<and>
     (case arg_http_nodes args of
        Some hs \<Rightarrow> addr = hs ! (i - 1)
      | None \<Rightarrow> \<exists>ip port. rsplit_once (CHR '':'') (arg_nodes args ! (i - 1)) = Some (ip, port) \<and>
                  addr = ip @ '':'' @ show_nat (arg_addr_port args))"
proof -
  from start_up_Some [OF assms(1)] obtain n where c: "config = build_config n args"
    and a: "http_addrs args = Some addrs"
    and l: "\<And>hs. arg_http_nodes args = Some hs \<Longrightarrow> length hs = length (arg_nodes args)" by blast
  from c assms(2) have i: "0 < i" "i \<le> length (arg_nodes args)" by (auto simp: cfg_nodes_build)
  show ?thesis
  proof (cases "arg_http_nodes args")
    case None
    from http_addrs_derived [OF None a i] None show ?thesis
      by (auto simp: map_proposal_error_def into_response_def)
  next
    case (Some hs)
    from http_addrs_explicit [OF Some a, of i] i l [OF Some] Some show ?thesis
      by (simp add: map_proposal_error_def into_response_def)
  qed
qed

theorem redirect_to_leader_witness:
  "\<exists>addr. into_response (map_proposal_error [(1, ''h1:8''), (2, ''h2:8''), (3, ''h3:8'')] (FollowerNode (Some 3)) ''/key'') =
       \<lparr> resp_status = 307, resp_headers = [(''location'', ''http://'' @ addr @ ''/key'')] \<rparr>"
  using redirect_to_leader [OF demo_start_up, of 3 "''/key''"]
  by (auto simp: cfg_nodes_build demo_args_def)

end
