(* ===== verification/Spec2Isabelle.thy ===== *)
theory Spec2Isabelle
  imports LogMatching StateMachineSafety ElectionProgress CatchUp ReplicationTests StorageTests AppTests
    CoreProperties NodeProperties HandleProperties AppProperties
begin

text \<open>
  A verification of \<open>ferris-ferry\<close>, an implementation of the Raft consensus protocol in Rust with a
  replicated key-value store on top (the crates under \<open>src/crates\<close>).

  \<^bold>\<open>The program.\<close>  \<open>raftcore\<close> is the protocol as a state machine without input or output: every call
  changes one \<open>RaftCore\<close> and returns a list of \<open>Action\<close>s.  \<open>raft-event-loop\<close> is the driver: one task that
  waits for a tick, a proposal, a read request or a message, calls the core and carries the actions out on
  a \<open>Storage\<close>, a \<open>Transport\<close> and the channel to the application.  \<open>raft-file-storage\<close> and \<open>raft-test-utils\<close>
  provide the storages, \<open>raft-tcp-transport\<close> and \<open>raft-test-utils\<close> the transports, \<open>raft-kv\<close> is the
  application: it proposes commands that come in over HTTP and applies the committed ones to a map.

  \<^bold>\<open>The theories and the code.\<close>
  \<^item> \<open>Prelude\<close>: \<open>u64\<close> as a natural number with checked operations (\<open>u64_add\<close>, \<open>u64_sub\<close>: an overflow is a
    panic, as in a build with overflow checks), \<open>Option\<close> plumbing, list lemmas, the collection \<open>exec\<close>
    with which concrete runs are evaluated.
  \<^item> \<open>RaftTypes\<close>: the messages, entries, actions and states of \<open>raftcore/src/types.rs\<close>, and the struct
    \<open>RaftCore\<close>.  A hash map is an association list in insertion order, a hash set a set.
  \<^item> \<open>RaftLog\<close>: \<open>new\<close>, \<open>restore\<close>, \<open>restore_with_snapshot\<close> and the access to the log behind a snapshot
    (\<open>log_entry_at\<close>, \<open>log_term_at\<close>, \<open>log_slice\<close>, \<open>last_log_index\<close>, \<open>last_log_term\<close>).
  \<^item> \<open>RaftContract\<close>: what every operation keeps, as the locale \<open>core_operation\<close>; its lemmas lift the
    contract to sequences of operations.
  \<^item> \<open>RaftSend\<close>: \<open>build_append_entries_for_peer\<close>, \<open>append_entries\<close>, \<open>heartbeat\<close>, \<open>propose\<close>,
    \<open>request_read_barrier\<close>, \<open>initialize_leader_state\<close>.
  \<^item> \<open>RaftElection\<close>: \<open>tick\<close>, \<open>election_timeout_check\<close>, \<open>check_msg_term\<close>, \<open>handle_request_vote\<close> and
    \<open>handle_request_vote_response\<close>.
  \<^item> \<open>RaftFollower\<close>: \<open>handle_append_entries\<close>.  \<open>RaftLeader\<close>: \<open>handle_append_entries_response\<close>.
  \<^item> \<open>RaftSnapshot\<close>: \<open>prepare_snapshot\<close>, \<open>complete_snapshot\<close>, \<open>handle_install_snapshot\<close> and
    \<open>handle_install_snapshot_response\<close>.
  \<^item> \<open>RaftMachine\<close>: the calls a driver makes as one step function \<open>core_step\<close>, the invariant
    \<open>core_inv\<close> and its preservation, and the interpretation of \<open>core_operation\<close>.
  \<^item> \<open>Cluster\<close>: any number of cores over a network that delays, reorders, duplicates and loses messages,
    with crashes between any two actions of a step, as the relation \<open>reachable\<close>; the locale
    \<open>quorum_system\<close>, interpreted on the majorities of the members.
  \<^item> \<open>LogPaths\<close>, \<open>LogMatching\<close>: the history of all entries, logs as paths through it, and the runs in
    which a node restores what it had persisted (\<open>durable_reachable\<close>).
  \<^item> \<open>Agreement\<close>: the abstract protocol: terms, logs, votes, what a majority has held; an entry chosen in
    a term is in the log of every later leader.  \<open>SafeInvariant\<close>, \<open>SafeSteps\<close>, \<open>StateMachineSafety\<close>: the
    cluster refines it, operation by operation, crashes included.
  \<^item> \<open>TestCluster\<close>: the test harness of \<open>raftcore\<close>, a synchronous network with partitions.  \<open>Replication\<close>,
    \<open>ElectionProgress\<close>: one round of replication and one election in it.  \<open>CatchUp\<close>: the exchange between
    a leader and a follower whose log differs.
  \<^item> \<open>LogTests\<close>, \<open>ElectionTests\<close>, \<open>ReplicationTests\<close>: the tests in \<open>raftcore/src/lib.rs\<close> as functions
    that return \<open>None\<close> when an assertion fails, and that they pass.
  \<^item> \<open>DriverTypes\<close>, \<open>Strings\<close>: \<open>raft-event-loop/src/types.rs\<close> and the \<open>Display\<close> implementations.
  \<^item> \<open>Framing\<close>: the byte format of the log, shared by the storages.
  \<^item> \<open>StorageContract\<close>: the trait \<open>Storage\<close> as the locale \<open>storage_contract\<close> over an abstract disk.
  \<^item> \<open>EventLoop\<close>: \<open>RaftDriver\<close> with its start from storage, each branch of the loop and each action; in the
    locale, that the storage follows the core.
  \<^item> \<open>NodeHandles\<close>: \<open>RaftNode\<close>, the handle of the application, with its channels and the loop behind them;
    callers and loop interleave as the relation \<open>node_reaches\<close>.
  \<^item> \<open>FileStorage\<close>, \<open>MemoryStorage\<close>: the two storages, each an interpretation of \<open>storage_contract\<close>, and
    the directories a crash can leave behind.
  \<^item> \<open>Transports\<close>: the TCP sender task with its connections and its clock, the listener with one task per
    accepted connection under any schedule, the queues and the in-process channels, both interpretations
    of the locale \<open>transport\<close>.
  \<^item> \<open>KvStore\<close>: \<open>raft-kv/src/main.rs\<close>: identity, configuration, commands, the applying task and the
    handlers.  \<open>KvNode\<close>: the process as a whole, with its handlers, Raft node and applying task in any order
    (\<open>app_reaches\<close>).
  \<^item> \<open>StorageTests\<close>, \<open>AppTests\<close>: the tests of the storages, the TCP transport and the store.
  \<^item> \<open>DemoCodecs\<close>: codecs for the witnesses.  \<open>CoreProperties\<close>, \<open>NodeProperties\<close>, \<open>HandleProperties\<close>,
    \<open>AppProperties\<close> and this theory: the properties.

  \<^bold>\<open>What is shown.\<close>  Of a cluster: at most one leader per term when no vote reaches a node of a later term
  (C1); log matching, when moreover nodes come back from a crash with what they had persisted
  and no leader gets a snapshot from a second leader of its term
  (C2); state machine safety and leader completeness, when moreover the number of members is odd,
  no snapshots are taken or sent, append responses are handled only by the leader of their term and no
  refusal lacks a conflicting index
  (C3, C4).  The conditions stand for behaviours of the code: a vote of an earlier
  election is counted (the run \<open>stale_vote_two_leaders\<close>), a refusal of an earlier term makes a leader send a
  request that lets the receiver apply entries that differ from the leader's (C27), and an
  even cluster commits on half of its members (C11).  In a
  synchronous network a cluster elects a leader and applies everything proposed (C5), and a
  follower with another log is brought up to date in a bounded number of requests (C19).
  Of one core: that no call panics on a state that satisfies the invariant when the message is one that
  honest nodes send and no counter is about to overflow, and that the invariant, the order
  of the commit index and the agreement of the emitted persistence actions with the log are kept
  (C6); the vote and metadata discipline (C7, C8); the effect of each
  handler on every branch (C9 to C13, C20, C21,
  C29).  Of a node: that the disk follows the core through every event and that a restart
  gives back the persistent state (C14, C15, C26); that every call
  of the application is answered once, that a confirmed command that is not empty has been applied, and that
  a confirmed write is in the store (C16, C17, C18), the last two unless a request of a
  later leader reaches a node while it leads: then the command can be lost although it is confirmed
  (C28).  Of the storages: round trips, crash safety, and that the two agree
  but for an empty log (C22 to C25).  Of the transports and the store: the order within a
  connection and that nothing is duplicated, the time between attempts to connect, snapshots, identity,
  redirects (C34 to C39).  C30, C31, C32 and
  C33 are further behaviours that depart from what the protocol or a comment says.  The tests of all
  crates pass on the model, those of the log for every generator of timeouts and those of the storages for
  every encoding.

  \<^bold>\<open>Parameters.\<close>  The random number generator (\<open>rng\<close>, with \<open>rng_ok\<close>: a number in a range that is not
  empty), the \<open>postcard\<close> encodings (\<open>codec_ok\<close>, \<open>kv_codec_ok\<close>: values are decoded to themselves), the
  network and the clock (arguments of the steps), the application (\<open>answer\<close>).  Errors of the storage device
  are not modelled; errors that depend on the contents are.  A crash is one of the process: what it has
  written, in the order in which it has written it, is what the next start finds; a loss of power that
  drops or reorders writes is not covered.  An overflow is a panic, as in a build with overflow checks; the
  bounds on the counters in the theorems exclude it.  A hash map is iterated in insertion order, which
  fixes the order of the actions that release several read barriers at once; no theorem depends on it.

  \<^bold>\<open>Termination.\<close>  Every loop of the code is a recursion with a proof of termination.  Only \<open>catch_up\<close>, the
  exchange of requests and refusals, has a bound as an argument: as many requests as the previous index of
  the first one plus one, which C19 proves to be enough.  The loop of the driver and the sender task run for ever; they are
  functions of the finite list of events they have handled.

  \<^bold>\<open>Not modelled.\<close>  Logging, the handling of signals, the binding of sockets and the routing of HTTP
  requests, since they only call libraries.  The channels of \<open>tokio\<close> are queues; that the channel to the
  application is bounded only delays the driver and is left out.  Build files, container images and
  Kubernetes manifests hold no program logic.
\<close>

section \<open>Concrete nodes\<close>





section \<open>A cluster\<close>

text \<open>C1: in every state a cluster can reach, whatever the network and crashes do, as long as no vote is
  delivered to a node that has moved on to a later term, at most one node has been leader in a term.\<close>

theorem election_safety:
  assumes "reachable members c" and "(t, n) \<in> led c" and "(t, m) \<in> led c"
  shows "n = m"
  using assms by (rule one_leader_per_term)

theorem election_safety_witness:
  "\<exists>c n m. cluster_run demo_members orderly_run demo_cluster = Some c \<and>
     (1, n) \<in> led c \<and> (1, m) \<in> led c \<and> n = m"
proof -
  obtain c where c: "cluster_run demo_members orderly_run demo_cluster = Some c" and l: "(1, 1) \<in> led c"
    by (simp add: exec)
  have "timely_run demo_members orderly_run demo_cluster" by (simp add: exec)
  then have "reachable demo_members c" using c by (rule cluster_run_reachable [OF demo_cluster_reachable])
  from election_safety [OF this l l] c l show ?thesis by blast
qed

text \<open>C2: log matching.  In every state a cluster can reach in which no vote is delivered to a node that has
  moved on to a later term, no second leader of a term sends a leader a snapshot, and a node that crashed
  comes back with what its actions had persisted: if the logs of two nodes have an entry of the same term
  at some index, they have the same entry at every index up to it that neither has compacted.\<close>

theorem log_matching:
  assumes "durable_reachable members c" and "n \<in> set members" and "m \<in> set members"
    and "log_entry_at (cores c n) i = Some e" and "log_entry_at (cores c m) i = Some e'"
    and "le_term e = le_term e'" and "j \<le> i"
    and "last_included_index (cores c n) < j" and "last_included_index (cores c m) < j"
  shows "log_entry_at (cores c n) j = log_entry_at (cores c m) j"
  using assms by (rule logs_match)

theorem log_matching_witness:
  "\<exists>c. cluster_run demo_members replication_run demo_cluster = Some c \<and>
     log_entry_at (cores c 1) 1 = log_entry_at (cores c 2) 1 \<and> log_entry_at (cores c 2) 1 = Some demo_first"
proof -
  obtain c where c: "cluster_run demo_members replication_run demo_cluster = Some c"
    and e: "log_entry_at (cores c 1) 1 = Some demo_first" "log_entry_at (cores c 2) 1 = Some demo_first"
    and b: "last_included_index (cores c 1) < 1" "last_included_index (cores c 2) < 1"
    by (simp add: exec)
  have "durable_run demo_members replication_run demo_cluster" by (simp add: exec)
  from cluster_run_durable [OF demo_cluster_durable this c] have d: "durable_reachable demo_members c" .
  have "1 \<in> set demo_members" "2 \<in> set demo_members" by (simp_all add: demo_members_def)
  from log_matching [OF d this e refl order.refl b] c e show ?thesis by blast
qed

text \<open>C3: state machine safety.  A cluster of an odd number of members in which
  no vote is delivered to a node that has moved on to a later term;
  a node that crashed comes back with what its actions had persisted;
  no snapshot is taken, sent or received, so that no log is compacted;
  an AppendEntries response is handled only by a node that leads the term of the response;
  and no refusal that lacks a conflicting index is handled.
  If a node has applied an index and, then or later, a node has applied the same index, both have the same
  entry there.\<close>

theorem state_machine_safety:
  assumes "calm_reachable members c" and "calm_steps members c c'" and "odd (card (set members))"
    and "n \<in> set members" and "m \<in> set members"
    and "0 < i" and "i \<le> last_applied (cores c n)" and "i \<le> last_applied (cores c' m)"
  shows "\<exists>e. log_entry_at (cores c n) i = Some e \<and> log_entry_at (cores c' m) i = Some e"
  using assms by (rule applied_agree)

theorem state_machine_safety_witness:
  "\<exists>c c'. cluster_run demo_members commit_run demo_cluster = Some c \<and> cluster_run demo_members apply_run c = Some c' \<and>
     last_applied (cores c 1) = 1 \<and> last_applied (cores c' 2) = 1 \<and>
     log_entry_at (cores c 1) 1 = log_entry_at (cores c' 2) 1"
proof -
  obtain c where c: "cluster_run demo_members commit_run demo_cluster = Some c" and a: "last_applied (cores c 1) = 1"
    by (simp add: exec)
  obtain c' where c': "cluster_run demo_members (commit_run @ apply_run) demo_cluster = Some c'"
    and a': "last_applied (cores c' 2) = 1" by (simp add: exec)
  have "calm_run demo_members (commit_run @ apply_run) demo_cluster" by (simp add: exec)
  note r = calm_demo_runs [OF this c c']
  have "\<exists>e. log_entry_at (cores c 1) 1 = Some e \<and> log_entry_at (cores c' 2) 1 = Some e"
    using r a a' by (intro state_machine_safety [of demo_members c c' 1 2 1]) (simp_all add: demo_members_def)
  with c r(3) a a' show ?thesis by auto
qed

text \<open>C4: leader completeness.  In a cluster that satisfies all conditions of C3 (an odd number of members, no
  vote delivered to a node of a later term, restarts with what was persisted, no snapshots, append
  responses handled only by the leader of their term, no refusal without a conflicting index), a leader
  has every entry that a node had applied by the time it was in the leader's term or an earlier one.\<close>

theorem leader_completeness:
  assumes "calm_reachable members c" and "calm_steps members c c'" and "odd (card (set members))"
    and "n \<in> set members" and "m \<in> set members" and "state (cores c' m) = Leader"
    and "current_term (cores c n) \<le> current_term (cores c' m)"
    and "0 < i" and "i \<le> last_applied (cores c n)"
  shows "\<exists>e. log_entry_at (cores c n) i = Some e \<and> log_entry_at (cores c' m) i = Some e"
  using assms by (rule leader_complete)

theorem leader_completeness_witness:
  "\<exists>c c'. cluster_run demo_members commit_run demo_cluster = Some c \<and>
     cluster_run demo_members takeover_run c = Some c' \<and> state (cores c' 2) = Leader \<and>
     current_term (cores c' 2) = 2 \<and> log_entry_at (cores c 1) 1 = log_entry_at (cores c' 2) 1"
proof -
  obtain c where c: "cluster_run demo_members commit_run demo_cluster = Some c" and a: "last_applied (cores c 1) = 1"
    "current_term (cores c 1) = 1" by (simp add: exec)
  obtain c' where c': "cluster_run demo_members (commit_run @ takeover_run) demo_cluster = Some c'"
    and a': "state (cores c' 2) = Leader" "current_term (cores c' 2) = 2" by (simp add: exec)
  have "calm_run demo_members (commit_run @ takeover_run) demo_cluster" by (simp add: exec)
  note r = calm_demo_runs [OF this c c']
  have "\<exists>e. log_entry_at (cores c 1) 1 = Some e \<and> log_entry_at (cores c' 2) 1 = Some e"
    using r a a' by (intro leader_completeness [of demo_members c c' 1 2 1]) (simp_all add: demo_members_def)
  with c r(3) a' show ?thesis by auto
qed

section \<open>Progress\<close>

text \<open>C5: progress in a synchronous network.  From a fresh start of any number of nodes between 3 and 25 (the
  rounds of the harness are bounded), the node whose timeout passes is elected, and every list of commands
  that is then proposed to it, one after the other, and is not so long that a counter overflows, ends up
  in every log, is committed everywhere and is handed to every state machine once and in order.\<close>

theorem cluster_makes_progress:
  assumes "rng_ok rng" and "distinct ids" and "l \<in> set ids" and "3 \<le> length ids" and "length ids \<le> 25"
    and "2 * length ids * (length xs + 1) < u64_bound" and "length xs + 3 < u64_bound"
  shows "\<exists>c outs c'. new_with_leader rng ids l = Some c \<and> propose_each rng xs c = Some (outs, c') \<and>
     (\<forall>n\<in>set ids. \<exists>s. tc_node n c' = Some s \<and>
        log s = first_entry # map (\<lambda>x. \<lparr> le_term = 1, le_command = x \<rparr>) xs \<and>
        commit_index s = length xs + 1 \<and> last_applied s = length xs + 1 \<and>
        concat (map (\<lambda>out. applied (actions_of out n)) outs) = enumerate 2 xs)"
proof -
  from new_with_leader_progress [OF assms(1-3)] assms(4,5) obtain c where
    c: "new_with_leader rng ids l = Some c" "synced ids l 1 [first_entry] (2 * length ids) c" by auto
  from propose_each_progress [OF c(2) assms(1,4,5), of xs] assms(6,7) obtain outs c' where
    p: "propose_each rng xs c = Some (outs, c')"
    "synced ids l 1 ([first_entry] @ map (\<lambda>x. \<lparr> le_term = 1, le_command = x \<rparr>) xs)
       (2 * length ids + 2 * length ids * length xs) c'"
    "\<forall>n\<in>set ids. concat (map (\<lambda>out. applied (actions_of out n)) outs) = enumerate (length [first_entry] + 1) xs"
    by (auto simp: algebra_simps)
  from c(1) p(1,3) synced_nodes [OF p(2)] show ?thesis
    by (intro exI [of _ c] exI [of _ outs] exI [of _ c']) (simp add: numeral_2_eq_2)
qed

theorem cluster_makes_progress_witness:
  "\<exists>c outs c' s. new_with_leader demo_rng [1, 2, 3] 1 = Some c \<and>
     propose_each demo_rng [[7], [8]] c = Some (outs, c') \<and> tc_node 3 c' = Some s \<and> commit_index s = 3"
proof -
  have "(1::nat) \<in> set [1, 2, 3]" "distinct [1, 2, 3::nat]" by simp_all
  from cluster_makes_progress [OF demo_rng_ok this(2,1), of "[[7], [8]]"] obtain c outs c' where
    "new_with_leader demo_rng [1, 2, 3] 1 = Some c" "propose_each demo_rng [[7], [8]] c = Some (outs, c')"
    "\<exists>s. tc_node 3 c' = Some s \<and> commit_index s = 3"
    by (simp add: numeral_3_eq_3) blast
  then show ?thesis by blast
qed



section \<open>Where the assumption on votes matters\<close>

text \<open>Without that condition two nodes can lead the same term.  A candidate whose first election timed
  out counts a vote of the earlier term for the current one, since the term of a vote is only compared
  upwards; the run ends with nodes 1 and 3 both leading term 2.\<close>

lemma stale_vote_two_leaders:
  "map_option (leaders_of demo_members) (cluster_run demo_members stale_vote_run demo_cluster) =
     Some [(1, 2), (3, 2)]"
  by (simp add: exec)

section \<open>Where the assumption on responses matters\<close>

text \<open>C27: without the condition on responses two nodes of three can apply different entries at the same
  index, although every vote is timely, nothing crashes and nothing is compacted.  A refusal of an earlier
  term, which names no index, makes the leader send a request without entries and without previous index
  that carries its commit index; the receiver accepts it and applies what its own log holds there.\<close>

theorem stale_refusal_diverges:
  "\<exists>c. durable_reachable demo_members c \<and> leaders_of demo_members c = [(1, 3)] \<and>
     last_applied (cores c 1) = 2 \<and> log_entry_at (cores c 1) 2 = Some (empty_entry 3) \<and>
     last_applied (cores c 3) = 2 \<and> log_entry_at (cores c 3) 2 = Some \<lparr> le_term = 2, le_command = [9] \<rparr>"
proof -
  obtain c where c: "cluster_run demo_members refusal_run demo_cluster = Some c"
    and last: "leaders_of demo_members c = [(1, 3)]" "last_applied (cores c 1) = 2" "last_applied (cores c 3) = 2"
      "log_entry_at (cores c 1) 2 = Some (empty_entry 3)"
      "log_entry_at (cores c 3) 2 = Some \<lparr> le_term = 2, le_command = [9] \<rparr>"
    by (simp add: exec)
  have "durable_run demo_members refusal_run demo_cluster" by (simp add: exec)
  from cluster_run_durable [OF demo_cluster_durable this c] last show ?thesis by blast
qed

end
